(* ===== verification/Abseil_Prelude.thy ===== *)
theory Abseil_Prelude
  imports Main "HOL-Library.Word" "HOL-Library.Signed_Division"
begin

text \<open>
  Shared vocabulary of the development: the collections of rewrite rules the component
  theories register their facts in, C++'s truncating integer division, the value ranges
  of the fixed-width integer types, and generic lemmas on lists and words.
\<close>

section \<open>Collections\<close>

named_theorems trunc_simps \<open>truncating division by a positive divisor, as floor division\<close>

named_theorems range_simps \<open>numeric bounds of the fixed-width integer types\<close>

section \<open>Truncating division\<close>

text \<open>
  C++ division rounds toward zero: \<open>/\<close> is \<^const>\<open>signed_divide\<close> and \<open>%\<close> is
  \<^const>\<open>signed_modulo\<close>. For a positive divisor both are written here with floor
  division, which the arithmetic procedures decide.
\<close>

lemma sdiv_pos [trunc_simps]:
  fixes a b :: int
  assumes "0 < b"
  shows "a sdiv b = (if 0 \<le> a then a div b else - ((- a) div b))"
  using assms by (cases "a = 0") (auto simp: signed_divide_int_def sgn_if)

lemma smod_pos [trunc_simps]:
  fixes a b :: int
  assumes "0 < b"
  shows "a smod b = (if 0 \<le> a then a mod b else - ((- a) mod b))"
  using assms by (cases "a = 0") (auto simp: signed_modulo_int_def sgn_if)

text \<open>The two facts about truncating division every normalisation step uses.\<close>

lemma smod_pos_bounds:
  fixes a b :: int
  assumes "0 < b"
  shows "- b < a smod b" and "a smod b < b"
  using assms by (simp_all add: smod_pos neg_mod_bound pos_mod_bound)
    (smt (verit) pos_mod_sign)+

lemma sdiv_nonneg:
  fixes a b :: int
  assumes "0 \<le> a" and "0 < b"
  shows "a sdiv b = a div b" and "a smod b = a mod b"
  using assms by (simp_all add: trunc_simps)

lemma smod_eq_0_iff [simp]:
  fixes a b :: int
  assumes "0 < b"
  shows "a smod b = 0 \<longleftrightarrow> b dvd a"
  using assms by (simp add: smod_pos flip: dvd_eq_mod_eq_0)

text \<open>
  The idiom \<^verbatim>\<open>q = a / b; r = a % b; if (r < 0) { --q; r += b; }\<close> is floor division.
\<close>

lemma trunc_to_floor:
  fixes a b :: int
  assumes "0 < b"
  shows "a smod b < 0 \<Longrightarrow> a smod b + b = a mod b" and "a smod b < 0 \<Longrightarrow> a sdiv b - 1 = a div b"
    and "\<not> a smod b < 0 \<Longrightarrow> a smod b = a mod b" and "\<not> a smod b < 0 \<Longrightarrow> a sdiv b = a div b"
  using assms
  by (auto simp: trunc_simps zmod_zminus1_eq_if zdiv_zminus1_eq_if split: if_splits)
    (use assms pos_mod_sign [of b a] pos_mod_bound [of b a] in linarith)+

lemma trunc_sum:
  fixes a b k :: int
  shows "(a sdiv k + b sdiv k) * k + (a smod k + b smod k) = a + b"
  using sdiv_mult_smod_eq [of a k] sdiv_mult_smod_eq [of b k] by (simp add: algebra_simps)

section \<open>Fixed-width integers\<close>

abbreviation int64_min :: int where "int64_min \<equiv> - 9223372036854775808"
abbreviation int64_max :: int where "int64_max \<equiv> 9223372036854775807"

definition in_int64 :: "int \<Rightarrow> bool" where
  "in_int64 x \<longleftrightarrow> int64_min \<le> x \<and> x \<le> int64_max"

lemmas [range_simps] = in_int64_def

text \<open>The result of a signed 64-bit operation: undefined when the value does not fit.\<close>

definition chk64 :: "int \<Rightarrow> int option" where
  "chk64 x = (if in_int64 x then Some x else None)"

lemma chk64_eq [simp]: "in_int64 x \<Longrightarrow> chk64 x = Some x"
  by (simp add: chk64_def)

lemma chk64_Some [simp]: "chk64 x = Some y \<longleftrightarrow> in_int64 x \<and> y = x"
  by (auto simp: chk64_def)

end
