(* ===== verification/Civil_Exact.thy ===== *)
theory Civil_Exact
  imports Abseil_Prelude
begin

text \<open>
  The civil-time engine of cctz on unbounded integers: the data, tables and comparison of
  \<^verbatim>\<open>time/internal/cctz/include/cctz/civil_time_detail.h\<close>, and its arithmetic functions with every
  check of the width of an integer left out (suffix \<^verbatim>\<open>_exact\<close>), proved against a reference calendar. The code
  itself, in which leaving 64 bits is undefined, is in \<^verbatim>\<open>Civil_Time\<close>; it is shown there to return what these
  functions compute or, when that is out of range, nothing. Division is C++'s truncating
  \<open>sdiv\<close>/\<open>smod\<close>.
\<close>

section \<open>Data\<close>

record fields =
  f_y :: int
  f_m :: int
  f_d :: int
  f_hh :: int
  f_mm :: int
  f_ss :: int

datatype tag = second_tag | minute_tag | hour_tag | day_tag | month_tag | year_tag

datatype weekday = monday | tuesday | wednesday | thursday | friday | saturday | sunday

section \<open>Field normalisation\<close>

definition is_leap_year :: "int \<Rightarrow> bool" where
  "is_leap_year y \<longleftrightarrow> y smod 4 = 0 \<and> (y smod 100 \<noteq> 0 \<or> y smod 400 = 0)"

definition year_index_exact :: "int \<Rightarrow> int \<Rightarrow> int" where
  "year_index_exact y m =
     (let yi = (y + of_bool (m > 2)) smod 400 in if yi < 0 then yi + 400 else yi)"

definition days_per_century :: "int \<Rightarrow> int" where
  "days_per_century yi = 36524 + of_bool (yi = 0 \<or> yi > 300)"

definition days_per_4years :: "int \<Rightarrow> int" where
  "days_per_4years yi = 1460 + of_bool (yi = 0 \<or> yi > 300 \<or> (yi - 1) smod 100 < 96)"

definition days_per_year_exact :: "int \<Rightarrow> int \<Rightarrow> int" where
  "days_per_year_exact y m = (if is_leap_year (y + of_bool (m > 2)) then 366 else 365)"

definition k_days_per_month :: "int list" where
  "k_days_per_month = [-1, 31, 28, 31, 30, 31, 30, 31, 31, 30, 31, 30, 31]"

definition days_per_month_exact :: "int \<Rightarrow> int \<Rightarrow> int" where
  "days_per_month_exact y m = k_days_per_month ! nat m + of_bool (m = 2 \<and> is_leap_year y)"

text \<open>
  The four loops of \<^verbatim>\<open>n_day\<close>, each returning the loop variables at its \<^verbatim>\<open>break\<close>. The month
  loop ends at an index outside \<open>1..12\<close>.
\<close>

function n_day_centuries_exact :: "int \<Rightarrow> int \<Rightarrow> int \<Rightarrow> int \<times> int \<times> int" where
  "n_day_centuries_exact d ey yi =
     (let n = days_per_century yi in
      if d \<le> n then (d, ey, yi)
      else n_day_centuries_exact (d - n) (ey + 100)
             (if yi + 100 \<ge> 400 then yi + 100 - 400 else yi + 100))"
  by pat_completeness auto
termination
  by (relation "measure (\<lambda>(d, ey, yi). nat d)") (auto simp: days_per_century_def of_bool_def split: if_splits)

function n_day_4years_exact :: "int \<Rightarrow> int \<Rightarrow> int \<Rightarrow> int \<times> int \<times> int" where
  "n_day_4years_exact d ey yi =
     (let n = days_per_4years yi in
      if d \<le> n then (d, ey, yi)
      else n_day_4years_exact (d - n) (ey + 4)
             (if yi + 4 \<ge> 400 then yi + 4 - 400 else yi + 4))"
  by pat_completeness auto
termination
  by (relation "measure (\<lambda>(d, ey, yi). nat d)") (auto simp: days_per_4years_def of_bool_def split: if_splits)

function n_day_years_exact :: "int \<Rightarrow> int \<Rightarrow> int \<Rightarrow> int \<times> int" where
  "n_day_years_exact m d ey =
     (let n = days_per_year_exact ey m in
      if d \<le> n then (d, ey) else n_day_years_exact m (d - n) (ey + 1))"
  by pat_completeness auto
termination
  by (relation "measure (\<lambda>(m, d, ey). nat d)") (auto simp: days_per_year_exact_def split: if_splits)

lemma month_cases:
  fixes m :: int
  assumes "1 \<le> m" and "m \<le> 12"
  obtains "m = 1" | "m = 2" | "m = 3" | "m = 4" | "m = 5" | "m = 6"
    | "m = 7" | "m = 8" | "m = 9" | "m = 10" | "m = 11" | "m = 12"
proof -
  have "m = 1 \<or> m = 2 \<or> m = 3 \<or> m = 4 \<or> m = 5 \<or> m = 6 \<or> m = 7 \<or> m = 8 \<or> m = 9 \<or>
    m = 10 \<or> m = 11 \<or> m = 12" using assms by arith
  then show ?thesis using that by blast
qed

lemma days_per_month_ge:
  assumes "1 \<le> m" and "m \<le> 12"
  shows "28 \<le> days_per_month_exact y m"
  using assms
  by (cases m rule: month_cases) (simp_all add: days_per_month_exact_def k_days_per_month_def)

function n_day_months_exact :: "int \<Rightarrow> int \<Rightarrow> int \<Rightarrow> int \<times> int \<times> int" where
  "n_day_months_exact d ey m =
     (let n = days_per_month_exact ey m in
      if \<not> (1 \<le> m \<and> m \<le> 12) \<or> d \<le> n then (d, ey, m)
      else if m + 1 > 12 then n_day_months_exact (d - n) (ey + 1) 1
      else n_day_months_exact (d - n) ey (m + 1))"
  by pat_completeness auto
termination
proof (relation "measure (\<lambda>(d, ey, m). nat d)", goal_cases)
  case (2 d ey m n)
  then show ?case using days_per_month_ge [of m ey] by auto
next
  case (3 d ey m n)
  then show ?case using days_per_month_ge [of m ey] by auto
qed auto

declare n_day_centuries_exact.simps [simp del] n_day_4years_exact.simps [simp del]
  n_day_years_exact.simps [simp del] n_day_months_exact.simps [simp del]

definition n_day_exact :: "int \<Rightarrow> int \<Rightarrow> int \<Rightarrow> int \<Rightarrow> int \<Rightarrow> int \<Rightarrow> int \<Rightarrow> fields" where
  "n_day_exact y m d cd hh mm ss =
     (let ey = y smod 400;
          oey = ey;
          ey = ey + (cd sdiv 146097) * 400;
          cd = cd smod 146097;
          (ey, cd) = (if cd < 0 then (ey - 400, cd + 146097) else (ey, cd));
          ey = ey + (d sdiv 146097) * 400;
          d = d smod 146097 + cd;
          (ey, d) =
            (if d > 0 then (if d > 146097 then (ey + 400, d - 146097) else (ey, d))
             else if d > -365 then (ey - 1, d + days_per_year_exact (ey - 1) m)
             else (ey - 400, d + 146097));
          (d, ey) =
            (if d > 365 then
               let yi = year_index_exact ey m;
                   (d, ey, yi) = n_day_centuries_exact d ey yi;
                   (d, ey, yi) = n_day_4years_exact d ey yi
               in n_day_years_exact m d ey
             else (d, ey));
          (d, ey, m) = (if d > 28 then n_day_months_exact d ey m else (d, ey, m))
      in \<lparr>f_y = y + (ey - oey), f_m = m, f_d = d, f_hh = hh, f_mm = mm, f_ss = ss\<rparr>)"

definition n_mon_exact :: "int \<Rightarrow> int \<Rightarrow> int \<Rightarrow> int \<Rightarrow> int \<Rightarrow> int \<Rightarrow> int \<Rightarrow> fields" where
  "n_mon_exact y m d cd hh mm ss =
     (if m \<noteq> 12 then
        let y = y + m sdiv 12;
            m = m smod 12;
            (y, m) = (if m \<le> 0 then (y - 1, m + 12) else (y, m))
        in n_day_exact y m d cd hh mm ss
      else n_day_exact y m d cd hh mm ss)"

definition n_hour_exact :: "int \<Rightarrow> int \<Rightarrow> int \<Rightarrow> int \<Rightarrow> int \<Rightarrow> int \<Rightarrow> int \<Rightarrow> fields" where
  "n_hour_exact y m d cd hh mm ss =
     (let cd = cd + hh sdiv 24;
          hh = hh smod 24;
          (cd, hh) = (if hh < 0 then (cd - 1, hh + 24) else (cd, hh))
      in n_mon_exact y m d cd hh mm ss)"

definition n_min_exact :: "int \<Rightarrow> int \<Rightarrow> int \<Rightarrow> int \<Rightarrow> int \<Rightarrow> int \<Rightarrow> int \<Rightarrow> fields" where
  "n_min_exact y m d hh ch mm ss =
     (let ch = ch + mm sdiv 60;
          mm = mm smod 60;
          (ch, mm) = (if mm < 0 then (ch - 1, mm + 60) else (ch, mm))
      in n_hour_exact y m d (hh sdiv 24 + ch sdiv 24) (hh smod 24 + ch smod 24) mm ss)"

definition n_sec_exact :: "int \<Rightarrow> int \<Rightarrow> int \<Rightarrow> int \<Rightarrow> int \<Rightarrow> int \<Rightarrow> fields" where
  "n_sec_exact y m d hh mm ss =
     (if 0 \<le> ss \<and> ss < 60 then
        if 0 \<le> mm \<and> mm < 60 then
          if 0 \<le> hh \<and> hh < 24 then
            if 1 \<le> d \<and> d \<le> 28 \<and> 1 \<le> m \<and> m \<le> 12 then
              \<lparr>f_y = y, f_m = m, f_d = d, f_hh = hh, f_mm = mm, f_ss = ss\<rparr>
            else n_mon_exact y m d 0 hh mm ss
          else n_hour_exact y m d (hh sdiv 24) (hh smod 24) mm ss
        else n_min_exact y m d hh (mm sdiv 60) (mm smod 60) ss
      else
        let cm = ss sdiv 60;
            ss = ss smod 60;
            (cm, ss) = (if ss < 0 then (cm - 1, ss + 60) else (cm, ss))
        in n_min_exact y m d hh (mm sdiv 60 + cm sdiv 60) (mm smod 60 + cm smod 60) ss)"

section \<open>Stepping, differences, alignment\<close>

fun step_exact :: "tag \<Rightarrow> fields \<Rightarrow> int \<Rightarrow> fields" where
  "step_exact second_tag f n =
     n_sec_exact (f_y f) (f_m f) (f_d f) (f_hh f) (f_mm f + n sdiv 60) (f_ss f + n smod 60)"
| "step_exact minute_tag f n =
     n_min_exact (f_y f) (f_m f) (f_d f) (f_hh f + n sdiv 60) 0 (f_mm f + n smod 60) (f_ss f)"
| "step_exact hour_tag f n =
     n_hour_exact (f_y f) (f_m f) (f_d f + n sdiv 24) 0 (f_hh f + n smod 24) (f_mm f) (f_ss f)"
| "step_exact day_tag f n = n_day_exact (f_y f) (f_m f) (f_d f) n (f_hh f) (f_mm f) (f_ss f)"
| "step_exact month_tag f n =
     n_mon_exact (f_y f + n sdiv 12) (f_m f + n smod 12) (f_d f) 0 (f_hh f) (f_mm f) (f_ss f)"
| "step_exact year_tag f n = f\<lparr>f_y := f_y f + n\<rparr>"

definition scale_add_exact :: "int \<Rightarrow> int \<Rightarrow> int \<Rightarrow> int" where
  "scale_add_exact v f a = (if v < 0 then ((v + 1) * f + a) - f else ((v - 1) * f + a) + f)"

definition ymd_ord_exact :: "int \<Rightarrow> int \<Rightarrow> int \<Rightarrow> int" where
  "ymd_ord_exact y m d =
     (let eyear = (if m \<le> 2 then y - 1 else y);
          era = (if eyear \<ge> 0 then eyear else eyear - 399) sdiv 400;
          yoe = eyear - era * 400;
          doy = (153 * (m + (if m > 2 then -3 else 9)) + 2) sdiv 5 + d - 1;
          doe = yoe * 365 + yoe sdiv 4 - yoe sdiv 100 + doy
      in era * 146097 + doe - 719468)"

definition day_difference_exact :: "int \<Rightarrow> int \<Rightarrow> int \<Rightarrow> int \<Rightarrow> int \<Rightarrow> int \<Rightarrow> int" where
  "day_difference_exact y1 m1 d1 y2 m2 d2 =
     (let a_c4_off = y1 smod 400;
          b_c4_off = y2 smod 400;
          c4_diff = (y1 - a_c4_off) - (y2 - b_c4_off);
          delta = ymd_ord_exact a_c4_off m1 d1 - ymd_ord_exact b_c4_off m2 d2;
          (delta, c4_diff) =
            (if c4_diff > 0 \<and> delta < 0 then (delta + 2 * 146097, c4_diff - 2 * 400)
             else if c4_diff < 0 \<and> delta > 0 then (delta - 2 * 146097, c4_diff + 2 * 400)
             else (delta, c4_diff))
      in (c4_diff sdiv 400 * 146097) + delta)"

function difference_exact :: "tag \<Rightarrow> fields \<Rightarrow> fields \<Rightarrow> int" where
  "difference_exact year_tag f1 f2 = f_y f1 - f_y f2"
| "difference_exact month_tag f1 f2 = scale_add_exact (difference_exact year_tag f1 f2) 12 (f_m f1 - f_m f2)"
| "difference_exact day_tag f1 f2 =
     day_difference_exact (f_y f1) (f_m f1) (f_d f1) (f_y f2) (f_m f2) (f_d f2)"
| "difference_exact hour_tag f1 f2 = scale_add_exact (difference_exact day_tag f1 f2) 24 (f_hh f1 - f_hh f2)"
| "difference_exact minute_tag f1 f2 = scale_add_exact (difference_exact hour_tag f1 f2) 60 (f_mm f1 - f_mm f2)"
| "difference_exact second_tag f1 f2 = scale_add_exact (difference_exact minute_tag f1 f2) 60 (f_ss f1 - f_ss f2)"
  by pat_completeness auto
termination
  by (relation "measure (\<lambda>(t, _, _). case t of
    year_tag \<Rightarrow> 0 | month_tag \<Rightarrow> 1 | day_tag \<Rightarrow> 0 | hour_tag \<Rightarrow> 1 | minute_tag \<Rightarrow> 2 | second_tag \<Rightarrow> 3)") auto

fun align :: "tag \<Rightarrow> fields \<Rightarrow> fields" where
  "align second_tag f = f"
| "align minute_tag f = f\<lparr>f_ss := 0\<rparr>"
| "align hour_tag f = f\<lparr>f_mm := 0, f_ss := 0\<rparr>"
| "align day_tag f = f\<lparr>f_hh := 0, f_mm := 0, f_ss := 0\<rparr>"
| "align month_tag f = f\<lparr>f_d := 1, f_hh := 0, f_mm := 0, f_ss := 0\<rparr>"
| "align year_tag f = f\<lparr>f_m := 1, f_d := 1, f_hh := 0, f_mm := 0, f_ss := 0\<rparr>"

section \<open>Comparison\<close>

definition civil_less :: "fields \<Rightarrow> fields \<Rightarrow> bool" where
  "civil_less lhs rhs \<longleftrightarrow>
     f_y lhs < f_y rhs \<or>
     (f_y lhs = f_y rhs \<and>
      (f_m lhs < f_m rhs \<or>
       (f_m lhs = f_m rhs \<and>
        (f_d lhs < f_d rhs \<or>
         (f_d lhs = f_d rhs \<and>
          (f_hh lhs < f_hh rhs \<or>
           (f_hh lhs = f_hh rhs \<and>
            (f_mm lhs < f_mm rhs \<or>
             (f_mm lhs = f_mm rhs \<and> f_ss lhs < f_ss rhs)))))))))"

definition civil_eq :: "fields \<Rightarrow> fields \<Rightarrow> bool" where
  "civil_eq lhs rhs \<longleftrightarrow>
     f_y lhs = f_y rhs \<and> f_m lhs = f_m rhs \<and> f_d lhs = f_d rhs \<and>
     f_hh lhs = f_hh rhs \<and> f_mm lhs = f_mm rhs \<and> f_ss lhs = f_ss rhs"

section \<open>Weekdays and year days\<close>

definition k_weekday_by_mon_off :: "weekday list" where
  "k_weekday_by_mon_off =
     [monday, tuesday, wednesday, thursday, friday, saturday, sunday,
      monday, tuesday, wednesday, thursday, friday, saturday]"

definition k_weekday_offsets :: "int list" where
  "k_weekday_offsets = [-1, 0, 3, 2, 5, 0, 3, 5, 1, 4, 6, 2, 4]"

definition get_weekday :: "fields \<Rightarrow> weekday" where
  "get_weekday cs =
     (let wd = 2400 + (f_y cs smod 400) - of_bool (f_m cs < 3);
          wd = wd + (wd sdiv 4 - wd sdiv 100 + wd sdiv 400);
          wd = wd + (k_weekday_offsets ! nat (f_m cs) + f_d cs)
      in k_weekday_by_mon_off ! nat (wd smod 7 + 6))"

text \<open>
  The searches of \<^verbatim>\<open>next_weekday\<close> and \<^verbatim>\<open>prev_weekday\<close> run over their table without a bound;
  \<^const>\<open>None\<close> stands for reading past its end.
\<close>

fun weekday_search :: "weekday \<Rightarrow> weekday list \<Rightarrow> nat \<Rightarrow> nat option" where
  "weekday_search w [] i = None"
| "weekday_search w (x # xs) i = (if w = x then Some i else weekday_search w xs (i + 1))"

definition weekday_gap :: "weekday list \<Rightarrow> weekday \<Rightarrow> weekday \<Rightarrow> int option" where
  "weekday_gap tbl base wd =
     (case weekday_search base tbl 0 of
        None \<Rightarrow> None
      | Some i \<Rightarrow> (case weekday_search wd (drop (i + 1) tbl) (i + 1) of
          None \<Rightarrow> None
        | Some j \<Rightarrow> Some (int j - int i)))"

definition k_weekdays_forw :: "weekday list" where
  "k_weekdays_forw =
     [monday, tuesday, wednesday, thursday, friday, saturday, sunday,
      monday, tuesday, wednesday, thursday, friday, saturday, sunday]"

definition k_weekdays_back :: "weekday list" where
  "k_weekdays_back =
     [sunday, saturday, friday, thursday, wednesday, tuesday, monday,
      sunday, saturday, friday, thursday, wednesday, tuesday, monday]"

definition k_month_offsets :: "int list" where
  "k_month_offsets = [-1, 0, 31, 59, 90, 120, 151, 181, 212, 243, 273, 304, 334]"

definition get_yearday :: "fields \<Rightarrow> int" where
  "get_yearday cs =
     (let feb29 = of_bool (f_m cs > 2 \<and> is_leap_year (f_y cs))
      in k_month_offsets ! nat (f_m cs) + feb29 + f_d cs)"


section \<open>The reference calendar\<close>

text \<open>
  The proleptic Gregorian calendar, stated without reference to the code: leap years by
  divisibility, month lengths, and the ordinal of a date as the number of days since
  the day before 0001-01-01.
\<close>

definition leap :: "int \<Rightarrow> bool" where
  "leap y \<longleftrightarrow> 4 dvd y \<and> (\<not> 100 dvd y \<or> 400 dvd y)"

definition month_length :: "int \<Rightarrow> int \<Rightarrow> int" where
  "month_length y m =
     (if m = 2 then (if leap y then 29 else 28)
      else if m \<in> {4, 6, 9, 11} then 30 else 31)"

definition days_before_year :: "int \<Rightarrow> int" where
  "days_before_year y = 365 * (y - 1) + (y - 1) div 4 - (y - 1) div 100 + (y - 1) div 400"

definition days_before_month :: "int \<Rightarrow> int \<Rightarrow> int" where
  "days_before_month y m = (\<Sum>k \<in> {1..<m}. month_length y k)"

definition ordinal :: "int \<Rightarrow> int \<Rightarrow> int \<Rightarrow> int" where
  "ordinal y m d = days_before_year y + days_before_month y m + d"

definition valid_date :: "int \<Rightarrow> int \<Rightarrow> int \<Rightarrow> bool" where
  "valid_date y m d \<longleftrightarrow> 1 \<le> m \<and> m \<le> 12 \<and> 1 \<le> d \<and> d \<le> month_length y m"

definition valid_fields :: "fields \<Rightarrow> bool" where
  "valid_fields f \<longleftrightarrow> valid_date (f_y f) (f_m f) (f_d f) \<and>
     0 \<le> f_hh f \<and> f_hh f < 24 \<and> 0 \<le> f_mm f \<and> f_mm f < 60 \<and> 0 \<le> f_ss f \<and> f_ss f < 60"

definition seconds_of :: "fields \<Rightarrow> int" where
  "seconds_of f =
     ((ordinal (f_y f) (f_m f) (f_d f) * 24 + f_hh f) * 60 + f_mm f) * 60 + f_ss f"

subsection \<open>Years\<close>

lemma div_step:
  fixes y k :: int
  assumes "0 < k"
  shows "y div k = (y - 1) div k + of_bool (k dvd y)"
proof (cases "k dvd y")
  case True
  then obtain q where q: "y = k * q" by (rule dvdE)
  have "(k * q - 1) div k = q - 1"
    by (rule int_div_pos_eq [where r = "k - 1"]) (use assms in \<open>auto simp: algebra_simps\<close>)
  then show ?thesis using q assms by simp
next
  case False
  have "y mod k \<noteq> 0" using False by (simp add: dvd_eq_mod_eq_0)
  moreover have "0 \<le> y mod k" "y mod k < k" using assms by simp_all
  ultimately have "(y - 1) div k = y div k"
    by (intro int_div_pos_eq [where r = "y mod k - 1"]) (auto simp: algebra_simps)
  then show ?thesis using False by simp
qed

lemma is_leap_year_eq: "is_leap_year y = leap y"
  by (simp add: is_leap_year_def leap_def)

lemma leap_of_bool: "(of_bool (leap y) :: int) = of_bool (4 dvd y) - of_bool (100 dvd y) + of_bool (400 dvd y)"
proof -
  have "400 dvd y \<Longrightarrow> 100 dvd y" "100 dvd y \<Longrightarrow> 4 dvd y"
    using dvd_trans [of 100 400 y] dvd_trans [of 4 100 y] by simp_all
  then show ?thesis unfolding leap_def
    by (cases "4 dvd y"; cases "100 dvd y"; cases "400 dvd y") simp_all
qed

lemma days_before_year_Suc: "days_before_year (y + 1) = days_before_year y + 365 + of_bool (leap y)"
proof -
  have "365 * y + (y div 4) - (y div 100) + (y div 400) =
    365 * (y - 1) + (y - 1) div 4 - (y - 1) div 100 + (y - 1) div 400 + 365 + of_bool (leap y)"
    unfolding div_step [of 4 y, simplified] div_step [of 100 y, simplified] div_step [of 400 y, simplified] leap_of_bool
    by (simp only: algebra_simps)
  then show ?thesis by (simp only: days_before_year_def add_diff_cancel_right')
qed

lemma days_before_year_400: "days_before_year (y + 400 * k) = days_before_year y + 146097 * k"
proof -
  have "(y + 400 * k - 1) div 4 = (y - 1) div 4 + 100 * k"
       "(y + 400 * k - 1) div 100 = (y - 1) div 100 + 4 * k"
       "(y + 400 * k - 1) div 400 = (y - 1) div 400 + k"
    by linarith+
  then show ?thesis unfolding days_before_year_def by (simp only: algebra_simps)
qed

lemma dvd_add_multiple:
  fixes a b c :: int
  assumes "a dvd c"
  shows "a dvd b + c * k \<longleftrightarrow> a dvd b"
  using assms by (simp add: dvd_add_left_iff)

lemma leap_400 [simp]: "leap (y + 400 * k) = leap y"
  by (simp add: leap_def dvd_add_multiple)

text \<open>
  A window of years repeats every 400 years, so what the century and four-year windows
  hold is a table of 400 entries.
\<close>

lemma year_window_table:
  "\<forall>yi \<in> set [0..399].
     days_before_year (yi + 100) = days_before_year yi + days_per_century yi \<and>
     days_before_year (yi + 4) = days_before_year yi + days_per_4years yi"
  by code_simp

lemma days_before_year_window:
  "days_before_year (Y + 100) = days_before_year Y + days_per_century (Y mod 400)"
  "days_before_year (Y + 4) = days_before_year Y + days_per_4years (Y mod 400)"
proof -
  have "Y mod 400 \<in> set [0..399]" by simp
  note t = year_window_table [rule_format, OF this]
  have Y: "Y = Y mod 400 + 400 * (Y div 400)" by simp
  have "Y + c = (Y mod 400 + c) + 400 * (Y div 400)" for c by simp
  then have shift: "days_before_year (Y + c) - days_before_year Y =
      days_before_year (Y mod 400 + c) - days_before_year (Y mod 400)" for c
    using days_before_year_400 [of "Y mod 400 + c" "Y div 400"]
      days_before_year_400 [of "Y mod 400" "Y div 400"] by simp
  show "days_before_year (Y + 100) = days_before_year Y + days_per_century (Y mod 400)"
    using shift [of 100] t by simp
  show "days_before_year (Y + 4) = days_before_year Y + days_per_4years (Y mod 400)"
    using shift [of 4] t by simp
qed

lemma days_before_year_per_year:
  "days_before_year (y + of_bool (m > 2) + 1) =
     days_before_year (y + of_bool (m > 2)) + days_per_year_exact y m"
  by (simp only: days_before_year_Suc days_per_year_exact_def is_leap_year_eq) simp

lemma year_index_eq: "year_index_exact y m = (y + of_bool (m > 2)) mod 400"
  using trunc_to_floor [of 400 "y + of_bool (m > 2)"] by (simp add: year_index_exact_def Let_def)

subsection \<open>Months\<close>

lemma days_per_month_eq: "1 \<le> m \<Longrightarrow> m \<le> 12 \<Longrightarrow> days_per_month_exact y m = month_length y m"
  by (cases m rule: month_cases)
    (simp_all add: days_per_month_exact_def k_days_per_month_def month_length_def is_leap_year_eq)

lemma days_before_month_1 [simp]: "days_before_month y 1 = 0"
  by (simp add: days_before_month_def)

lemma days_before_month_Suc:
  assumes "1 \<le> m"
  shows "days_before_month y (m + 1) = days_before_month y m + month_length y m"
proof -
  have "{1..<m + 1} = insert m {1..<m}" using assms by auto
  then show ?thesis by (simp add: days_before_month_def)
qed

lemma days_before_month_numerals:
  "days_before_month y 2 = 31"
  "days_before_month y 3 = 59 + of_bool (leap y)"
  "days_before_month y 4 = 90 + of_bool (leap y)"
  "days_before_month y 5 = 120 + of_bool (leap y)"
  "days_before_month y 6 = 151 + of_bool (leap y)"
  "days_before_month y 7 = 181 + of_bool (leap y)"
  "days_before_month y 8 = 212 + of_bool (leap y)"
  "days_before_month y 9 = 243 + of_bool (leap y)"
  "days_before_month y 10 = 273 + of_bool (leap y)"
  "days_before_month y 11 = 304 + of_bool (leap y)"
  "days_before_month y 12 = 334 + of_bool (leap y)"
  "days_before_month y 13 = 365 + of_bool (leap y)"
  using days_before_month_Suc [of 1 y] days_before_month_Suc [of 2 y] days_before_month_Suc [of 3 y]
    days_before_month_Suc [of 4 y] days_before_month_Suc [of 5 y] days_before_month_Suc [of 6 y]
    days_before_month_Suc [of 7 y] days_before_month_Suc [of 8 y] days_before_month_Suc [of 9 y]
    days_before_month_Suc [of 10 y] days_before_month_Suc [of 11 y] days_before_month_Suc [of 12 y]
  by (simp_all add: month_length_def)

text \<open>
  The start of a month, counted from the March-based year: the offset from there does
  not depend on the year.
\<close>

definition month_base :: "int \<Rightarrow> int" where
  "month_base m = k_month_offsets ! nat m - (if m > 2 then 365 else 0)"

lemma ordinal_month_base:
  assumes "1 \<le> m" and "m \<le> 12"
  shows "ordinal y m d = days_before_year (y + of_bool (m > 2)) + month_base m + d"
  using assms
  by (cases m rule: month_cases)
    (simp_all add: ordinal_def days_before_month_numerals month_base_def k_month_offsets_def
      days_before_year_Suc)

lemma month_length_ge: "28 \<le> month_length y m"
  by (simp add: month_length_def)

lemma ordinal_next_month:
  assumes "1 \<le> m" and "m \<le> 12"
  shows "ordinal y m (month_length y m + d) =
    (if m = 12 then ordinal (y + 1) 1 d else ordinal y (m + 1) d)"
proof (cases "m = 12")
  case True
  then show ?thesis
    using days_before_month_Suc [of 12 y] 
    by (simp add: ordinal_def days_before_month_numerals days_before_year_Suc)
next
  case False
  with assms show ?thesis by (simp add: ordinal_def days_before_month_Suc)
qed

subsection \<open>The loops of \<open>n_day_exact\<close>\<close>

text \<open>
  The century loop and the four-year loop are one scheme: leap over windows of \<open>w\<close> years
  as long as the remaining days exceed the days of the window.
\<close>

locale year_window_loop =
  fixes w :: int and days :: "int \<Rightarrow> int" and loop :: "int \<Rightarrow> int \<Rightarrow> int \<Rightarrow> int \<times> int \<times> int"
  assumes loop_eq: "loop d ey yi =
      (if d \<le> days yi then (d, ey, yi)
       else loop (d - days yi) (ey + w) (if yi + w \<ge> 400 then yi + w - 400 else yi + w))"
    and days_pos: "0 < days yi"
    and width: "0 < w" "w < 400"
    and window: "days_before_year (Y + w) = days_before_year Y + days (Y mod 400)"
begin

lemma index_step:
  assumes "yi = Y mod 400"
  shows "(if yi + w \<ge> 400 then yi + w - 400 else yi + w) = (Y + w) mod 400"
proof -
  have yi: "0 \<le> yi" "yi < 400" using assms by simp_all
  have "(Y + w) mod 400 = (yi + w) mod 400" unfolding assms by (simp add: mod_simps)
  also have "\<dots> = (if yi + w \<ge> 400 then yi + w - 400 else yi + w)"
  proof (cases "yi + w \<ge> 400")
    case True
    then have "(yi + w) mod 400 = (yi + w - 400) mod 400" by simp
    with True yi width show ?thesis by (simp add: mod_pos_pos_trivial del: minus_mod_self2)
  next
    case False
    with yi width show ?thesis by (simp add: mod_pos_pos_trivial)
  qed
  finally show ?thesis by simp
qed

lemma loop_inv:
  assumes "loop d ey yi = (d', ey', yi')" and "1 \<le> d" and "yi = (ey + b) mod 400"
  shows "days_before_year (ey' + b) + d' = days_before_year (ey + b) + d \<and>
    1 \<le> d' \<and> yi' = (ey' + b) mod 400"
  using assms
proof (induction "nat d" arbitrary: d ey yi rule: less_induct)
  case less
  show ?case
  proof (cases "d \<le> days yi")
    case True
    with less.prems loop_eq [of d ey yi] show ?thesis by auto
  next
    case False
    let ?yi = "if yi + w \<ge> 400 then yi + w - 400 else yi + w"
    have rec: "loop (d - days yi) (ey + w) ?yi = (d', ey', yi')"
      using less.prems(1) False loop_eq [of d ey yi] by simp
    have yi: "?yi = (ey + w + b) mod 400"
      using index_step [OF less.prems(3)] by (simp add: ac_simps)
    have "days_before_year (ey + w + b) = days_before_year (ey + b) + days yi"
      using window [of "ey + b"] less.prems(3) by (simp add: ac_simps)
    moreover have "nat (d - days yi) < nat d" using less.prems(2) days_pos [of yi] by simp
    ultimately show ?thesis
      using less.hyps [OF _ rec _ yi] False by simp
  qed
qed

end

interpretation centuries: year_window_loop 100 days_per_century n_day_centuries_exact
proof
  show "n_day_centuries_exact d ey yi =
      (if d \<le> days_per_century yi then (d, ey, yi)
       else n_day_centuries_exact (d - days_per_century yi) (ey + 100)
         (if yi + 100 \<ge> 400 then yi + 100 - 400 else yi + 100))" for d ey yi
    by (subst n_day_centuries_exact.simps) (simp add: Let_def)
qed (simp_all only: days_before_year_window, simp_all add: days_per_century_def)

interpretation four_years: year_window_loop 4 days_per_4years n_day_4years_exact
proof
  show "n_day_4years_exact d ey yi =
      (if d \<le> days_per_4years yi then (d, ey, yi)
       else n_day_4years_exact (d - days_per_4years yi) (ey + 4)
         (if yi + 4 \<ge> 400 then yi + 4 - 400 else yi + 4))" for d ey yi
    by (subst n_day_4years_exact.simps) (simp add: Let_def)
qed (simp_all only: days_before_year_window, simp_all add: days_per_4years_def)

lemma n_day_years_inv:
  assumes "n_day_years_exact m d ey = (d', ey')" and "1 \<le> d"
  shows "days_before_year (ey' + of_bool (m > 2)) + d' = days_before_year (ey + of_bool (m > 2)) + d \<and>
    1 \<le> d'"
  using assms
proof (induction m d ey rule: n_day_years_exact.induct)
  case (1 m d ey)
  let ?n = "days_per_year_exact ey m"
  show ?case
  proof (cases "d \<le> ?n")
    case True
    with "1.prems" n_day_years_exact.simps [of m d ey] show ?thesis by auto
  next
    case False
    have rec: "n_day_years_exact m (d - ?n) (ey + 1) = (d', ey')"
      using "1.prems"(1) False n_day_years_exact.simps [of m d ey] by (simp add: Let_def)
    show ?thesis
      using "1.IH" [OF refl False rec] False days_before_year_per_year [of ey m]
      by (simp add: ac_simps)
  qed
qed

lemma n_day_months_inv:
  assumes "n_day_months_exact d ey m = (d', ey', m')" and "1 \<le> d" and "1 \<le> m" and "m \<le> 12"
  shows "ordinal ey' m' d' = ordinal ey m d \<and> valid_date ey' m' d'"
  using assms
proof (induction d ey m rule: n_day_months_exact.induct)
  case (1 d ey m)
  let ?n = "days_per_month_exact ey m"
  have n: "?n = month_length ey m" using "1.prems" by (simp add: days_per_month_eq)
  show ?case
  proof (cases "d \<le> ?n")
    case True
    with "1.prems" n n_day_months_exact.simps [of d ey m] show ?thesis by (auto simp: valid_date_def)
  next
    case False
    then have ord: "ordinal ey m d =
        (if m = 12 then ordinal (ey + 1) 1 (d - ?n) else ordinal ey (m + 1) (d - ?n))"
      using ordinal_next_month [of m ey "d - ?n"] "1.prems" n by simp
    have nc: "\<not> (\<not> (1 \<le> m \<and> m \<le> 12) \<or> d \<le> ?n)" using False "1.prems" by simp
    show ?thesis
    proof (cases "m + 1 > 12")
      case True
      have rec: "n_day_months_exact (d - ?n) (ey + 1) 1 = (d', ey', m')"
        using "1.prems" False True n_day_months_exact.simps [of d ey m] by (simp add: Let_def)
      show ?thesis
        using "1.IH"(1) [OF refl nc True rec] False True ord "1.prems" by simp
    next
      case False: False
      have rec: "n_day_months_exact (d - ?n) ey (m + 1) = (d', ey', m')"
        using "1.prems" nc False n_day_months_exact.simps [of d ey m] by (simp add: Let_def)
      show ?thesis
        using "1.IH"(2) [OF refl nc False rec] False nc ord "1.prems" by simp
    qed
  qed
qed

subsection \<open>\<open>n_day_exact\<close>\<close>

lemma n_day_fixup:
  assumes "(if d > 0 then (if d > 146097 then (ey + 400, d - 146097) else (ey, d))
             else if d > -365 then (ey - 1, d + days_per_year_exact (ey - 1) m)
             else (ey - 400, d + 146097)) = (ey', d')" 
    and "-146097 < d" and "b = of_bool (m > 2)"
  shows "days_before_year (ey' + b) + d' = days_before_year (ey + b) + d" and "1 \<le> d'"
proof -
  have y: "days_before_year (ey + b) = days_before_year (ey - 1 + b) + days_per_year_exact (ey - 1) m"
    using days_before_year_per_year [of "ey - 1" m] assms(3) by (simp add: ac_simps)
  have "365 \<le> days_per_year_exact (ey - 1) m" by (simp add: days_per_year_exact_def)
  then show "1 \<le> d'" using assms(1,2) by (auto split: if_splits)
  show "days_before_year (ey' + b) + d' = days_before_year (ey + b) + d"
    using assms(1) y days_before_year_400 [of "ey + b" 1] days_before_year_400 [of "ey + b" "-1"]
    by (auto simp: algebra_simps split: if_splits)
qed

lemma n_day_year_loops:
  assumes "(if d > 365 then
               let yi = year_index_exact ey m;
                   (d, ey, yi) = n_day_centuries_exact d ey yi;
                   (d, ey, yi) = n_day_4years_exact d ey yi
               in n_day_years_exact m d ey
             else (d, ey)) = (d', ey')"
    and "1 \<le> d" and "b = of_bool (m > 2)"
  shows "days_before_year (ey' + b) + d' = days_before_year (ey + b) + d \<and> 1 \<le> d'"
proof (cases "d > 365")
  case True
  obtain d1 e1 i1 where c: "n_day_centuries_exact d ey (year_index_exact ey m) = (d1, e1, i1)"
    by (cases "n_day_centuries_exact d ey (year_index_exact ey m)") auto
  obtain d2 e2 i2 where q: "n_day_4years_exact d1 e1 i1 = (d2, e2, i2)"
    by (cases "n_day_4years_exact d1 e1 i1") auto
  have y: "n_day_years_exact m d2 e2 = (d', ey')" using assms(1) True c q by (simp add: Let_def)
  note ci = centuries.loop_inv [OF c assms(2), of b]
  note qi = four_years.loop_inv [OF q, of b]
  show ?thesis
    using ci qi n_day_years_inv [OF y] assms(3) by (simp add: year_index_eq)
next
  case False
  with assms show ?thesis by simp
qed

lemma n_day_stages:
  assumes "ey0 = y smod 400"
    and "(if cd smod 146097 < 0 then (ey0 + (cd sdiv 146097) * 400 - 400, cd smod 146097 + 146097)
          else (ey0 + (cd sdiv 146097) * 400, cd smod 146097)) = (ey1, cd1)"
    and "(if d smod 146097 + cd1 > 0 then
            (if d smod 146097 + cd1 > 146097
             then (ey1 + (d sdiv 146097) * 400 + 400, d smod 146097 + cd1 - 146097)
             else (ey1 + (d sdiv 146097) * 400, d smod 146097 + cd1))
          else if d smod 146097 + cd1 > -365
          then (ey1 + (d sdiv 146097) * 400 - 1,
                d smod 146097 + cd1 + days_per_year_exact (ey1 + (d sdiv 146097) * 400 - 1) m)
          else (ey1 + (d sdiv 146097) * 400 - 400, d smod 146097 + cd1 + 146097)) = (ey3, d3)"
    and "b = of_bool (m > 2)"
  shows "days_before_year (ey3 + b) + d3 = days_before_year (ey0 + b) + d + cd" and "1 \<le> d3"
proof -
  have cd1: "days_before_year (ey1 + b) + cd1 = days_before_year (ey0 + b) + cd" "0 \<le> cd1"
    using assms(2) sdiv_mult_smod_eq [of cd 146097]
      days_before_year_400 [of "ey0 + b" "cd sdiv 146097"]
      days_before_year_400 [of "ey0 + b" "cd sdiv 146097 - 1"]
      smod_pos_bounds [of 146097 cd]
    by (auto simp: algebra_simps split: if_splits)
  let ?e2 = "ey1 + (d sdiv 146097) * 400"
  have "days_before_year (?e2 + b) + d smod 146097 = days_before_year (ey1 + b) + d"
    using sdiv_mult_smod_eq [of d 146097] days_before_year_400 [of "ey1 + b" "d sdiv 146097"]
    by (simp add: algebra_simps)
  moreover have "-146097 < d smod 146097 + cd1" using smod_pos_bounds [of 146097 d] cd1(2) by simp
  note fx = n_day_fixup [OF assms(3) this assms(4)]
  ultimately show "days_before_year (ey3 + b) + d3 = days_before_year (ey0 + b) + d + cd"
    using cd1(1) fx(1) by simp
  show "1 \<le> d3" by (rule fx(2))
qed

lemma month_length_400: "month_length (y + 400 * k) m = month_length y m"
  by (simp add: month_length_def)

lemma ordinal_400: "ordinal (y + 400 * k) m d = ordinal y m d + 146097 * k"
  by (simp add: ordinal_def days_before_year_400 days_before_month_def month_length_400)

lemma n_day_correct:
  assumes "1 \<le> m" and "m \<le> 12" and f_def: "n_day_exact y m d cd hh mm ss = f"
  shows "valid_date (f_y f) (f_m f) (f_d f)" and "ordinal (f_y f) (f_m f) (f_d f) = ordinal y m (d + cd)"
    and "f_hh f = hh" and "f_mm f = mm" and "f_ss f = ss"
proof -
  define b where "b = (of_bool (m > 2) :: int)"
  define ey0 where "ey0 = y smod 400"
  obtain ey1 cd1 where s1: "(if cd smod 146097 < 0 then (ey0 + (cd sdiv 146097) * 400 - 400, cd smod 146097 + 146097)
          else (ey0 + (cd sdiv 146097) * 400, cd smod 146097)) = (ey1, cd1)" by fastforce
  obtain ey3 d3 where s3: "(if d smod 146097 + cd1 > 0 then
            (if d smod 146097 + cd1 > 146097
             then (ey1 + (d sdiv 146097) * 400 + 400, d smod 146097 + cd1 - 146097)
             else (ey1 + (d sdiv 146097) * 400, d smod 146097 + cd1))
          else if d smod 146097 + cd1 > -365
          then (ey1 + (d sdiv 146097) * 400 - 1,
                d smod 146097 + cd1 + days_per_year_exact (ey1 + (d sdiv 146097) * 400 - 1) m)
          else (ey1 + (d sdiv 146097) * 400 - 400, d smod 146097 + cd1 + 146097)) = (ey3, d3)" by fastforce
  obtain d4 ey4 where s4: "(if d3 > 365 then
               let yi = year_index_exact ey3 m;
                   (d, ey, yi) = n_day_centuries_exact d3 ey3 yi;
                   (d, ey, yi) = n_day_4years_exact d ey yi
               in n_day_years_exact m d ey
             else (d3, ey3)) = (d4, ey4)" by fastforce
  obtain d5 ey5 m5 where s5: "(if d4 > 28 then n_day_months_exact d4 ey4 m else (d4, ey4, m)) = (d5, ey5, m5)"
    by (metis prod_cases3)
  have f: "f = \<lparr>f_y = y + (ey5 - ey0), f_m = m5, f_d = d5, f_hh = hh, f_mm = mm, f_ss = ss\<rparr>"
    unfolding f_def [symmetric] n_day_exact_def
    by (simp only: Let_def ey0_def [symmetric] s1 prod.case s3 s4 [unfolded Let_def] s5)
  note st = n_day_stages [OF ey0_def s1 s3 b_def]
  have yl: "days_before_year (ey4 + b) + d4 = days_before_year (ey0 + b) + d + cd" "1 \<le> d4"
    using n_day_year_loops [OF s4 st(2) b_def] st(1) by simp_all
  have o4: "ordinal ey4 m d4 = ordinal ey0 m (d + cd)"
    using yl(1) by (simp add: ordinal_month_base [OF assms(1,2)] b_def)
  have o5: "ordinal ey5 m5 d5 = ordinal ey4 m d4 \<and> valid_date ey5 m5 d5"
  proof (cases "d4 > 28")
    case True
    then show ?thesis using s5 n_day_months_inv [OF _ yl(2) assms(1,2)] by simp
  next
    case False
    then show ?thesis using s5 yl(2) assms(1,2) month_length_ge [of ey4 m] by (auto simp: valid_date_def)
  qed
  have y: "y + (ey5 - ey0) = ey5 + 400 * (y sdiv 400)" "y = ey0 + 400 * (y sdiv 400)"
    using sdiv_mult_smod_eq [of y 400] by (simp_all add: ey0_def)
  show "valid_date (f_y f) (f_m f) (f_d f)"
    using o5 by (simp add: f y(1) valid_date_def month_length_400)
  have "ordinal y m (d + cd) = ordinal ey0 m (d + cd) + 146097 * (y sdiv 400)"
    using ordinal_400 [of ey0 "y sdiv 400"] y(2) by simp
  then show "ordinal (f_y f) (f_m f) (f_d f) = ordinal y m (d + cd)"
    using o4 o5 by (simp add: f y(1) ordinal_400)
  show "f_hh f = hh" "f_mm f = mm" "f_ss f = ss" by (simp_all add: f)
qed

subsection \<open>Months, hours, minutes and seconds out of range\<close>

text \<open>
  The meaning of fields that are out of range: months carry into years, and every other
  field counts from the first of that month.
\<close>

definition month_ordinal :: "int \<Rightarrow> int \<Rightarrow> int \<Rightarrow> int" where
  "month_ordinal y m d = ordinal (y + (m - 1) div 12) ((m - 1) mod 12 + 1) d"

definition raw_seconds :: "int \<Rightarrow> int \<Rightarrow> int \<Rightarrow> int \<Rightarrow> int \<Rightarrow> int \<Rightarrow> int" where
  "raw_seconds y m d hh mm ss = ((month_ordinal y m d * 24 + hh) * 60 + mm) * 60 + ss"

lemma ordinal_add: "ordinal y m (d + c) = ordinal y m d + c"
  by (simp add: ordinal_def)

lemma month_ordinal_add: "month_ordinal y m (d + c) = month_ordinal y m d + c"
  by (simp add: month_ordinal_def ordinal_add)

lemma month_ordinal_in_range: "1 \<le> m \<Longrightarrow> m \<le> 12 \<Longrightarrow> month_ordinal y m d = ordinal y m d"
  by (simp add: month_ordinal_def)

lemma valid_fields_seconds_of:
  "valid_fields f \<Longrightarrow> seconds_of f = raw_seconds (f_y f) (f_m f) (f_d f) (f_hh f) (f_mm f) (f_ss f)"
  by (simp add: seconds_of_def raw_seconds_def valid_fields_def valid_date_def month_ordinal_in_range)

lemma month_carry:
  fixes m :: int
  shows "m smod 12 \<le> 0 \<Longrightarrow> m sdiv 12 - 1 = (m - 1) div 12 \<and> m smod 12 + 12 = (m - 1) mod 12 + 1"
    and "\<not> m smod 12 \<le> 0 \<Longrightarrow> m sdiv 12 = (m - 1) div 12 \<and> m smod 12 = (m - 1) mod 12 + 1"
proof -
  define q r where "q = (m - 1) div 12" and "r = (m - 1) mod 12"
  have div: "m div 12 = q + of_bool (m smod 12 = 0)"
    using div_step [of 12 m] by (simp add: q_def)
  have mod: "m mod 12 = r + 1 - 12 * of_bool (m smod 12 = 0)"
    unfolding r_def minus_mult_div_eq_mod [symmetric] div q_def by (simp only: algebra_simps)
  consider "m smod 12 < 0" | "m smod 12 = 0" | "m smod 12 > 0" by linarith
  then have "(m smod 12 \<le> 0 \<longrightarrow> m sdiv 12 - 1 = q \<and> m smod 12 + 12 = r + 1) \<and>
    (\<not> m smod 12 \<le> 0 \<longrightarrow> m sdiv 12 = q \<and> m smod 12 = r + 1)"
    using div mod trunc_to_floor [of 12 m] by cases (simp_all del: smod_eq_0_iff)
  then show "m smod 12 \<le> 0 \<Longrightarrow> m sdiv 12 - 1 = (m - 1) div 12 \<and> m smod 12 + 12 = (m - 1) mod 12 + 1"
    and "\<not> m smod 12 \<le> 0 \<Longrightarrow> m sdiv 12 = (m - 1) div 12 \<and> m smod 12 = (m - 1) mod 12 + 1"
    unfolding q_def r_def by blast+
qed

lemma n_mon_eq: "n_mon_exact y m d cd hh mm ss = n_day_exact (y + (m - 1) div 12) ((m - 1) mod 12 + 1) d cd hh mm ss"
proof (cases "m = 12")
  case False
  then show ?thesis
    using month_carry [of m]
    by (cases "m smod 12 \<le> 0") (simp_all only: n_mon_exact_def Let_def prod.case if_True if_False simp_thms add_diff_eq [symmetric])
qed (simp add: n_mon_exact_def)

lemma n_mon_correct:
  assumes "n_mon_exact y m d cd hh mm ss = f"
  shows "valid_date (f_y f) (f_m f) (f_d f)" and "ordinal (f_y f) (f_m f) (f_d f) = month_ordinal y m d + cd"
    and "f_hh f = hh" and "f_mm f = mm" and "f_ss f = ss"
proof -
  have m: "1 \<le> (m - 1) mod 12 + 1" "(m - 1) mod 12 + 1 \<le> 12"
    using pos_mod_bound [of 12 "m - 1"] by simp_all
  note c = n_day_correct [OF m assms [unfolded n_mon_eq]]
  show "valid_date (f_y f) (f_m f) (f_d f)" "f_hh f = hh" "f_mm f = mm" "f_ss f = ss" by (rule c)+
  show "ordinal (f_y f) (f_m f) (f_d f) = month_ordinal y m d + cd"
    using c(2) by (simp add: month_ordinal_def ordinal_add)
qed

text \<open>Each level carries into the next by floor division.\<close>

lemma carry:
  fixes a b :: int
  assumes "0 < b"
  shows "(let q = c + a sdiv b; r = a smod b; (q, r) = (if r < 0 then (q - 1, r + b) else (q, r)) in F q r) =
    F (c + a div b) (a mod b)"
  using trunc_to_floor [OF assms, of a] by (auto simp: Let_def algebra_simps)

lemma n_hour_eq: "n_hour_exact y m d cd hh mm ss = n_mon_exact y m d (cd + hh div 24) (hh mod 24) mm ss"
  unfolding n_hour_exact_def by (subst carry) simp_all

lemma n_min_eq:
  "n_min_exact y m d hh ch mm ss =
     n_hour_exact y m d (hh sdiv 24 + (ch + mm div 60) sdiv 24) (hh smod 24 + (ch + mm div 60) smod 24) (mm mod 60) ss"
  unfolding n_min_exact_def by (subst carry) simp_all

lemma raw_seconds_carry:
  "raw_seconds y m (d + q) r mm ss = raw_seconds y m d (q * 24 + r) mm ss"
  "raw_seconds y m d (hh + q) r ss = raw_seconds y m d hh (q * 60 + r) ss"
  "raw_seconds y m d hh (mm + q) r = raw_seconds y m d hh mm (q * 60 + r)"
  by (simp_all add: raw_seconds_def month_ordinal_add)

lemma n_hour_correct:
  assumes "n_hour_exact y m d cd hh mm ss = f" and "0 \<le> mm" "mm < 60" "0 \<le> ss" "ss < 60"
  shows "valid_fields f \<and> seconds_of f = raw_seconds y m (d + cd) hh mm ss"
proof -
  note c = n_mon_correct [OF assms(1) [unfolded n_hour_eq]]
  have "valid_fields f" using c assms(2-) by (simp add: valid_fields_def)
  moreover have "seconds_of f = raw_seconds y m (d + cd + hh div 24) (hh mod 24) mm ss"
    using c by (simp add: seconds_of_def raw_seconds_def month_ordinal_add)
  ultimately show ?thesis by (simp add: raw_seconds_carry(1) [of _ _ "d + cd"])
qed

lemma n_min_correct:
  assumes "n_min_exact y m d hh ch mm ss = f" and "0 \<le> ss" "ss < 60"
  shows "valid_fields f \<and> seconds_of f = raw_seconds y m d (hh + ch) mm ss"
proof -
  define c where "c = ch + mm div 60"
  have "valid_fields f \<and> seconds_of f =
      raw_seconds y m (d + (hh sdiv 24 + c sdiv 24)) (hh smod 24 + c smod 24) (mm mod 60) ss"
    by (rule n_hour_correct [OF assms(1) [unfolded n_min_eq, folded c_def]]) (use assms in simp_all)
  moreover have "(hh sdiv 24 + c sdiv 24) * 24 + (hh smod 24 + c smod 24) = hh + ch + mm div 60"
    using trunc_sum [of hh 24 c] by (simp only: c_def add.assoc)
  ultimately show ?thesis
    by (simp only: raw_seconds_carry(1) raw_seconds_carry(2) [of _ _ _ "hh + ch"] div_mult_mod_eq)
qed

lemma n_sec_correct_lemma:
  assumes "n_sec_exact y m d hh mm ss = f"
  shows "valid_fields f \<and> seconds_of f = raw_seconds y m d hh mm ss"
proof (cases "0 \<le> ss \<and> ss < 60")
  case ss: True
  consider (in_range) "0 \<le> mm \<and> mm < 60" "0 \<le> hh \<and> hh < 24" "1 \<le> d \<and> d \<le> 28 \<and> 1 \<le> m \<and> m \<le> 12"
    | (day) "0 \<le> mm \<and> mm < 60" "0 \<le> hh \<and> hh < 24" "\<not> (1 \<le> d \<and> d \<le> 28 \<and> 1 \<le> m \<and> m \<le> 12)"
    | (hour) "0 \<le> mm \<and> mm < 60" "\<not> (0 \<le> hh \<and> hh < 24)" | (min) "\<not> (0 \<le> mm \<and> mm < 60)" by blast
  then show ?thesis
  proof cases
    case in_range
    have f: "f = \<lparr>f_y = y, f_m = m, f_d = d, f_hh = hh, f_mm = mm, f_ss = ss\<rparr>"
      using assms by (simp only: n_sec_exact_def ss in_range if_True simp_thms)
    with in_range ss month_length_ge [of y m] have "valid_fields f"
      by (simp add: valid_fields_def valid_date_def)
    then show ?thesis using valid_fields_seconds_of [of f] f by simp
  next
    case day
    have "n_mon_exact y m d 0 hh mm ss = f" using assms by (simp only: n_sec_exact_def ss day if_True if_False simp_thms)
    from n_mon_correct [OF this] day ss show ?thesis
      by (simp add: valid_fields_def seconds_of_def raw_seconds_def)
  next
    case hour
    have "n_hour_exact y m d (hh sdiv 24) (hh smod 24) mm ss = f"
      using assms by (simp only: n_sec_exact_def ss hour if_True if_False simp_thms)
    from n_hour_correct [OF this] hour ss show ?thesis
      by (simp only: raw_seconds_carry(1) sdiv_mult_smod_eq)
  next
    case min
    have "n_min_exact y m d hh (mm sdiv 60) (mm smod 60) ss = f"
      using assms by (simp only: n_sec_exact_def ss min if_True if_False simp_thms)
    from n_min_correct [OF this] ss show ?thesis
      by (simp only: raw_seconds_carry(2) sdiv_mult_smod_eq)
  qed
next
  case False
  define c where "c = ss div 60"
  have "n_min_exact y m d hh (mm sdiv 60 + c sdiv 60) (mm smod 60 + c smod 60) (ss mod 60) = f"
    using assms carry [of 60 0 ss "\<lambda>cm ss. n_min_exact y m d hh (mm sdiv 60 + cm sdiv 60) (mm smod 60 + cm smod 60) ss"]
    by (simp only: n_sec_exact_def False if_False c_def add_0)
  from n_min_correct [OF this]
  have "valid_fields f \<and> seconds_of f =
     raw_seconds y m d (hh + (mm sdiv 60 + c sdiv 60)) (mm smod 60 + c smod 60) (ss mod 60)" by simp
  moreover have "(mm sdiv 60 + c sdiv 60) * 60 + (mm smod 60 + c smod 60) = mm + c"
    by (rule trunc_sum)
  ultimately show ?thesis
    by (simp only: raw_seconds_carry(2) raw_seconds_carry(3) [of _ _ _ _ mm] c_def div_mult_mod_eq)
qed

subsection \<open>Order\<close>

lemma days_before_year_mono: "y < y' \<Longrightarrow> days_before_year (y + 1) \<le> days_before_year y'"
proof (induction y' rule: int_gr_induct)
  case (step i)
  have "days_before_year i \<le> days_before_year (i + 1)" by (simp add: days_before_year_Suc)
  with step show ?case by linarith
qed simp

lemma days_before_month_mono:
  assumes "1 \<le> m" and "m < m'"
  shows "days_before_month y (m + 1) \<le> days_before_month y m'"
  unfolding days_before_month_def
  by (rule sum_mono2) (use assms in \<open>auto simp: month_length_def\<close>)

lemma ordinal_year_bounds:
  assumes "valid_date y m d"
  shows "days_before_year y < ordinal y m d" and "ordinal y m d \<le> days_before_year (y + 1)"
proof -
  have "0 \<le> days_before_month y m"
    unfolding days_before_month_def by (rule sum_nonneg) (simp add: month_length_def)
  then show "days_before_year y < ordinal y m d"
    using assms by (simp add: ordinal_def valid_date_def)
  have "days_before_month y (m + 1) \<le> days_before_month y 13"
  proof (cases "m = 12")
    case False
    then show ?thesis
      using days_before_month_mono [of m 13 y] assms by (simp add: valid_date_def)
  qed simp
  then show "ordinal y m d \<le> days_before_year (y + 1)"
    using assms
    by (simp add: ordinal_def valid_date_def days_before_month_Suc days_before_month_numerals days_before_year_Suc)
qed

lemma ordinal_less:
  assumes "valid_date y m d" and "valid_date y' m' d'"
    and "y < y' \<or> y = y' \<and> (m < m' \<or> m = m' \<and> d < d')"
  shows "ordinal y m d < ordinal y' m' d'"
  using assms(3)
proof (elim disjE conjE)
  assume "y < y'"
  then show ?thesis
    using ordinal_year_bounds(2) [OF assms(1)] ordinal_year_bounds(1) [OF assms(2)]
      days_before_year_mono [of y y'] by linarith
next
  assume "y = y'" "m < m'"
  then show ?thesis
    using days_before_month_mono [of m m' y] assms(1,2)
    by (simp add: ordinal_def valid_date_def days_before_month_Suc)
qed (simp add: ordinal_def)

lemma civil_less_seconds:
  assumes "valid_fields f" and "valid_fields g" and "civil_less f g"
  shows "seconds_of f < seconds_of g"
proof (cases "f_y f = f_y g \<and> f_m f = f_m g \<and> f_d f = f_d g")
  case True
  with assms show ?thesis
    by (auto simp: civil_less_def seconds_of_def valid_fields_def)
next
  case False
  have vd: "valid_date (f_y f) (f_m f) (f_d f)" "valid_date (f_y g) (f_m g) (f_d g)"
    using assms by (simp_all add: valid_fields_def)
  have "ordinal (f_y f) (f_m f) (f_d f) < ordinal (f_y g) (f_m g) (f_d g)"
    by (rule ordinal_less [OF vd]) (use False assms(3) in \<open>auto simp: civil_less_def\<close>)
  with assms(1,2) show ?thesis by (simp add: seconds_of_def valid_fields_def)
qed

lemma civil_trichotomy: "civil_less f g \<or> f = g \<or> civil_less g f"
  unfolding civil_less_def fields.equality by (cases f; cases g; simp) linarith

lemma civil_less_iff:
  assumes "valid_fields f" and "valid_fields g"
  shows "civil_less f g \<longleftrightarrow> seconds_of f < seconds_of g"
  using civil_less_seconds [OF assms] civil_less_seconds [OF assms(2,1)] civil_trichotomy [of f g]
  by auto

lemma seconds_of_inject:
  assumes "valid_fields f" and "valid_fields g" and "seconds_of f = seconds_of g"
  shows "f = g"
  using civil_less_seconds [OF assms(1,2)] civil_less_seconds [OF assms(2,1)] civil_trichotomy [of f g] assms(3)
  by auto

lemma ordinal_inject:
  assumes "valid_date y m d" and "valid_date y' m' d'" and "ordinal y m d = ordinal y' m' d'"
  shows "y = y' \<and> m = m' \<and> d = d'"
  using ordinal_less [OF assms(1,2)] ordinal_less [OF assms(2,1)] assms(3) by (smt (verit))

subsection \<open>Day numbers and differences\<close>

lemma doy_table:
  assumes "1 \<le> m" and "m \<le> 12"
  shows "(153 * (m + (if m > 2 then -3 else 9)) + 2) sdiv 5 = month_base m + 306"
  using assms
  by (cases m rule: month_cases) (simp_all add: trunc_simps month_base_def k_month_offsets_def)

lemma era_floor: "(if e \<ge> 0 then e else e - 399) sdiv 400 = (e::int) div 400"
proof (cases "e \<ge> 0")
  case False
  have "- ((399 - e) div 400) = e div 400"
    using False by linarith
  with False show ?thesis by (simp add: sdiv_pos)
qed (simp add: sdiv_pos)

lemma ymd_ord_correct:
  assumes "1 \<le> m" and "m \<le> 12"
  shows "ymd_ord_exact y m d = ordinal y m d - ordinal 1970 1 1"
proof -
  define e where "e = (if m \<le> 2 then y - 1 else y)"
  define era yoe where "era = e div 400" and "yoe = e mod 400"
  have e: "e = yoe + 400 * era" by (simp add: era_def yoe_def)
  have "y + of_bool (m > 2) = (yoe + 1) + 400 * era"
    using e by (simp add: e_def split: if_splits)
  then have "days_before_year (y + of_bool (m > 2)) = days_before_year (yoe + 1) + 146097 * era"
    by (simp only: days_before_year_400)
  also have "days_before_year (yoe + 1) = yoe * 365 + yoe sdiv 4 - yoe sdiv 100"
    by (simp add: days_before_year_def sdiv_pos yoe_def)
  finally have 1: "ordinal y m d = yoe * 365 + yoe sdiv 4 - yoe sdiv 100 + 146097 * era + month_base m + d"
    by (simp add: ordinal_month_base [OF assms])
  have "ymd_ord_exact y m d = era * 146097 + (yoe * 365 + yoe sdiv 4 - yoe sdiv 100 +
      (month_base m + 306 + d - 1)) - 719468"
    unfolding ymd_ord_exact_def e_def [symmetric] era_floor doy_table [OF assms] era_def yoe_def Let_def
    by (simp add: minus_div_mult_eq_mod)
  moreover have "ordinal 1970 1 1 = 719163" by (simp add: ordinal_def days_before_year_def)
  ultimately show ?thesis using 1 by simp
qed

lemma sdiv_exact: "0 < b \<Longrightarrow> (b * q) sdiv b = (q::int)"
  by (cases "q = 0") (auto simp: signed_divide_int_def sgn_mult abs_mult mult.commute abs_mult_sgn)

lemma day_difference_correct:
  assumes "1 \<le> m1" "m1 \<le> 12" and "1 \<le> m2" "m2 \<le> 12"
  shows "day_difference_exact y1 m1 d1 y2 m2 d2 = ordinal y1 m1 d1 - ordinal y2 m2 d2"
proof -
  define q1 q2 where "q1 = y1 sdiv 400" and "q2 = y2 sdiv 400"
  define a b where "a = y1 smod 400" and "b = y2 smod 400"
  have y: "y1 = a + 400 * q1" "y2 = b + 400 * q2"
    using sdiv_mult_smod_eq [of y1 400] sdiv_mult_smod_eq [of y2 400]
    by (simp_all add: q1_def q2_def a_def b_def)
  have c4: "y1 - a - (y2 - b) = 400 * (q1 - q2)" using y by simp
  have ord: "ordinal y1 m1 d1 - ordinal y2 m2 d2 = (q1 - q2) * 146097 + (ymd_ord_exact a m1 d1 - ymd_ord_exact b m2 d2)"
    using assms by (simp add: y ordinal_400 ymd_ord_correct)
  have e: "400 * (q1 - q2) - 2 * 400 = 400 * (q1 - q2 - 2)" "400 * (q1 - q2) + 2 * 400 = 400 * (q1 - q2 + 2)"
    by simp_all
  show ?thesis
    unfolding day_difference_exact_def Let_def a_def [symmetric] b_def [symmetric] c4 ord e
    by (simp only: sdiv_exact zero_less_numeral prod.case split: if_split) (simp add: algebra_simps)
qed

subsection \<open>Unit arithmetic\<close>

text \<open>The number of whole units of a tag that a civil time stands for.\<close>

fun unit_count :: "tag \<Rightarrow> fields \<Rightarrow> int" where
  "unit_count year_tag f = f_y f"
| "unit_count month_tag f = f_y f * 12 + f_m f"
| "unit_count day_tag f = ordinal (f_y f) (f_m f) (f_d f)"
| "unit_count hour_tag f = ordinal (f_y f) (f_m f) (f_d f) * 24 + f_hh f"
| "unit_count minute_tag f = (ordinal (f_y f) (f_m f) (f_d f) * 24 + f_hh f) * 60 + f_mm f"
| "unit_count second_tag f = seconds_of f"

definition civil_ok :: "tag \<Rightarrow> fields \<Rightarrow> bool" where
  "civil_ok T f \<longleftrightarrow> valid_fields f \<and> align T f = f"

lemma scale_add_eq: "scale_add_exact v f a = v * f + a"
  by (simp add: scale_add_exact_def algebra_simps)

lemma difference_count:
  assumes "valid_fields f1" and "valid_fields f2"
  shows "difference_exact T f1 f2 = unit_count T f1 - unit_count T f2"
proof -
  have "difference_exact day_tag f1 f2 = unit_count day_tag f1 - unit_count day_tag f2"
    using assms by (simp add: day_difference_correct valid_fields_def valid_date_def)
  then show ?thesis by (cases T) (simp_all add: scale_add_eq seconds_of_def)
qed

lemma align_eq_iff:
  "align second_tag f = f \<longleftrightarrow> True"
  "align minute_tag f = f \<longleftrightarrow> f_ss f = 0"
  "align hour_tag f = f \<longleftrightarrow> f_mm f = 0 \<and> f_ss f = 0"
  "align day_tag f = f \<longleftrightarrow> f_hh f = 0 \<and> f_mm f = 0 \<and> f_ss f = 0"
  "align month_tag f = f \<longleftrightarrow> f_d f = 1 \<and> f_hh f = 0 \<and> f_mm f = 0 \<and> f_ss f = 0"
  "align year_tag f = f \<longleftrightarrow> f_m f = 1 \<and> f_d f = 1 \<and> f_hh f = 0 \<and> f_mm f = 0 \<and> f_ss f = 0"
  by (cases f; auto)+

lemma align_idem [simp]: "align T (align T f) = align T f"
  by (cases T) simp_all

lemma align_valid: "valid_fields f \<Longrightarrow> valid_fields (align T f)"
  using month_length_ge [of "f_y f" "f_m f"] month_length_ge [of "f_y f" 1]
  by (cases T) (auto simp: valid_fields_def valid_date_def)

declare align.simps [simp del]

lemmas civil_ok_simps = civil_ok_def align_eq_iff

lemma civil_okD:
  assumes "civil_ok T f"
  shows "valid_fields f" and "valid_date (f_y f) (f_m f) (f_d f)" and "1 \<le> f_m f" and "f_m f \<le> 12"
  using assms by (simp_all add: civil_ok_def valid_fields_def valid_date_def)

lemma n_min_seconds: "n_min_exact y m d hh ch mm ss = f \<Longrightarrow> f_ss f = ss"
  unfolding n_min_eq n_hour_eq by (drule n_mon_correct(5)) simp

lemma step_second:
  assumes "civil_ok second_tag f"
  shows "civil_ok second_tag (step_exact second_tag f n) \<and> unit_count second_tag (step_exact second_tag f n) = unit_count second_tag f + n"
proof -
  note v = civil_okD [OF assms]
  have "valid_fields (step_exact second_tag f n) \<and> seconds_of (step_exact second_tag f n) =
      raw_seconds (f_y f) (f_m f) (f_d f) (f_hh f) (f_mm f + n sdiv 60) (f_ss f + n smod 60)"
    unfolding step_exact.simps by (rule n_sec_correct_lemma [OF refl])
  moreover have "n sdiv 60 * 60 + (f_ss f + n smod 60) = f_ss f + n"
    using sdiv_mult_smod_eq [of n 60] by (simp add: algebra_simps)
  moreover have "raw_seconds (f_y f) (f_m f) (f_d f) (f_hh f) (f_mm f) (f_ss f + n) = seconds_of f + n"
    using v by (simp add: raw_seconds_def seconds_of_def month_ordinal_in_range)
  ultimately show ?thesis
    by (simp add: civil_ok_simps raw_seconds_carry(3) del: step_exact.simps)
qed

lemma step_minute:
  assumes "civil_ok minute_tag f"
  shows "civil_ok minute_tag (step_exact minute_tag f n) \<and> unit_count minute_tag (step_exact minute_tag f n) = unit_count minute_tag f + n"
proof -
  note v = civil_okD [OF assms]
  have ss: "f_ss f = 0" using assms by (simp add: civil_ok_simps)
  have c: "valid_fields (step_exact minute_tag f n) \<and> seconds_of (step_exact minute_tag f n) =
      raw_seconds (f_y f) (f_m f) (f_d f) (f_hh f + n sdiv 60 + 0) (f_mm f + n smod 60) (f_ss f)"
    unfolding step_exact.simps
    by (rule n_min_correct [OF refl]) (use v in \<open>simp_all add: valid_fields_def\<close>)
  moreover have "f_ss (step_exact minute_tag f n) = 0"
    unfolding step_exact.simps using n_min_seconds [OF refl] ss by simp
  moreover have "n sdiv 60 * 60 + (f_mm f + n smod 60) = f_mm f + n"
    using sdiv_mult_smod_eq [of n 60] by (simp add: algebra_simps)
  ultimately show ?thesis
    using ss seconds_of_def [of "step_exact minute_tag f n"]
    by (simp add: civil_ok_simps raw_seconds_carry(2) del: step_exact.simps)
      (simp add: raw_seconds_def month_ordinal_in_range v)
qed

lemma step_hour:
  assumes "civil_ok hour_tag f"
  shows "civil_ok hour_tag (step_exact hour_tag f n) \<and> unit_count hour_tag (step_exact hour_tag f n) = unit_count hour_tag f + n"
proof -
  note v = civil_okD [OF assms]
  have z: "f_mm f = 0" "f_ss f = 0" using assms by (simp_all add: civil_ok_simps)
  have c: "valid_fields (step_exact hour_tag f n) \<and> seconds_of (step_exact hour_tag f n) =
      raw_seconds (f_y f) (f_m f) (f_d f + n sdiv 24 + 0) (f_hh f + n smod 24) (f_mm f) (f_ss f)"
    unfolding step_exact.simps by (rule n_hour_correct [OF refl]) (use z in simp_all)
  moreover have "f_mm (step_exact hour_tag f n) = 0" "f_ss (step_exact hour_tag f n) = 0"
    unfolding step_exact.simps n_hour_eq using n_mon_correct(4,5) [OF refl] z by simp_all
  moreover have "n sdiv 24 * 24 + (f_hh f + n smod 24) = f_hh f + n"
    using sdiv_mult_smod_eq [of n 24] by (simp add: algebra_simps)
  ultimately show ?thesis
    using z seconds_of_def [of "step_exact hour_tag f n"]
    by (simp add: civil_ok_simps raw_seconds_carry(1) del: step_exact.simps)
      (simp add: raw_seconds_def month_ordinal_in_range v)
qed

lemma step_day:
  assumes "civil_ok day_tag f"
  shows "civil_ok day_tag (step_exact day_tag f n) \<and> unit_count day_tag (step_exact day_tag f n) = unit_count day_tag f + n"
proof -
  note v = civil_okD [OF assms]
  have z: "f_hh f = 0" "f_mm f = 0" "f_ss f = 0"
    using assms by (simp_all add: civil_ok_simps)
  note c = n_day_correct [OF v(3,4), OF refl, of "f_y f" "f_d f" n "f_hh f" "f_mm f" "f_ss f"]
  show ?thesis
    using c z by (simp add: civil_ok_simps valid_fields_def ordinal_add)
qed

lemma step_month:
  assumes "civil_ok month_tag f"
  shows "civil_ok month_tag (step_exact month_tag f n) \<and> unit_count month_tag (step_exact month_tag f n) = unit_count month_tag f + n"
proof -
  note v = civil_okD [OF assms]
  have z: "f_d f = 1" "f_hh f = 0" "f_mm f = 0" "f_ss f = 0"
    using assms by (simp_all add: civil_ok_simps)
  let ?y = "f_y f + n sdiv 12" and ?m = "f_m f + n smod 12"
  let ?g = "n_mon_exact ?y ?m (f_d f) 0 (f_hh f) (f_mm f) (f_ss f)"
  note c = n_mon_correct [OF refl, of ?y ?m "f_d f" 0 "f_hh f" "f_mm f" "f_ss f"]
  have m: "1 \<le> (?m - 1) mod 12 + 1" "(?m - 1) mod 12 + 1 \<le> 12"
    using pos_mod_bound [of 12 "?m - 1"] by simp_all
  have "valid_date (?y + (?m - 1) div 12) ((?m - 1) mod 12 + 1) 1"
    using m month_length_ge [of "?y + (?m - 1) div 12" "(?m - 1) mod 12 + 1"] by (simp add: valid_date_def)
  from ordinal_inject [OF c(1) this] c(2) z
  have d: "f_y ?g = ?y + (?m - 1) div 12" "f_m ?g = (?m - 1) mod 12 + 1" "f_d ?g = 1"
    by (simp_all add: month_ordinal_def)
  have "f_y ?g * 12 + f_m ?g = ?y * 12 + ?m"
    unfolding d using div_mult_mod_eq [of "?m - 1" 12] by (simp add: algebra_simps)
  moreover have "n sdiv 12 * 12 + n smod 12 = n" by (rule sdiv_mult_smod_eq)
  ultimately show ?thesis
    using c d z by (simp add: civil_ok_simps valid_fields_def algebra_simps)
qed

lemma step_year:
  assumes "civil_ok year_tag f"
  shows "civil_ok year_tag (step_exact year_tag f n) \<and> unit_count year_tag (step_exact year_tag f n) = unit_count year_tag f + n"
proof -
  note v = civil_okD [OF assms]
  have z: "f_m f = 1" "f_d f = 1" "f_hh f = 0" "f_mm f = 0" "f_ss f = 0"
    using assms by (simp_all add: civil_ok_simps)
  then show ?thesis by (simp add: civil_ok_simps valid_fields_def valid_date_def month_length_def)
qed

lemma step_ok:
  assumes "civil_ok T f"
  shows "civil_ok T (step_exact T f n) \<and> unit_count T (step_exact T f n) = unit_count T f + n"
  using assms step_second step_minute step_hour step_day step_month step_year by (cases T) blast+

lemma unit_count_seconds:
  assumes "civil_ok T f" and "T \<noteq> month_tag" and "T \<noteq> year_tag"
  shows "seconds_of f = (case T of day_tag \<Rightarrow> 86400 | hour_tag \<Rightarrow> 3600 | minute_tag \<Rightarrow> 60 | _ \<Rightarrow> 1) * unit_count T f"
  using assms by (cases T) (simp_all add: civil_ok_simps seconds_of_def)

lemma unit_count_inject:
  assumes "civil_ok T a" and "civil_ok T b" and "unit_count T a = unit_count T b"
  shows "a = b"
proof -
  consider "T = month_tag" | "T = year_tag" | "T \<noteq> month_tag" "T \<noteq> year_tag" by blast
  then show ?thesis
  proof cases
    case 1
    with assms(3) civil_okD(3,4) [OF assms(1)] civil_okD(3,4) [OF assms(2)] have "f_y a = f_y b"
      by simp
    with 1 assms show ?thesis by (simp add: civil_ok_simps)
  next
    case 2
    with assms show ?thesis by (simp add: civil_ok_simps)
  next
    case 3
    then have "seconds_of a = seconds_of b"
      using assms unit_count_seconds [of T a] unit_count_seconds [of T b] by simp
    then show ?thesis using civil_okD(1) [OF assms(1)] civil_okD(1) [OF assms(2)] by (rule seconds_of_inject [rotated -1])
  qed
qed

subsection \<open>Weekdays and year days\<close>

fun weekday_number :: "weekday \<Rightarrow> int" where
  "weekday_number monday = 0"
| "weekday_number tuesday = 1"
| "weekday_number wednesday = 2"
| "weekday_number thursday = 3"
| "weekday_number friday = 4"
| "weekday_number saturday = 5"
| "weekday_number sunday = 6"

lemma weekday_table:
  assumes "0 \<le> r" and "r < 7"
  shows "weekday_number (k_weekday_by_mon_off ! nat (r + 6)) = (r - 1) mod 7"
proof -
  have "r = 0 \<or> r = 1 \<or> r = 2 \<or> r = 3 \<or> r = 4 \<or> r = 5 \<or> r = 6" using assms by arith
  then show ?thesis by (elim disjE) (simp_all add: k_weekday_by_mon_off_def)
qed

lemma weekday_offset_table:
  assumes "1 \<le> m" and "m \<le> 12"
  shows "k_weekday_offsets ! nat m mod 7 = month_base m mod 7"
  using assms
  by (cases m rule: month_cases) (simp_all add: k_weekday_offsets_def month_base_def k_month_offsets_def)

lemma get_weekday_lemma:
  assumes "valid_fields f"
  shows "weekday_number (get_weekday f) = (ordinal (f_y f) (f_m f) (f_d f) - 1) mod 7"
proof -
  have m: "1 \<le> f_m f" "f_m f \<le> 12" using assms by (simp_all add: valid_fields_def valid_date_def)
  define w where "w = 2400 + f_y f smod 400 - of_bool (f_m f < 3)"
  define o' where "o' = k_weekday_offsets ! nat (f_m f) + f_d f"
  define s where "s = w + (w sdiv 4 - w sdiv 100 + w sdiv 400) + o'"
  have w: "2000 \<le> w" using smod_pos_bounds(1) [of 400 "f_y f"] by (simp add: w_def)
  have off: "- 7 \<le> o'"
    using m assms by (cases "f_m f" rule: month_cases)
      (simp_all add: o'_def k_weekday_offsets_def valid_fields_def valid_date_def)
  have "w + 1 = f_y f + of_bool (f_m f > 2) + 400 * (6 - f_y f sdiv 400)"
    using sdiv_mult_smod_eq [of "f_y f" 400] m by (simp add: w_def algebra_simps of_bool_def)
  then have dby: "days_before_year (w + 1) = days_before_year (f_y f + of_bool (f_m f > 2)) + 146097 * (6 - f_y f sdiv 400)"
    by (simp only: days_before_year_400)
  have sw: "s = days_before_year (w + 1) - 7 * (52 * w) + o'"
    using w by (simp add: s_def days_before_year_def sdiv_pos)
  have "s = days_before_year (f_y f + of_bool (f_m f > 2)) + o' + 7 * (20871 * (6 - f_y f sdiv 400) - 52 * w)"
    unfolding sw dby by simp
  then have "s mod 7 = (days_before_year (f_y f + of_bool (f_m f > 2)) + o') mod 7"
    by (simp only: mod_mult_self2)
  also have "\<dots> = ordinal (f_y f) (f_m f) (f_d f) mod 7"
    unfolding ordinal_month_base [OF m] o'_def
    using weekday_offset_table [OF m] by (metis mod_add_cong add.assoc)
  finally have s7: "s mod 7 = ordinal (f_y f) (f_m f) (f_d f) mod 7" .
  have "w div 100 \<le> w div 4" "0 \<le> w div 400" using w by (simp_all add: zdiv_mono2 pos_imp_zdiv_nonneg_iff)
  then have s0: "0 \<le> s" using w off by (simp add: s_def sdiv_pos)
  have "get_weekday f = k_weekday_by_mon_off ! nat (s mod 7 + 6)"
    unfolding get_weekday_def Let_def w_def [symmetric] o'_def [symmetric] s_def [symmetric]
    using s0 by (simp add: smod_pos)
  then show ?thesis
    using weekday_table [of "s mod 7"] s7 by (simp add: mod_simps)
qed

lemma weekday_gap_forw:
  obtains k where "weekday_gap k_weekdays_forw b w = Some k" and "1 \<le> k" and "k \<le> 7"
    and "(weekday_number b + k) mod 7 = weekday_number w"
  by (cases b; cases w) (simp_all add: weekday_gap_def k_weekdays_forw_def)

lemma weekday_gap_back:
  obtains k where "weekday_gap k_weekdays_back b w = Some k" and "1 \<le> k" and "k \<le> 7"
    and "(weekday_number b - k) mod 7 = weekday_number w"
  by (cases b; cases w) (simp_all add: weekday_gap_def k_weekdays_back_def)

lemma weekday_number_inject: "weekday_number a = weekday_number b \<longleftrightarrow> a = b"
  by (cases a; cases b) simp_all

lemma civil_eq_iff: "civil_eq f g \<longleftrightarrow> f = g"
  by (cases f; cases g) (auto simp: civil_eq_def)

end
