(* ===== verification/Civil_Time.thy ===== *)
theory Civil_Time
  imports Civil_Exact "HOL-Library.Monad_Syntax"
begin

text \<open>
  The civil-time engine of cctz, \<^verbatim>\<open>time/internal/cctz/include/cctz/civil_time_detail.h\<close>:
  normalisation of year/month/day/hour/minute/second fields, stepping, differences,
  alignment, weekdays.

  \<^verbatim>\<open>year_t\<close> and \<^verbatim>\<open>diff_t\<close> are signed 64-bit integers. Every operation on them goes through
  \<^const>\<open>chk64\<close>: \<^const>\<open>None\<close> is the undefined behaviour of an overflow, or a read outside a
  table. The results are exact: each function returns precisely when the true result fits, with the one
  exception of \<^verbatim>\<open>n_mon\<close>, which \<^verbatim>\<open>month_carry_overflow\<close> shows. \<^verbatim>\<open>month_t\<close>, \<^verbatim>\<open>day_t\<close> and the other
  small types have eight bits; the \<^verbatim>\<open>int\<close> variables, a position below 400 in the 400-year cycle and a
  number of days up to 36525, are not checked.
\<close>

section \<open>Field normalisation\<close>

definition cast8 :: "int \<Rightarrow> int" where
  "cast8 v = signed_take_bit 7 v"

definition year_index :: "int \<Rightarrow> int \<Rightarrow> int option" where
  "year_index y m =
     do {
       s \<leftarrow> chk64 (y + of_bool (m > 2));
       let yi = s smod 400;
       Some (if yi < 0 then yi + 400 else yi)
     }"

definition days_per_year :: "int \<Rightarrow> int \<Rightarrow> int option" where
  "days_per_year y m = do { s \<leftarrow> chk64 (y + of_bool (m > 2)); Some (if is_leap_year s then 366 else 365) }"

definition days_per_month :: "int \<Rightarrow> int \<Rightarrow> int option" where
  "days_per_month y m =
     (if 0 \<le> m \<and> m \<le> 12 then Some (k_days_per_month ! nat m + of_bool (m = 2 \<and> is_leap_year y)) else None)"

text \<open>The four loops of \<^verbatim>\<open>n_day\<close>, each returning the loop variables at its \<^verbatim>\<open>break\<close>.\<close>

partial_function (option) n_day_centuries :: "int \<Rightarrow> int \<Rightarrow> int \<Rightarrow> (int \<times> int \<times> int) option" where
  "n_day_centuries d ey yi =
     (let n = days_per_century yi in
      if d \<le> n then Some (d, ey, yi)
      else do {
        d \<leftarrow> chk64 (d - n);
        ey \<leftarrow> chk64 (ey + 100);
        n_day_centuries d ey (if yi + 100 \<ge> 400 then yi + 100 - 400 else yi + 100)
      })"

partial_function (option) n_day_4years :: "int \<Rightarrow> int \<Rightarrow> int \<Rightarrow> (int \<times> int \<times> int) option" where
  "n_day_4years d ey yi =
     (let n = days_per_4years yi in
      if d \<le> n then Some (d, ey, yi)
      else do {
        d \<leftarrow> chk64 (d - n);
        ey \<leftarrow> chk64 (ey + 4);
        n_day_4years d ey (if yi + 4 \<ge> 400 then yi + 4 - 400 else yi + 4)
      })"

partial_function (option) n_day_years :: "int \<Rightarrow> int \<Rightarrow> int \<Rightarrow> (int \<times> int) option" where
  "n_day_years m d ey =
     do {
       n \<leftarrow> days_per_year ey m;
       if d \<le> n then Some (d, ey)
       else do {
         d \<leftarrow> chk64 (d - n);
         ey \<leftarrow> chk64 (ey + 1);
         n_day_years m d ey
       }
     }"

partial_function (option) n_day_months :: "int \<Rightarrow> int \<Rightarrow> int \<Rightarrow> (int \<times> int \<times> int) option" where
  "n_day_months d ey m =
     do {
       n \<leftarrow> days_per_month ey m;
       if d \<le> n then Some (d, ey, m)
       else do {
         d \<leftarrow> chk64 (d - n);
         if cast8 (m + 1) > 12 then do { ey \<leftarrow> chk64 (ey + 1); n_day_months d ey 1 }
         else n_day_months d ey (cast8 (m + 1))
       }
     }"

definition n_day :: "int \<Rightarrow> int \<Rightarrow> int \<Rightarrow> int \<Rightarrow> int \<Rightarrow> int \<Rightarrow> int \<Rightarrow> fields option" where
  "n_day y m d cd hh mm ss =
     do {
       let ey = y smod 400;
       let oey = ey;
       c \<leftarrow> chk64 ((cd sdiv 146097) * 400);
       ey \<leftarrow> chk64 (ey + c);
       let cd = cd smod 146097;
       (ey, cd) \<leftarrow>
         (if cd < 0 then do { ey \<leftarrow> chk64 (ey - 400); cd \<leftarrow> chk64 (cd + 146097); Some (ey, cd) } else Some (ey, cd));
       c \<leftarrow> chk64 ((d sdiv 146097) * 400);
       ey \<leftarrow> chk64 (ey + c);
       d \<leftarrow> chk64 (d smod 146097 + cd);
       (ey, d) \<leftarrow>
         (if d > 0 then
            if d > 146097 then do { ey \<leftarrow> chk64 (ey + 400); d \<leftarrow> chk64 (d - 146097); Some (ey, d) } else Some (ey, d)
          else if d > -365 then do { ey \<leftarrow> chk64 (ey - 1); n \<leftarrow> days_per_year ey m; d \<leftarrow> chk64 (d + n); Some (ey, d) }
          else do { ey \<leftarrow> chk64 (ey - 400); d \<leftarrow> chk64 (d + 146097); Some (ey, d) });
       (d, ey) \<leftarrow>
         (if d > 365 then do {
            yi \<leftarrow> year_index ey m;
            (d, ey, yi) \<leftarrow> n_day_centuries d ey yi;
            (d, ey, yi) \<leftarrow> n_day_4years d ey yi;
            n_day_years m d ey
          }
          else Some (d, ey));
       (d, ey, m) \<leftarrow> (if d > 28 then n_day_months d ey m else Some (d, ey, m));
       e \<leftarrow> chk64 (ey - oey);
       y \<leftarrow> chk64 (y + e);
       Some \<lparr>f_y = y, f_m = m, f_d = cast8 d, f_hh = hh, f_mm = mm, f_ss = ss\<rparr>
     }"

definition n_mon :: "int \<Rightarrow> int \<Rightarrow> int \<Rightarrow> int \<Rightarrow> int \<Rightarrow> int \<Rightarrow> int \<Rightarrow> fields option" where
  "n_mon y m d cd hh mm ss =
     do {
       (y, m) \<leftarrow>
         (if m \<noteq> 12 then do {
            y \<leftarrow> chk64 (y + m sdiv 12);
            let m = m smod 12;
            if m \<le> 0 then do { y \<leftarrow> chk64 (y - 1); m \<leftarrow> chk64 (m + 12); Some (y, m) } else Some (y, m)
          }
          else Some (y, m));
       n_day y (cast8 m) d cd hh mm ss
     }"

definition n_hour :: "int \<Rightarrow> int \<Rightarrow> int \<Rightarrow> int \<Rightarrow> int \<Rightarrow> int \<Rightarrow> int \<Rightarrow> fields option" where
  "n_hour y m d cd hh mm ss =
     do {
       cd \<leftarrow> chk64 (cd + hh sdiv 24);
       let hh = hh smod 24;
       (cd, hh) \<leftarrow> (if hh < 0 then do { cd \<leftarrow> chk64 (cd - 1); hh \<leftarrow> chk64 (hh + 24); Some (cd, hh) } else Some (cd, hh));
       n_mon y m d cd (cast8 hh) mm ss
     }"

definition n_min :: "int \<Rightarrow> int \<Rightarrow> int \<Rightarrow> int \<Rightarrow> int \<Rightarrow> int \<Rightarrow> int \<Rightarrow> fields option" where
  "n_min y m d hh ch mm ss =
     do {
       ch \<leftarrow> chk64 (ch + mm sdiv 60);
       let mm = mm smod 60;
       (ch, mm) \<leftarrow> (if mm < 0 then do { ch \<leftarrow> chk64 (ch - 1); mm \<leftarrow> chk64 (mm + 60); Some (ch, mm) } else Some (ch, mm));
       cd \<leftarrow> chk64 (hh sdiv 24 + ch sdiv 24);
       h \<leftarrow> chk64 (hh smod 24 + ch smod 24);
       n_hour y m d cd h (cast8 mm) ss
     }"

definition n_sec :: "int \<Rightarrow> int \<Rightarrow> int \<Rightarrow> int \<Rightarrow> int \<Rightarrow> int \<Rightarrow> fields option" where
  "n_sec y m d hh mm ss =
     (if 0 \<le> ss \<and> ss < 60 then
        let nss = cast8 ss in
        if 0 \<le> mm \<and> mm < 60 then
          let nmm = cast8 mm in
          if 0 \<le> hh \<and> hh < 24 then
            let nhh = cast8 hh in
            if 1 \<le> d \<and> d \<le> 28 \<and> 1 \<le> m \<and> m \<le> 12 then
              Some \<lparr>f_y = y, f_m = cast8 m, f_d = cast8 d, f_hh = nhh, f_mm = nmm, f_ss = nss\<rparr>
            else n_mon y m d 0 nhh nmm nss
          else n_hour y m d (hh sdiv 24) (hh smod 24) nmm nss
        else n_min y m d hh (mm sdiv 60) (mm smod 60) nss
      else do {
        let cm = ss sdiv 60;
        let ss = ss smod 60;
        (cm, ss) \<leftarrow> (if ss < 0 then do { cm \<leftarrow> chk64 (cm - 1); ss \<leftarrow> chk64 (ss + 60); Some (cm, ss) } else Some (cm, ss));
        ch \<leftarrow> chk64 (mm sdiv 60 + cm sdiv 60);
        mi \<leftarrow> chk64 (mm smod 60 + cm smod 60);
        n_min y m d hh ch mi (cast8 ss)
      })"

section \<open>Stepping, differences\<close>

fun step :: "tag \<Rightarrow> fields \<Rightarrow> int \<Rightarrow> fields option" where
  "step second_tag f n =
     do {
       mm \<leftarrow> chk64 (f_mm f + n sdiv 60);
       ss \<leftarrow> chk64 (f_ss f + n smod 60);
       n_sec (f_y f) (f_m f) (f_d f) (f_hh f) mm ss
     }"
| "step minute_tag f n =
     do {
       hh \<leftarrow> chk64 (f_hh f + n sdiv 60);
       mm \<leftarrow> chk64 (f_mm f + n smod 60);
       n_min (f_y f) (f_m f) (f_d f) hh 0 mm (f_ss f)
     }"
| "step hour_tag f n =
     do {
       d \<leftarrow> chk64 (f_d f + n sdiv 24);
       hh \<leftarrow> chk64 (f_hh f + n smod 24);
       n_hour (f_y f) (f_m f) d 0 hh (f_mm f) (f_ss f)
     }"
| "step day_tag f n = n_day (f_y f) (f_m f) (f_d f) n (f_hh f) (f_mm f) (f_ss f)"
| "step month_tag f n =
     do {
       y \<leftarrow> chk64 (f_y f + n sdiv 12);
       m \<leftarrow> chk64 (f_m f + n smod 12);
       n_mon y m (f_d f) 0 (f_hh f) (f_mm f) (f_ss f)
     }"
| "step year_tag f n = do { y \<leftarrow> chk64 (f_y f + n); Some (f\<lparr>f_y := y\<rparr>) }"

definition scale_add :: "int \<Rightarrow> int \<Rightarrow> int \<Rightarrow> int option" where
  "scale_add v f a =
     (if v < 0 then do { w \<leftarrow> chk64 (v + 1); p \<leftarrow> chk64 (w * f); q \<leftarrow> chk64 (p + a); chk64 (q - f) }
      else do { w \<leftarrow> chk64 (v - 1); p \<leftarrow> chk64 (w * f); q \<leftarrow> chk64 (p + a); chk64 (q + f) })"

definition ymd_ord :: "int \<Rightarrow> int \<Rightarrow> int \<Rightarrow> int option" where
  "ymd_ord y m d =
     do {
       eyear \<leftarrow> (if m \<le> 2 then chk64 (y - 1) else Some y);
       e \<leftarrow> (if eyear \<ge> 0 then Some eyear else chk64 (eyear - 399));
       let era = e sdiv 400;
       p \<leftarrow> chk64 (era * 400);
       yoe \<leftarrow> chk64 (eyear - p);
       let doy = (153 * (m + (if m > 2 then -3 else 9)) + 2) sdiv 5 + d - 1;
       p \<leftarrow> chk64 (yoe * 365);
       p \<leftarrow> chk64 (p + yoe sdiv 4);
       p \<leftarrow> chk64 (p - yoe sdiv 100);
       doe \<leftarrow> chk64 (p + doy);
       p \<leftarrow> chk64 (era * 146097);
       p \<leftarrow> chk64 (p + doe);
       chk64 (p - 719468)
     }"

definition day_difference :: "int \<Rightarrow> int \<Rightarrow> int \<Rightarrow> int \<Rightarrow> int \<Rightarrow> int \<Rightarrow> int option" where
  "day_difference y1 m1 d1 y2 m2 d2 =
     do {
       let a_c4_off = y1 smod 400;
       let b_c4_off = y2 smod 400;
       a \<leftarrow> chk64 (y1 - a_c4_off);
       b \<leftarrow> chk64 (y2 - b_c4_off);
       c4_diff \<leftarrow> chk64 (a - b);
       o1 \<leftarrow> ymd_ord a_c4_off m1 d1;
       o2 \<leftarrow> ymd_ord b_c4_off m2 d2;
       delta \<leftarrow> chk64 (o1 - o2);
       (delta, c4_diff) \<leftarrow>
         (if c4_diff > 0 \<and> delta < 0 then
            do { delta \<leftarrow> chk64 (delta + 2 * 146097); c4_diff \<leftarrow> chk64 (c4_diff - 2 * 400); Some (delta, c4_diff) }
          else if c4_diff < 0 \<and> delta > 0 then
            do { delta \<leftarrow> chk64 (delta - 2 * 146097); c4_diff \<leftarrow> chk64 (c4_diff + 2 * 400); Some (delta, c4_diff) }
          else Some (delta, c4_diff));
       p \<leftarrow> chk64 (c4_diff sdiv 400 * 146097);
       chk64 (p + delta)
     }"

function difference :: "tag \<Rightarrow> fields \<Rightarrow> fields \<Rightarrow> int option" where
  "difference year_tag f1 f2 = chk64 (f_y f1 - f_y f2)"
| "difference month_tag f1 f2 = do { v \<leftarrow> difference year_tag f1 f2; scale_add v 12 (f_m f1 - f_m f2) }"
| "difference day_tag f1 f2 = day_difference (f_y f1) (f_m f1) (f_d f1) (f_y f2) (f_m f2) (f_d f2)"
| "difference hour_tag f1 f2 = do { v \<leftarrow> difference day_tag f1 f2; scale_add v 24 (f_hh f1 - f_hh f2) }"
| "difference minute_tag f1 f2 = do { v \<leftarrow> difference hour_tag f1 f2; scale_add v 60 (f_mm f1 - f_mm f2) }"
| "difference second_tag f1 f2 = do { v \<leftarrow> difference minute_tag f1 f2; scale_add v 60 (f_ss f1 - f_ss f2) }"
  by pat_completeness auto
termination
  by (relation "measure (\<lambda>(t, _, _). case t of
    year_tag \<Rightarrow> 0 | month_tag \<Rightarrow> 1 | day_tag \<Rightarrow> 0 | hour_tag \<Rightarrow> 1 | minute_tag \<Rightarrow> 2 | second_tag \<Rightarrow> 3)") auto

section \<open>The class template \<open>civil_time<T>\<close>\<close>

text \<open>
  A \<^verbatim>\<open>civil_time<T>\<close> is its \<^verbatim>\<open>fields\<close> member, aligned by the designated constructor; the tag
  is an argument of the operations.
\<close>

definition civil_time :: "tag \<Rightarrow> int \<Rightarrow> int \<Rightarrow> int \<Rightarrow> int \<Rightarrow> int \<Rightarrow> int \<Rightarrow> fields option" where
  "civil_time T y m d hh mm ss = map_option (align T) (n_sec y m d hh mm ss)"

definition civil_convert :: "tag \<Rightarrow> fields \<Rightarrow> fields" where
  "civil_convert T ct = align T ct"

definition civil_max :: "tag \<Rightarrow> fields option" where
  "civil_max T = civil_time T int64_max 12 31 23 59 59"

definition civil_min :: "tag \<Rightarrow> fields option" where
  "civil_min T = civil_time T int64_min 1 1 0 0 0"

definition civil_plus :: "tag \<Rightarrow> fields \<Rightarrow> int \<Rightarrow> fields option" where
  "civil_plus T a n = map_option (align T) (step T a n)"

definition civil_minus :: "tag \<Rightarrow> fields \<Rightarrow> int \<Rightarrow> fields option" where
  "civil_minus T a n =
     (if n \<noteq> int64_min then map_option (align T) (step T a (- n))
      else do { b \<leftarrow> step T a (- (n + 1)); map_option (align T) (step T b 1) })"

definition civil_diff :: "tag \<Rightarrow> fields \<Rightarrow> fields \<Rightarrow> int option" where
  "civil_diff T lhs rhs = difference T lhs rhs"

definition next_weekday :: "fields \<Rightarrow> weekday \<Rightarrow> fields option" where
  "next_weekday cd wd = do { k \<leftarrow> weekday_gap k_weekdays_forw (get_weekday cd) wd; civil_plus day_tag cd k }"

definition prev_weekday :: "fields \<Rightarrow> weekday \<Rightarrow> fields option" where
  "prev_weekday cd wd = do { k \<leftarrow> weekday_gap k_weekdays_back (get_weekday cd) wd; civil_minus day_tag cd k }"


section \<open>The checked operations return the exact results\<close>

text \<open>
  The operations are compared with the functions of \<^verbatim>\<open>Civil_Exact\<close>. \<^verbatim>\<open>n_day\<close> works on the remainder of
  the year modulo 400, so that its \<^verbatim>\<open>ey\<close> stays far from the limits; only the last addition can overflow.
\<close>

lemma cast8_id: "-128 \<le> v \<Longrightarrow> v \<le> 127 \<Longrightarrow> cast8 v = v"
  by (simp add: cast8_def signed_take_bit_int_eq_self)

lemma trunc64:
  assumes "in_int64 x"
  shows "- 63131909478064 \<le> x sdiv 146097" "x sdiv 146097 \<le> 63131909478064"
    and "- 146097 < x smod 146097" "x smod 146097 < 146097"
  using assms by (auto simp: range_simps trunc_simps)

text \<open>The loop variables: the year is at least a lower bound, and every iteration takes more days than it adds years.\<close>

definition loop_room :: "int \<Rightarrow> int \<Rightarrow> bool" where
  "loop_room d ey \<longleftrightarrow> 1 \<le> d \<and> - 1000000000000000000 \<le> ey \<and> ey + d \<le> 1000000000000000000"

lemma loop_room_64: "loop_room d ey \<Longrightarrow> in_int64 ey \<and> in_int64 d \<and> in_int64 (ey + of_bool b)"
  by (cases b) (auto simp: loop_room_def range_simps)

lemma loop_room_step:
  "loop_room d ey \<Longrightarrow> n < d \<Longrightarrow> 0 \<le> k \<Longrightarrow> k \<le> n \<Longrightarrow>
   loop_room (d - n) (ey + k) \<and> in_int64 (d - n) \<and> in_int64 (ey + k)"
  by (auto simp: loop_room_def range_simps)

lemma n_day_centuries_ok:
  "loop_room d ey \<Longrightarrow> n_day_centuries_exact d ey yi = (d', ey', yi') \<Longrightarrow>
   n_day_centuries d ey yi = Some (d', ey', yi') \<and> loop_room d' ey'"
proof (induction d ey yi rule: n_day_centuries_exact.induct)
  case (1 d ey yi)
  have n: "100 \<le> days_per_century yi" by (simp add: days_per_century_def)
  show ?case
  proof (cases "d \<le> days_per_century yi")
    case False
    with 1(1) [OF refl] 1(2,3) loop_room_step [OF 1(2), of "days_per_century yi" 100] n
    show ?thesis
      by (subst n_day_centuries.simps) (simp add: n_day_centuries_exact.simps [of d] Let_def)
  qed (use 1 in \<open>simp add: n_day_centuries.simps n_day_centuries_exact.simps\<close>)
qed

lemma n_day_4years_ok:
  "loop_room d ey \<Longrightarrow> n_day_4years_exact d ey yi = (d', ey', yi') \<Longrightarrow>
   n_day_4years d ey yi = Some (d', ey', yi') \<and> loop_room d' ey'"
proof (induction d ey yi rule: n_day_4years_exact.induct)
  case (1 d ey yi)
  have n: "4 \<le> days_per_4years yi" by (simp add: days_per_4years_def)
  show ?case
  proof (cases "d \<le> days_per_4years yi")
    case False
    with 1(1) [OF refl] 1(2,3) loop_room_step [OF 1(2), of "days_per_4years yi" 4] n
    show ?thesis
      by (subst n_day_4years.simps) (simp add: n_day_4years_exact.simps [of d] Let_def)
  qed (use 1 in \<open>simp add: n_day_4years.simps n_day_4years_exact.simps\<close>)
qed

lemma days_per_year_ok:
  "loop_room d ey \<Longrightarrow> days_per_year ey m = Some (days_per_year_exact ey m)"
  using loop_room_64 [of d ey "m > 2"] by (simp add: days_per_year_def days_per_year_exact_def)

lemma year_index_ok:
  "loop_room d ey \<Longrightarrow> year_index ey m = Some (year_index_exact ey m)"
  using loop_room_64 [of d ey "m > 2"] by (simp add: year_index_def year_index_exact_def Let_def)

lemma n_day_years_ok:
  "loop_room d ey \<Longrightarrow> n_day_years_exact m d ey = (d', ey') \<Longrightarrow>
   n_day_years m d ey = Some (d', ey') \<and> loop_room d' ey'"
proof (induction m d ey rule: n_day_years_exact.induct)
  case (1 m d ey)
  have n: "1 \<le> days_per_year_exact ey m" by (simp add: days_per_year_exact_def)
  note y = days_per_year_ok [OF 1(2), of m]
  show ?case
  proof (cases "d \<le> days_per_year_exact ey m")
    case False
    with 1(1) [OF refl] 1(2,3) loop_room_step [OF 1(2), of "days_per_year_exact ey m" 1] n y
    show ?thesis
      by (subst n_day_years.simps) (simp add: n_day_years_exact.simps [of _ d] Let_def)
  qed (use 1 y in \<open>simp add: n_day_years.simps n_day_years_exact.simps\<close>)
qed

lemma n_day_months_ok:
  "loop_room d ey \<Longrightarrow> 1 \<le> m \<Longrightarrow> m \<le> 12 \<Longrightarrow> n_day_months_exact d ey m = (d', ey', m') \<Longrightarrow>
   n_day_months d ey m = Some (d', ey', m') \<and> loop_room d' ey'"
proof (induction d ey m rule: n_day_months_exact.induct)
  case (1 d ey m)
  have y: "days_per_month ey m = Some (days_per_month_exact ey m)"
    using 1 by (simp add: days_per_month_def days_per_month_exact_def)
  have n: "1 \<le> days_per_month_exact ey m" using days_per_month_ge [of m ey] 1 by simp
  have c: "cast8 (m + 1) = m + 1" using 1 by (simp add: cast8_id)
  show ?case
  proof (cases "d \<le> days_per_month_exact ey m")
    case False
    with 1 loop_room_step [OF 1(3), of "days_per_month_exact ey m" 1]
      loop_room_step [OF 1(3), of "days_per_month_exact ey m" 0] n y c
    show ?thesis
      by (subst n_day_months.simps) (simp add: n_day_months_exact.simps [of d] Let_def split: if_splits)
  qed (use 1 y in \<open>simp add: n_day_months.simps n_day_months_exact.simps\<close>)
qed

lemma n_day_carry_ok:
  assumes "- 100000000000000000 \<le> ey" "ey \<le> 100000000000000000" and "- 146097 < cd" "cd < 146097"
  shows "(if cd < 0 then do { ey \<leftarrow> chk64 (ey - 400); cd \<leftarrow> chk64 (cd + 146097); Some (ey, cd) } else Some (ey, cd)) =
    Some (if cd < 0 then (ey - 400, cd + 146097) else (ey, cd))"
  using assms by (auto simp: range_simps)

lemma n_day_fixup_ok:
  assumes "- 100000000000000000 \<le> ey" "ey \<le> 100000000000000000" and "- 146097 < d" and "d < 292194"
    and "(if d > 0 then (if d > 146097 then (ey + 400, d - 146097) else (ey, d))
          else if d > -365 then (ey - 1, d + days_per_year_exact (ey - 1) m)
          else (ey - 400, d + 146097)) = (ey', d')"
  shows "(if d > 0 then
            if d > 146097 then do { ey \<leftarrow> chk64 (ey + 400); d \<leftarrow> chk64 (d - 146097); Some (ey, d) } else Some (ey, d)
          else if d > -365 then do { ey \<leftarrow> chk64 (ey - 1); n \<leftarrow> days_per_year ey m; d \<leftarrow> chk64 (d + n); Some (ey, d) }
          else do { ey \<leftarrow> chk64 (ey - 400); d \<leftarrow> chk64 (d + 146097); Some (ey, d) }) = Some (ey', d')"
    and "loop_room d' ey'"
proof -
  have y: "days_per_year (ey - 1) m = Some (days_per_year_exact (ey - 1) m)"
    by (rule days_per_year_ok [of 1]) (use assms(1,2) in \<open>simp add: loop_room_def\<close>)
  have n: "365 \<le> days_per_year_exact (ey - 1) m" "days_per_year_exact (ey - 1) m \<le> 366"
    by (simp_all add: days_per_year_exact_def)
  show "(if d > 0 then
            if d > 146097 then do { ey \<leftarrow> chk64 (ey + 400); d \<leftarrow> chk64 (d - 146097); Some (ey, d) } else Some (ey, d)
          else if d > -365 then do { ey \<leftarrow> chk64 (ey - 1); n \<leftarrow> days_per_year ey m; d \<leftarrow> chk64 (d + n); Some (ey, d) }
          else do { ey \<leftarrow> chk64 (ey - 400); d \<leftarrow> chk64 (d + 146097); Some (ey, d) }) = Some (ey', d')"
    using assms n by (auto simp: y range_simps split: if_splits)
  show "loop_room d' ey'" using assms n by (auto simp: loop_room_def split: if_splits)
qed

lemma n_day_year_loops_ok:
  assumes "loop_room d ey"
    and "(if d > 365 then
            let yi = year_index_exact ey m;
                (d, ey, yi) = n_day_centuries_exact d ey yi;
                (d, ey, yi) = n_day_4years_exact d ey yi
            in n_day_years_exact m d ey
          else (d, ey)) = (d', ey')"
  shows "(if d > 365 then do {
            yi \<leftarrow> year_index ey m;
            (d, ey, yi) \<leftarrow> n_day_centuries d ey yi;
            (d, ey, yi) \<leftarrow> n_day_4years d ey yi;
            n_day_years m d ey
          }
          else Some (d, ey)) = Some (d', ey') \<and> loop_room d' ey'"
proof (cases "d > 365")
  case True
  obtain d1 ey1 yi1 where c: "n_day_centuries_exact d ey (year_index_exact ey m) = (d1, ey1, yi1)" by (rule prod_cases3)
  obtain d2 ey2 yi2 where q: "n_day_4years_exact d1 ey1 yi1 = (d2, ey2, yi2)" by (rule prod_cases3)
  note c' = n_day_centuries_ok [OF assms(1) c]
  note q' = n_day_4years_ok [OF conjunct2 [OF c'] q]
  have "n_day_years_exact m d2 ey2 = (d', ey')" using assms(2) True c q by simp
  note r' = n_day_years_ok [OF conjunct2 [OF q'] this]
  show ?thesis using True c' q' r' by (simp add: year_index_ok [OF assms(1)])
qed (use assms in simp)

lemma n_day_month_loop_ok:
  assumes "loop_room d ey" and "1 \<le> m" and "m \<le> 12"
    and "(if d > 28 then n_day_months_exact d ey m else (d, ey, m)) = (d', ey', m')"
  shows "(if d > 28 then n_day_months d ey m else Some (d, ey, m)) = Some (d', ey', m') \<and> loop_room d' ey'"
  using n_day_months_ok [OF assms(1-3), of d' ey' m'] assms by (auto split: if_splits)

definition chk_year :: "fields \<Rightarrow> fields option" where
  "chk_year f = (if in_int64 (f_y f) then Some f else None)"

lemma n_day_ok:
  assumes "in_int64 y" "in_int64 d" "in_int64 cd" and m: "1 \<le> m" "m \<le> 12"
  shows "n_day y m d cd hh mm ss = chk_year (n_day_exact y m d cd hh mm ss)"
proof -
  define ey0 where "ey0 = y smod 400"
  have e0: "- 400 < ey0" "ey0 < 400" unfolding ey0_def by (auto simp: trunc_simps)
  note cd = trunc64 [OF assms(3)] and d = trunc64 [OF assms(2)]
  obtain ey1 cd1 where s1: "(if cd smod 146097 < 0
      then (ey0 + (cd sdiv 146097) * 400 - 400, cd smod 146097 + 146097)
      else (ey0 + (cd sdiv 146097) * 400, cd smod 146097)) = (ey1, cd1)" by (rule prod.exhaust)
  have b1: "- 30000000000000000 \<le> ey1" "ey1 \<le> 30000000000000000" "0 \<le> cd1" "cd1 < 146097"
    using s1 e0 cd by (auto split: if_splits)
  define ey2 d2 where "ey2 = ey1 + (d sdiv 146097) * 400" and "d2 = d smod 146097 + cd1"
  have b2: "- 100000000000000000 \<le> ey2" "ey2 \<le> 100000000000000000" "- 146097 < d2" "d2 < 292194"
    using b1 d by (auto simp: ey2_def d2_def)
  obtain ey3 d3 where s3: "(if d2 > 0 then (if d2 > 146097 then (ey2 + 400, d2 - 146097) else (ey2, d2))
      else if d2 > -365 then (ey2 - 1, d2 + days_per_year_exact (ey2 - 1) m)
      else (ey2 - 400, d2 + 146097)) = (ey3, d3)" by (rule prod.exhaust)
  note k3 = n_day_fixup_ok [OF b2 s3]
  obtain d4 ey4 where s4: "(if d3 > 365 then
      let yi = year_index_exact ey3 m;
          (d, ey, yi) = n_day_centuries_exact d3 ey3 yi;
          (d, ey, yi) = n_day_4years_exact d ey yi
      in n_day_years_exact m d ey else (d3, ey3)) = (d4, ey4)" by (rule prod.exhaust)
  note k4 = n_day_year_loops_ok [OF k3(2) s4]
  obtain d5 ey5 m5 where s5: "(if d4 > 28 then n_day_months_exact d4 ey4 m else (d4, ey4, m)) = (d5, ey5, m5)"
    by (rule prod_cases3)
  note k5 = n_day_month_loop_ok [OF conjunct2 [OF k4] m s5]
  have exact: "n_day_exact y m d cd hh mm ss =
      \<lparr>f_y = y + (ey5 - ey0), f_m = m5, f_d = d5, f_hh = hh, f_mm = mm, f_ss = ss\<rparr>"
    unfolding n_day_exact_def Let_def ey0_def [symmetric] s1 prod.case ey2_def [symmetric] d2_def [symmetric]
    by (simp only: s3 [unfolded Let_def] s4 [unfolded Let_def] s5 prod.case)
  have "1 \<le> d5 \<and> d5 \<le> 31" using n_day_correct(1) [OF m exact] 
    by (auto simp: valid_date_def month_length_def split: if_splits)
  then have c: "cast8 d5 = d5" by (simp add: cast8_id)
  have r: "in_int64 (cd sdiv 146097 * 400)" "in_int64 (ey0 + cd sdiv 146097 * 400)"
    "in_int64 (d sdiv 146097 * 400)" "in_int64 ey2" "in_int64 d2" "in_int64 (ey5 - ey0)"
    using cd d e0 b2 k5 by (auto simp: range_simps loop_room_def)
  have k1: "(if cd smod 146097 < 0 then do { ey \<leftarrow> chk64 (ey0 + cd sdiv 146097 * 400 - 400);
      cd \<leftarrow> chk64 (cd smod 146097 + 146097); Some (ey, cd) } else Some (ey0 + cd sdiv 146097 * 400, cd smod 146097)) =
      Some (ey1, cd1)"
    unfolding s1 [symmetric] by (rule n_day_carry_ok) (use cd e0 in simp_all)
  show ?thesis
    unfolding n_day_def Let_def ey0_def [symmetric] exact chk_year_def
    by (simp only: r chk64_eq bind.bind_lunit k1 prod.case ey2_def [symmetric] d2_def [symmetric] k3(1) k4 k5 c)
      (simp add: chk64_def)
qed

text \<open>
  What \<^verbatim>\<open>n_mon\<close> needs of the year: the whole years in the months are added first, so for a positive month
  other than 12 the year after adding \<open>m div 12\<close> has to fit, and for one that is not positive the year the month
  falls in.
\<close>

definition month_carry_ok :: "int \<Rightarrow> int \<Rightarrow> bool" where
  "month_carry_ok y m \<longleftrightarrow>
     (0 < m \<and> m \<noteq> 12 \<longrightarrow> y + m div 12 \<le> int64_max) \<and> (m \<le> 0 \<longrightarrow> int64_min \<le> y + (m - 1) div 12)"

lemma month_carry_iff:
  assumes "in_int64 y" and "m \<noteq> 12"
  shows "in_int64 (y + m sdiv 12) \<and> in_int64 (y + (m - 1) div 12) \<longleftrightarrow> month_carry_ok y m"
proof (cases "0 < m")
  case True
  then have "m sdiv 12 = m div 12" "0 \<le> (m - 1) div 12" "(m - 1) div 12 \<le> m div 12"
    by (auto simp: sdiv_pos zdiv_mono1 pos_imp_zdiv_nonneg_iff)
  with True assms show ?thesis by (auto simp: month_carry_ok_def range_simps)
next
  case False
  then have "(m - 1) div 12 \<le> m sdiv 12" "m sdiv 12 \<le> 0" using month_carry [of m]
    by (auto simp: sdiv_pos pos_imp_zdiv_nonneg_iff)
  with False assms show ?thesis by (auto simp: month_carry_ok_def range_simps)
qed

definition chk_month :: "int \<Rightarrow> int \<Rightarrow> fields \<Rightarrow> fields option" where
  "chk_month y m f = (if month_carry_ok y m then chk_year f else None)"

lemma n_mon_ok:
  assumes "in_int64 y" "in_int64 m" "in_int64 d" "in_int64 cd"
  shows "n_mon y m d cd hh mm ss = chk_month y m (n_mon_exact y m d cd hh mm ss)"
proof (cases "m = 12")
  case True
  with n_day_ok [OF assms(1,3,4), of 12] show ?thesis
    by (simp add: n_mon_def n_mon_exact_def chk_month_def month_carry_ok_def cast8_id)
next
  case False
  define Y M where "Y = y + (m - 1) div 12" and "M = (m - 1) mod 12 + 1"
  have m: "1 \<le> M" "M \<le> 12" unfolding M_def using pos_mod_bound [of 12 "m - 1"] by simp_all
  have c: "cast8 M = M" and i: "in_int64 M" using m by (simp_all add: cast8_id range_simps)
  have "n_mon y m d cd hh mm ss = (if in_int64 (y + m sdiv 12) \<and> in_int64 Y then n_day Y M d cd hh mm ss else None)"
  proof (cases "m smod 12 \<le> 0")
    case True
    then have e: "y + m sdiv 12 - 1 = Y" "m smod 12 + 12 = M" using month_carry(1) [of m] unfolding Y_def M_def by linarith+
    show ?thesis using True False i by (simp add: n_mon_def Let_def chk64_def e c)
  next
    case neg: False
    then have e: "y + m sdiv 12 = Y" "m smod 12 = M" using month_carry(2) [of m] unfolding Y_def M_def by linarith+
    show ?thesis using neg False by (simp add: n_mon_def Let_def chk64_def e c)
  qed
  then show ?thesis
    using n_day_ok [OF _ assms(3,4) m, of Y] month_carry_iff [OF assms(1) False]
    by (auto simp: n_mon_eq chk_month_def Y_def [symmetric] M_def [symmetric])
qed

text \<open>The quotients by 24 and 60 leave room for the carries.\<close>

lemma quotients64:
  assumes "in_int64 x"
  shows "- 384307168202282326 \<le> x sdiv 24" "x sdiv 24 \<le> 384307168202282325"
    and "- 384307168202282326 \<le> x div 24" "x div 24 \<le> 384307168202282325"
    and "- 153722867280912931 \<le> x sdiv 60" "x sdiv 60 \<le> 153722867280912931"
    and "- 153722867280912931 \<le> x div 60" "x div 60 \<le> 153722867280912931"
    and "- 24 < x smod 24" "x smod 24 < 24" "- 60 < x smod 60" "x smod 60 < 60"
  using assms by (auto simp: range_simps trunc_simps)

lemma cast8_mod: "0 < b \<Longrightarrow> b \<le> 60 \<Longrightarrow> cast8 (a mod b) = a mod b"
  using pos_mod_sign [of b a] pos_mod_bound [of b a] by (intro cast8_id) linarith+

lemma carry64:
  fixes a b :: int
  assumes "0 < b" "b \<le> 60" and "in_int64 (c + a sdiv b)" "in_int64 (c + a div b)"
  shows "do {
      c \<leftarrow> chk64 (c + a sdiv b);
      (c, r) \<leftarrow> (if a smod b < 0 then do { c \<leftarrow> chk64 (c - 1); r \<leftarrow> chk64 (a smod b + b); Some (c, r) } else Some (c, a smod b));
      F c r
    } = F (c + a div b) (a mod b)"
proof -
  have "0 \<le> a mod b" "a mod b < b" using assms(1) by simp_all
  then have "in_int64 (a mod b)" using assms(2) by (simp add: range_simps)
  then show ?thesis
    using assms(3,4) trunc_to_floor [OF assms(1), of a]
    by (cases "a smod b < 0") (simp_all add: add_diff_eq [symmetric])
qed

lemma n_hour_ok:
  assumes "in_int64 y" "in_int64 m" "in_int64 d" "in_int64 hh" and "- 4000000000000000000 \<le> cd" "cd \<le> 4000000000000000000"
  shows "n_hour y m d cd hh mm ss = chk_month y m (n_hour_exact y m d cd hh mm ss)"
proof -
  have q: "in_int64 (cd + hh sdiv 24)" "in_int64 (cd + hh div 24)"
    using assms(5-) quotients64 [OF assms(4)] by (simp_all add: range_simps)
  show ?thesis
    unfolding n_hour_def Let_def n_hour_eq
    by (subst carry64 [OF _ _ q]) (simp_all add: cast8_mod n_mon_ok [OF assms(1-3) q(2)])
qed

lemma n_min_ok:
  assumes "in_int64 y" "in_int64 m" "in_int64 d" "in_int64 hh" "in_int64 mm"
    and "- 2000000000000000000 \<le> ch" "ch \<le> 2000000000000000000"
  shows "n_min y m d hh ch mm ss = chk_month y m (n_min_exact y m d hh ch mm ss)"
proof -
  have q: "in_int64 (ch + mm sdiv 60)" "in_int64 (ch + mm div 60)"
    using assms(6-) quotients64 [OF assms(5)] by (simp_all add: range_simps)
  define c where "c = ch + mm div 60"
  have r: "in_int64 (hh sdiv 24 + c sdiv 24)" "in_int64 (hh smod 24 + c smod 24)"
    "- 4000000000000000000 \<le> hh sdiv 24 + c sdiv 24" "hh sdiv 24 + c sdiv 24 \<le> 4000000000000000000"
    using quotients64 [OF assms(4)] quotients64 [OF q(2)] unfolding c_def [symmetric] by (simp_all add: range_simps)
  show ?thesis
    unfolding n_min_def Let_def n_min_eq
    by (subst carry64 [OF _ _ q]) (simp_all add: cast8_mod c_def [symmetric] r n_hour_ok [OF assms(1-3)])
qed

lemma n_sec_ok_seconds:
  assumes "in_int64 y" "in_int64 m" "in_int64 d" "in_int64 hh" "in_int64 mm"
    and ss: "0 \<le> ss \<and> ss < 60"
  shows "n_sec y m d hh mm ss = chk_month y m (n_sec_exact y m d hh mm ss)"
proof -
  have c: "cast8 v = v" if "0 \<le> v" "v < 60" for v using that by (simp add: cast8_id)
  have carry: "month_carry_ok y m" if "1 \<le> m" "m \<le> 12"
    using assms(1) that by (auto simp: month_carry_ok_def range_simps)
  have s: "in_int64 (hh smod 24)" "in_int64 (mm smod 60)" "in_int64 0"
    using quotients64 [OF assms(4)] quotients64 [OF assms(5)] by (simp_all add: range_simps)
  consider (in_range) "0 \<le> mm \<and> mm < 60" "0 \<le> hh \<and> hh < 24" "1 \<le> d \<and> d \<le> 28 \<and> 1 \<le> m \<and> m \<le> 12"
    | (day) "0 \<le> mm \<and> mm < 60" "0 \<le> hh \<and> hh < 24" "\<not> (1 \<le> d \<and> d \<le> 28 \<and> 1 \<le> m \<and> m \<le> 12)"
    | (hour) "0 \<le> mm \<and> mm < 60" "\<not> (0 \<le> hh \<and> hh < 24)" | (minute) "\<not> (0 \<le> mm \<and> mm < 60)" by blast
  then show ?thesis
  proof cases
    case in_range
    with ss assms(1) carry show ?thesis
      by (simp add: n_sec_def n_sec_exact_def c cast8_id chk_month_def chk_year_def)
  next
    case day
    with ss c show ?thesis
      unfolding n_sec_def n_sec_exact_def Let_def by (simp only: if_True if_False n_mon_ok [OF assms(1-3) s(3)]) (simp add: c)
  next
    case hour
    with ss c quotients64 [OF assms(4)] show ?thesis
      unfolding n_sec_def n_sec_exact_def Let_def by (simp only: if_True if_False) (simp add: c n_hour_ok assms s)
  next
    case minute
    with ss c quotients64 [OF assms(5)] show ?thesis
      unfolding n_sec_def n_sec_exact_def Let_def by (simp only: if_True if_False) (simp add: c n_min_ok assms s)
  qed
qed

lemma n_sec_ok:
  assumes "in_int64 y" "in_int64 m" "in_int64 d" "in_int64 hh" "in_int64 mm" "in_int64 ss"
  shows "n_sec y m d hh mm ss = chk_month y m (n_sec_exact y m d hh mm ss)"
proof (cases "0 \<le> ss \<and> ss < 60")
  case True
  with assms(1-5) show ?thesis by (rule n_sec_ok_seconds)
next
  case False
  define c where "c = ss div 60"
  have q: "in_int64 (0 + ss sdiv 60)" "in_int64 (0 + ss div 60)"
    using quotients64 [OF assms(6)] by (simp_all add: range_simps)
  have "in_int64 c" using q(2) by (simp add: c_def)
  note b = quotients64 [OF assms(5)] quotients64 [OF this]
  have r: "in_int64 (mm sdiv 60 + c sdiv 60)" "in_int64 (mm smod 60 + c smod 60)"
    using b by (simp_all add: range_simps)
  have "n_sec y m d hh mm ss = do {
      ch \<leftarrow> chk64 (mm sdiv 60 + c sdiv 60); mi \<leftarrow> chk64 (mm smod 60 + c smod 60);
      n_min y m d hh ch mi (cast8 (ss mod 60)) }"
    using carry64 [OF _ _ q, of "\<lambda>cm ss. do {
        ch \<leftarrow> chk64 (mm sdiv 60 + cm sdiv 60); mi \<leftarrow> chk64 (mm smod 60 + cm smod 60);
        n_min y m d hh ch mi (cast8 ss) }"] q
    unfolding n_sec_def Let_def if_not_P [OF False] by (simp add: c_def)
  also have "\<dots> = chk_month y m (n_min_exact y m d hh (mm sdiv 60 + c sdiv 60) (mm smod 60 + c smod 60) (ss mod 60))"
    using r b by (simp add: cast8_mod n_min_ok assms)
  also have "\<dots> = chk_month y m (n_sec_exact y m d hh mm ss)"
    using trunc_to_floor [of 60 ss] unfolding n_sec_exact_def Let_def if_not_P [OF False] c_def
    by (cases "ss smod 60 < 0") simp_all
  finally show ?thesis .
qed

lemma chk_month_Some: "chk_month y m f = Some g \<longleftrightarrow> month_carry_ok y m \<and> in_int64 (f_y f) \<and> g = f"
  by (auto simp: chk_month_def chk_year_def)

subsection \<open>Steps and differences\<close>

lemma chk_month_in_range: "in_int64 y \<Longrightarrow> 1 \<le> m \<Longrightarrow> m \<le> 12 \<Longrightarrow> chk_month y m f = chk_year f"
  by (auto simp: chk_month_def month_carry_ok_def range_simps)

lemma n_mon_first:
  "f_y (n_mon_exact y m 1 0 hh mm ss) = y + (m - 1) div 12"
proof -
  let ?y = "y + (m - 1) div 12" and ?m = "(m - 1) mod 12 + 1"
  have "1 \<le> ?m" "?m \<le> 12" using pos_mod_bound [of 12 "m - 1"] by simp_all
  then have "valid_date ?y ?m 1" using month_length_ge [of ?y ?m] by (simp add: valid_date_def)
  from ordinal_inject [OF n_mon_correct(1) [OF refl] this] n_mon_correct(2) [OF refl, of y m 1 0 hh mm ss]
  show ?thesis by (simp add: month_ordinal_def)
qed

lemma month_step_carry:
  fixes y m n :: int
  assumes "in_int64 y" and "1 \<le> m" "m \<le> 12"
  defines "y' \<equiv> y + n sdiv 12" and "m' \<equiv> m + n smod 12"
  assumes "in_int64 (y' + (m' - 1) div 12)"
  shows "in_int64 y'" and "month_carry_ok y' m'"
proof -
  define r where "r = n smod 12"
  have "in_int64 y' \<and> month_carry_ok y' m'"
  proof (cases "0 \<le> n")
    case True
    then have r: "0 \<le> r" "r < 12" "0 \<le> n sdiv 12" by (auto simp: r_def trunc_simps pos_imp_zdiv_nonneg_iff)
    have "(m' - 1) div 12 = of_bool (12 < m')" "12 < m' \<Longrightarrow> m' div 12 = 1" "m' < 12 \<Longrightarrow> m' div 12 = 0" "1 \<le> m'"
      using r assms(2,3) unfolding m'_def r_def [symmetric] by auto
    with assms(1,6) r show ?thesis
      unfolding y'_def by (cases m' "12 :: int" rule: linorder_cases) (auto simp: month_carry_ok_def range_simps)
  next
    case False
    then have r: "r \<le> 0" "- 12 < r" "n sdiv 12 \<le> 0" by (auto simp: r_def trunc_simps pos_imp_zdiv_nonneg_iff)
    have "(m' - 1) div 12 = - of_bool (m' \<le> 0)" "0 < m' \<Longrightarrow> m' \<noteq> 12 \<Longrightarrow> m' div 12 = 0" "m' \<le> 12"
      using r assms(2,3) unfolding m'_def r_def [symmetric] by auto
    with assms(1,6) r show ?thesis
      unfolding y'_def by (cases "m' \<le> 0") (auto simp: month_carry_ok_def range_simps)
  qed
  then show "in_int64 y'" and "month_carry_ok y' m'" by simp_all
qed

definition civil64 :: "tag \<Rightarrow> fields \<Rightarrow> bool" where
  "civil64 T f \<longleftrightarrow> civil_ok T f \<and> in_int64 (f_y f)"

lemma fields64:
  assumes "civil64 T f"
  shows "in_int64 (f_y f)" "1 \<le> f_m f" "f_m f \<le> 12" "1 \<le> f_d f" "f_d f \<le> 31"
    "0 \<le> f_hh f" "f_hh f < 24" "0 \<le> f_mm f" "f_mm f < 60" "0 \<le> f_ss f" "f_ss f < 60"
    "in_int64 (f_m f)" "in_int64 (f_d f)" "in_int64 (f_hh f)" "in_int64 (f_mm f)"
  using assms by (auto simp: civil64_def civil_ok_def valid_fields_def valid_date_def month_length_def range_simps split: if_splits)

lemma step_month64:
  assumes "civil64 month_tag f" and "in_int64 n"
  shows "step month_tag f n = chk_year (step_exact month_tag f n)"
proof -
  note f = fields64 [OF assms(1)]
  let ?y = "f_y f + n sdiv 12" and ?m = "f_m f + n smod 12"
  let ?g = "n_mon_exact ?y ?m (f_d f) 0 (f_hh f) (f_mm f) (f_ss f)"
  have d: "f_d f = 1" using assms(1) by (simp add: civil64_def civil_ok_simps)
  have r: "- 12 < n smod 12" "n smod 12 < 12" by (auto simp: trunc_simps)
  have m: "in_int64 ?m" "in_int64 1" "in_int64 0" using f r by (auto simp: range_simps)
  have y: "f_y ?g = ?y + (?m - 1) div 12" unfolding d by (rule n_mon_first)
  show ?thesis
  proof (cases "in_int64 (f_y ?g)")
    case True
    from month_step_carry [OF f(1-3) this [unfolded y]] True m f show ?thesis
      by (simp add: n_mon_ok chk_month_def)
  next
    case False
    with m f show ?thesis by (auto simp: chk64_def n_mon_ok chk_month_def chk_year_def)
  qed
qed

lemma step_ok64:
  assumes "civil64 T f" and "in_int64 n"
  shows "step T f n = chk_year (step_exact T f n)"
proof -
  note f = fields64 [OF assms(1)] and q = quotients64 [OF assms(2)]
  note c = chk_month_in_range [OF f(1-3)]
  have z: "in_int64 0" by (simp add: range_simps)
  have b: "in_int64 (f_hh f + n sdiv 60)" "in_int64 (f_mm f + n sdiv 60)" "in_int64 (f_mm f + n smod 60)"
    "in_int64 (f_ss f + n smod 60)" "in_int64 (f_d f + n sdiv 24)" "in_int64 (f_hh f + n smod 24)"
    using f q by (simp_all add: range_simps)
  show ?thesis
  proof (cases T)
    case month_tag
    with step_month64 assms show ?thesis by simp
  next
    case year_tag
    then show ?thesis by (simp add: chk_year_def chk64_def)
  qed (simp_all add: b c f z n_sec_ok n_min_ok n_hour_ok n_day_ok assms(2))
qed

lemma scale_add64:
  assumes "f \<in> {12, 24, 60}" and "- f < a" and "a < f"
  shows "do { v \<leftarrow> chk64 v; scale_add v f a } = chk64 (v * f + a)"
proof (cases "in_int64 (v * f + a)")
  case True
  with assms show ?thesis by (auto simp: scale_add_def range_simps)
next
  case False
  have "in_int64 (v * f + a)" if "in_int64 ((v + 1) * f + a - f) \<or> in_int64 ((v - 1) * f + a + f)"
    using that by (simp add: algebra_simps)
  then have "do { v \<leftarrow> chk64 v; scale_add v f a } \<noteq> Some k" for k
    using False by (auto simp: scale_add_def bind_eq_Some_conv split: if_splits)
  then have "do { v \<leftarrow> chk64 v; scale_add v f a } = None" by (metis option.exhaust)
  with False show ?thesis by (simp add: chk64_def)
qed

text \<open>\<^verbatim>\<open>ymd_ord\<close> multiplies the 400-year era by 146097 and so works for years up to about \<open>2.5 \<cdot> 10\<^sup>16\<close>.\<close>

lemma ymd_ord_Some:
  assumes "ymd_ord y m d = Some k"
  shows "k = ymd_ord_exact y m d"
  using assms unfolding ymd_ord_def ymd_ord_exact_def Let_def
  by (auto simp: bind_eq_Some_conv split: if_splits)

lemma ymd_ord_ok:
  assumes "- 25252734927000000 \<le> y" "y \<le> 25252734927000000" and "1 \<le> m" "m \<le> 12" "1 \<le> d" "d \<le> 31"
  shows "ymd_ord y m d = Some (ymd_ord_exact y m d)"
proof -
  define e where "e = (if m \<le> 2 then y - 1 else y)"
  have e: "- 25252734927000001 \<le> e" "e \<le> 25252734927000000" using assms by (auto simp: e_def)
  define era where "era = e div 400"
  have era: "(if e \<ge> 0 then e else e - 399) sdiv 400 = era" unfolding era_def by (rule era_floor)
  define yoe where "yoe = e - era * 400"
  have yoe: "0 \<le> yoe" "yoe < 400" unfolding yoe_def era_def by linarith+
  define doy where "doy = (153 * (m + (if m > 2 then -3 else 9)) + 2) sdiv 5 + d - 1"
  have "0 \<le> doy \<and> doy \<le> 370"
    using assms(3-) by (cases m rule: month_cases) (simp_all add: doy_def trunc_simps)
  then have doy: "0 \<le> doy" "doy \<le> 370" by simp_all
  have q: "0 \<le> yoe sdiv 4" "yoe sdiv 4 < 100" "0 \<le> yoe sdiv 100" "yoe sdiv 100 < 4"
    using yoe by (simp_all add: sdiv_pos pos_imp_zdiv_nonneg_iff)
  have r: "in_int64 (era * 400)" "in_int64 yoe" "in_int64 (yoe * 365)" "in_int64 (yoe * 365 + yoe sdiv 4)"
    "in_int64 (yoe * 365 + yoe sdiv 4 - yoe sdiv 100)" "in_int64 (yoe * 365 + yoe sdiv 4 - yoe sdiv 100 + doy)"
    "in_int64 (era * 146097)" "in_int64 (era * 146097 + (yoe * 365 + yoe sdiv 4 - yoe sdiv 100 + doy))"
    "in_int64 (era * 146097 + (yoe * 365 + yoe sdiv 4 - yoe sdiv 100 + doy) - 719468)"
    using e yoe doy q unfolding era_def range_simps by linarith+
  have i: "(if m \<le> 2 then chk64 (y - 1) else Some y) = Some e"
    "(if e \<ge> 0 then Some e else chk64 (e - 399)) = Some (if e \<ge> 0 then e else e - 399)"
    using assms e by (auto simp: e_def range_simps)
  show ?thesis
    unfolding ymd_ord_def ymd_ord_exact_def Let_def e_def [symmetric] i bind.bind_lunit era doy_def [symmetric]
    by (simp only: r chk64_eq bind.bind_lunit yoe_def [symmetric])
qed

lemma ymd_ord_overflow:
  assumes "y \<le> - 25252734928000000 \<or> 25252734928000000 \<le> y" and "1 \<le> m" "m \<le> 12" "1 \<le> d" "d \<le> 31"
  shows "ymd_ord y m d = None"
proof (rule ccontr)
  assume "ymd_ord y m d \<noteq> None"
  then obtain k where k: "ymd_ord y m d = Some k" by blast
  define e where "e = (if m \<le> 2 then y - 1 else y)"
  have "in_int64 ((if e \<ge> 0 then e else e - 399) sdiv 400 * 146097)"
    using k unfolding ymd_ord_def Let_def
    by (auto simp: bind_eq_Some_conv e_def split: if_splits)
  then have "in_int64 (e div 400 * 146097)" unfolding era_floor .
  moreover have "e \<le> - 25252734928000000 \<or> 25252734928000000 - 1 \<le> e" using assms by (auto simp: e_def)
  ultimately show False unfolding range_simps by linarith
qed

lemma day_difference_Some:
  assumes "day_difference y1 m1 d1 y2 m2 d2 = Some k"
  shows "k = day_difference_exact y1 m1 d1 y2 m2 d2 \<and> in_int64 k"
  using assms unfolding day_difference_def day_difference_exact_def Let_def
  by (auto simp: bind_eq_Some_conv dest!: ymd_ord_Some split: if_splits)

lemma ymd_ord_cycle_bounds:
  assumes "valid_date a m d" and "- 400 < a" "a < 400"
  shows "- 865260 < ymd_ord_exact a m d" "ymd_ord_exact a m d < - 573066"
    and "ymd_ord a m d = Some (ymd_ord_exact a m d)"
proof -
  have m: "1 \<le> m" "m \<le> 12" and d: "1 \<le> d" "d \<le> 31"
    using assms(1) by (auto simp: valid_date_def month_length_def split: if_splits)
  have "ordinal 1970 1 1 = 719163" by (simp add: ordinal_def days_before_year_def)
  then have e: "ymd_ord_exact a m d = ordinal a m d - 719163" using ymd_ord_correct [OF m] by simp
  have "days_before_year (- 399) \<le> days_before_year a"
    using days_before_year_mono [of "- 400" a] assms(2) by simp
  moreover have "days_before_year (a + 1) \<le> days_before_year 400"
    using days_before_year_mono [of a 400] assms(3) by simp
  ultimately show "- 865260 < ymd_ord_exact a m d" "ymd_ord_exact a m d < - 573066"
    using ordinal_year_bounds [OF assms(1)] by (simp_all add: e days_before_year_def)
  show "ymd_ord a m d = Some (ymd_ord_exact a m d)"
    by (rule ymd_ord_ok) (use assms(2,3) m d in simp_all)
qed

lemma day_difference_ok:
  assumes "valid_date y1 m1 d1" "valid_date y2 m2 d2" and "in_int64 y1" "in_int64 y2"
    and "in_int64 (ordinal y1 m1 d1 - ordinal y2 m2 d2)"
  shows "day_difference y1 m1 d1 y2 m2 d2 \<noteq> None"
proof -
  define q1 q2 where "q1 = y1 sdiv 400" and "q2 = y2 sdiv 400"
  define a b where "a = y1 smod 400" and "b = y2 smod 400"
  have y: "y1 = a + 400 * q1" "y2 = b + 400 * q2"
    using sdiv_mult_smod_eq [of y1 400] sdiv_mult_smod_eq [of y2 400]
    by (simp_all add: q1_def q2_def a_def b_def)
  have ab: "- 400 < a" "a < 400" "- 400 < b" "b < 400" by (auto simp: a_def b_def trunc_simps)
  have v: "valid_date a m1 d1" "valid_date b m2 d2"
    using assms(1,2) by (simp_all add: y valid_date_def month_length_400)
  note o1 = ymd_ord_cycle_bounds [OF v(1) ab(1,2)] and o2 = ymd_ord_cycle_bounds [OF v(2) ab(3,4)]
  define q \<delta> where "q = q1 - q2" and "\<delta> = ymd_ord_exact a m1 d1 - ymd_ord_exact b m2 d2"
  have \<delta>: "- 292194 < \<delta>" "\<delta> < 292194" using o1 o2 by (simp_all add: \<delta>_def)
  have "ordinal y1 m1 d1 - ordinal y2 m2 d2 = q * 146097 + \<delta>"
    using v by (simp add: y ordinal_400 ymd_ord_correct valid_date_def q_def \<delta>_def)
  with assms(5) have k: "in_int64 (q * 146097 + \<delta>)" by simp
  have y12: "in_int64 (y1 - a)" "in_int64 (y2 - b)"
    using assms(3,4) unfolding a_def b_def by (auto simp: range_simps trunc_simps)
  have c4: "y1 - a - (y2 - b) = 400 * q" using y by (simp add: q_def)
  have e: "400 * q - 2 * 400 = 400 * (q - 2)" "400 * q + 2 * 400 = 400 * (q + 2)" by simp_all
  have r: "in_int64 (400 * q)" "in_int64 \<delta>" using k \<delta> by (auto simp: range_simps)
  have "\<exists>k. (if 400 * q > 0 \<and> \<delta> < 0 then
            do { delta \<leftarrow> chk64 (\<delta> + 2 * 146097); c4_diff \<leftarrow> chk64 (400 * (q - 2)); Some (delta, c4_diff) }
          else if 400 * q < 0 \<and> \<delta> > 0 then
            do { delta \<leftarrow> chk64 (\<delta> - 2 * 146097); c4_diff \<leftarrow> chk64 (400 * (q + 2)); Some (delta, c4_diff) }
          else Some (\<delta>, 400 * q)) \<bind> (\<lambda>(delta, c4). do { p \<leftarrow> chk64 (c4 sdiv 400 * 146097); chk64 (p + delta) }) = Some k"
    using k \<delta> sdiv_exact [of 400 "q + 2"] sdiv_exact [of 400 "q - 2"] sdiv_exact [of 400 q]
    by (auto simp: range_simps)
  then show ?thesis
    unfolding day_difference_def Let_def a_def [symmetric] b_def [symmetric]
    by (simp only: y12 chk64_eq bind.bind_lunit c4 r o1(3) o2(3) \<delta>_def [symmetric] e) auto
qed

lemma day_difference64:
  assumes "valid_date y1 m1 d1" "valid_date y2 m2 d2" and "in_int64 y1" "in_int64 y2"
  shows "day_difference y1 m1 d1 y2 m2 d2 = chk64 (ordinal y1 m1 d1 - ordinal y2 m2 d2)"
proof -
  have "day_difference_exact y1 m1 d1 y2 m2 d2 = ordinal y1 m1 d1 - ordinal y2 m2 d2"
    using assms(1,2) by (intro day_difference_correct) (simp_all add: valid_date_def)
  with day_difference_Some [of y1 m1 d1 y2 m2 d2] day_difference_ok [OF assms] show ?thesis
    by (cases "day_difference y1 m1 d1 y2 m2 d2") (auto simp: chk64_def)
qed

lemma scale_add_diff:
  assumes "f \<in> {12, 24, 60}" and "- f < u - w" and "u - w < f"
  shows "do { v \<leftarrow> chk64 (V - W); scale_add v f (u - w) } = chk64 ((V * f + u) - (W * f + w))"
proof -
  have "(V - W) * f + (u - w) = (V * f + u) - (W * f + w)" by (simp add: left_diff_distrib)
  with scale_add64 [OF assms, of "V - W"] show ?thesis by (simp only:)
qed

lemma difference64:
  assumes "civil64 S f1" and "civil64 S' f2"
  shows "difference T f1 f2 = chk64 (unit_count T f1 - unit_count T f2)"
proof -
  note f = fields64(2-11) [OF assms(1)] and g = fields64(2-11) [OF assms(2)]
  have v: "valid_date (f_y f1) (f_m f1) (f_d f1)" "valid_date (f_y f2) (f_m f2) (f_d f2)"
    using assms by (simp_all add: civil64_def civil_ok_def valid_fields_def)
  have day: "difference day_tag f1 f2 = chk64 (unit_count day_tag f1 - unit_count day_tag f2)"
    using day_difference64 [OF v fields64(1) [OF assms(1)] fields64(1) [OF assms(2)]] by simp
  have hour: "difference hour_tag f1 f2 = chk64 (unit_count hour_tag f1 - unit_count hour_tag f2)"
    unfolding difference.simps(4) day unit_count.simps by (rule scale_add_diff) (use f g in simp_all)
  have minute: "difference minute_tag f1 f2 = chk64 (unit_count minute_tag f1 - unit_count minute_tag f2)"
    unfolding difference.simps(5) hour unit_count.simps by (rule scale_add_diff) (use f g in simp_all)
  have second: "difference second_tag f1 f2 = chk64 (unit_count second_tag f1 - unit_count second_tag f2)"
    unfolding difference.simps(6) minute unit_count.simps seconds_of_def by (rule scale_add_diff) (use f g in simp_all)
  have month: "difference month_tag f1 f2 = chk64 (unit_count month_tag f1 - unit_count month_tag f2)"
    unfolding difference.simps(2,1) unit_count.simps by (rule scale_add_diff) (use f g in simp_all)
  show ?thesis using day hour minute second month by (cases T) (simp_all del: difference.simps unit_count.simps, simp)
qed

subsection \<open>The class template\<close>

lemma civil_plus_iff:
  assumes "civil64 T a" and "in_int64 n"
  shows "civil_plus T a n = Some b \<longleftrightarrow> civil64 T b \<and> unit_count T b = unit_count T a + n"
proof -
  let ?g = "step_exact T a n"
  have a: "civil_ok T a" using assms by (simp add: civil64_def)
  note g = step_ok [OF a, of n]
  then have "align T ?g = ?g" by (simp add: civil_ok_def)
  then have "civil_plus T a n = Some b \<longleftrightarrow> in_int64 (f_y ?g) \<and> b = ?g"
    by (auto simp: civil_plus_def step_ok64 [OF assms] chk_year_def)
  then show ?thesis using g unit_count_inject [of T b ?g] by (auto simp: civil64_def)
qed

lemma unit_count_mono:
  assumes "civil_ok T a" "civil_ok T b" and "f_y a < f_y b"
  shows "unit_count T a < unit_count T b"
proof -
  have "seconds_of a < seconds_of b"
    using assms civil_less_seconds [of a b] civil_okD(1) by (simp add: civil_less_def)
  note less = this
  show ?thesis
  proof (cases "T = month_tag \<or> T = year_tag")
    case True
    with civil_okD(3,4) [OF assms(1)] civil_okD(3,4) [OF assms(2)] assms(3) show ?thesis by auto
  next
    case False
    with less unit_count_seconds [OF assms(1)] unit_count_seconds [OF assms(2)] show ?thesis
      by (cases T) (simp_all del: unit_count.simps)
  qed
qed

text \<open>
  Subtraction avoids negating the least 64-bit integer by taking two steps; the time between them is in range whenever
  the result is.
\<close>

lemma civil_minus_iff:
  assumes "civil64 T a" and "in_int64 n"
  shows "civil_minus T a n = Some b \<longleftrightarrow> civil64 T b \<and> unit_count T b = unit_count T a - n"
proof (cases "n = int64_min")
  case False
  then have "in_int64 (- n)" using assms(2) by (auto simp: range_simps)
  from civil_plus_iff [OF assms(1) this] False show ?thesis by (simp add: civil_minus_def civil_plus_def)
next
  case True
  let ?c = "step_exact T a int64_max"
  have ok: "civil_ok T a" using assms by (simp add: civil64_def)
  have i: "in_int64 int64_max" "in_int64 1" by (simp_all add: range_simps)
  note c = step_ok [OF ok, of int64_max]
  have e: "civil_minus T a n = chk_year ?c \<bind> (\<lambda>c. civil_plus T c 1)"
    by (simp add: True civil_minus_def civil_plus_def step_ok64 [OF assms(1) i(1)])
  show ?thesis
  proof (cases "in_int64 (f_y ?c)")
    case in_range: True
    with c have "civil64 T ?c" by (simp add: civil64_def)
    from civil_plus_iff [OF this i(2)] in_range c show ?thesis unfolding e by (simp add: chk_year_def True add.commute)
  next
    case False
    have "\<not> (civil64 T b \<and> unit_count T b = unit_count T a - n)"
    proof
      assume b: "civil64 T b \<and> unit_count T b = unit_count T a - n"
      then have "\<not> f_y ?c < f_y a" "\<not> f_y b < f_y ?c"
        using unit_count_mono [of T ?c a] unit_count_mono [of T b ?c] c ok by (auto simp: True civil64_def)
      with False assms(1) b show False by (auto simp: civil64_def range_simps)
    qed
    with False show ?thesis unfolding e by (simp add: chk_year_def)
  qed
qed

text \<open>
  What addition and difference of a type of times promise each other, with values that count units and numbers that
  fit the difference type.
\<close>

locale unit_arith =
  fixes ok :: "'a \<Rightarrow> bool" and num :: "int \<Rightarrow> bool" and count :: "'a \<Rightarrow> int"
    and add :: "'a \<Rightarrow> int \<Rightarrow> 'a option" and diff :: "'a \<Rightarrow> 'a \<Rightarrow> int option"
  assumes add_iff: "ok a \<Longrightarrow> num n \<Longrightarrow> add a n = Some b \<longleftrightarrow> ok b \<and> count b = count a + n"
    and diff_iff: "ok a \<Longrightarrow> ok b \<Longrightarrow> diff a b = Some k \<longleftrightarrow> num k \<and> k = count a - count b"
begin

lemma diff_add: "ok a \<Longrightarrow> num n \<Longrightarrow> add a n = Some b \<Longrightarrow> diff b a = Some n"
  by (simp add: add_iff diff_iff)

lemma add_diff: "ok a \<Longrightarrow> ok b \<Longrightarrow> diff b a = Some n \<Longrightarrow> add a n = Some b"
  by (metis add_iff diff_iff add.commute diff_add_cancel)

lemma add_add:
  assumes "ok a" "num m" "num n" "num (m + n)" "add a m = Some b"
  shows "add b n = add a (m + n)"
proof -
  have "add b n = Some c \<longleftrightarrow> add a (m + n) = Some c" for c
    using assms(5) unfolding add_iff [OF assms(1,2)] add_iff [OF assms(1,4)]
    using add_iff [of b n c] assms(3) by (simp add: add.assoc)
  then show ?thesis by (metis option.exhaust)
qed

end

interpretation civil: unit_arith "civil64 T" in_int64 "unit_count T" "civil_plus T" "civil_diff T" for T
  by unfold_locales (auto simp: civil_plus_iff civil_diff_def difference64)

lemma get_weekday_count:
  assumes "civil64 day_tag cd" "civil64 day_tag b" and "unit_count day_tag b = unit_count day_tag cd + n"
  shows "weekday_number (get_weekday b) = (weekday_number (get_weekday cd) + n) mod 7"
proof -
  have "valid_fields cd" "valid_fields b" using assms(1,2) by (simp_all add: civil64_def civil_ok_def)
  then have "weekday_number (get_weekday b) = (unit_count day_tag cd - 1 + n) mod 7"
    "weekday_number (get_weekday cd) = (unit_count day_tag cd - 1) mod 7"
    using get_weekday_lemma [of b] get_weekday_lemma [of cd] assms(3) by (simp_all add: algebra_simps)
  then show ?thesis by (simp only: mod_add_left_eq)
qed

lemma mod_7_inject:
  fixes a j k :: int
  assumes "(a + j) mod 7 = (a + k) mod 7" and "j \<in> {1..7}" "k \<in> {1..7}"
  shows "j = k"
proof -
  have "7 dvd (a + j) - (a + k)" using assms(1) by (simp only: mod_eq_dvd_iff)
  then obtain q where "j - k = 7 * q" by (auto elim: dvdE)
  with assms(2,3) show ?thesis by (simp; presburger)
qed

text \<open>
  \<^verbatim>\<open>next_weekday\<close> and \<^verbatim>\<open>prev_weekday\<close> never read past their tables; they return the closest
  day strictly after (strictly before) the given one that falls on the requested weekday, if its year fits.
\<close>

lemma next_weekday_iff:
  assumes "civil64 day_tag cd"
  shows "next_weekday cd wd = Some b \<longleftrightarrow>
    civil64 day_tag b \<and> get_weekday b = wd \<and> unit_count day_tag b - unit_count day_tag cd \<in> {1..7}"
proof -
  obtain k where k: "weekday_gap k_weekdays_forw (get_weekday cd) wd = Some k" "1 \<le> k" "k \<le> 7"
    "(weekday_number (get_weekday cd) + k) mod 7 = weekday_number wd" by (rule weekday_gap_forw)
  have "in_int64 k" using k by (simp add: range_simps)
  note p = civil_plus_iff [OF assms this]
  have "next_weekday cd wd = Some b \<longleftrightarrow> civil64 day_tag b \<and> unit_count day_tag b = unit_count day_tag cd + k"
    by (simp only: next_weekday_def k(1) bind.bind_lunit p)
  moreover have "unit_count day_tag b = unit_count day_tag cd + k \<longleftrightarrow>
      get_weekday b = wd \<and> unit_count day_tag b - unit_count day_tag cd \<in> {1..7}" if b: "civil64 day_tag b"
  proof (intro iffI)
    assume c: "unit_count day_tag b = unit_count day_tag cd + k"
    from get_weekday_count [OF assms b c] k(4) weekday_number_inject have "get_weekday b = wd" by simp
    then show "get_weekday b = wd \<and> unit_count day_tag b - unit_count day_tag cd \<in> {1..7}" using c k by simp
  next
    assume a: "get_weekday b = wd \<and> unit_count day_tag b - unit_count day_tag cd \<in> {1..7}"
    let ?j = "unit_count day_tag b - unit_count day_tag cd"
    have "(weekday_number (get_weekday cd) + ?j) mod 7 = (weekday_number (get_weekday cd) + k) mod 7"
      using get_weekday_count [OF assms b, of ?j] a k(4) by (simp del: unit_count.simps)
    from mod_7_inject [OF this] a k have "?j = k" by (simp del: unit_count.simps)
    then show "unit_count day_tag b = unit_count day_tag cd + k" by linarith
  qed
  ultimately show ?thesis by blast
qed

lemma prev_weekday_iff:
  assumes "civil64 day_tag cd"
  shows "prev_weekday cd wd = Some b \<longleftrightarrow>
    civil64 day_tag b \<and> get_weekday b = wd \<and> unit_count day_tag cd - unit_count day_tag b \<in> {1..7}"
proof -
  obtain k where k: "weekday_gap k_weekdays_back (get_weekday cd) wd = Some k" "1 \<le> k" "k \<le> 7"
    "(weekday_number (get_weekday cd) - k) mod 7 = weekday_number wd" by (rule weekday_gap_back)
  have "in_int64 k" using k by (simp add: range_simps)
  note p = civil_minus_iff [OF assms this]
  have "prev_weekday cd wd = Some b \<longleftrightarrow> civil64 day_tag b \<and> unit_count day_tag b = unit_count day_tag cd - k"
    by (simp only: prev_weekday_def k(1) bind.bind_lunit p)
  moreover have "unit_count day_tag b = unit_count day_tag cd - k \<longleftrightarrow>
      get_weekday b = wd \<and> unit_count day_tag cd - unit_count day_tag b \<in> {1..7}" if b: "civil64 day_tag b"
  proof (intro iffI)
    assume c: "unit_count day_tag b = unit_count day_tag cd - k"
    from get_weekday_count [OF assms b, of "- k"] c k(4) weekday_number_inject have "get_weekday b = wd" by simp
    then show "get_weekday b = wd \<and> unit_count day_tag cd - unit_count day_tag b \<in> {1..7}" using c k by simp
  next
    assume a: "get_weekday b = wd \<and> unit_count day_tag cd - unit_count day_tag b \<in> {1..7}"
    let ?j = "unit_count day_tag cd - unit_count day_tag b"
    have "(weekday_number (get_weekday b) + ?j) mod 7 = weekday_number (get_weekday cd)"
      using get_weekday_count [OF b assms, of ?j] by (simp del: unit_count.simps)
    moreover have "(weekday_number wd + k) mod 7 = weekday_number (get_weekday cd) mod 7"
      unfolding k(4) [symmetric] by (simp add: mod_simps)
    moreover have "weekday_number (get_weekday cd) mod 7 = weekday_number (get_weekday cd)"
      by (cases "get_weekday cd") simp_all
    ultimately have "(weekday_number wd + ?j) mod 7 = (weekday_number wd + k) mod 7"
      using a by (simp del: unit_count.simps)
    from mod_7_inject [OF this] a k have "?j = k" by (simp del: unit_count.simps)
    then show "unit_count day_tag b = unit_count day_tag cd - k" by linarith
  qed
  ultimately show ?thesis by blast
qed

section \<open>Properties\<close>

text \<open>
  C5: the constructor \<open>civil_time<T>(y, m, d, hh, mm, ss)\<close> accepts any six 64-bit integers. With
  second alignment it returns exactly the date that exists in the proleptic Gregorian calendar, with a time of
  day in range, that lies as many seconds after the calendar's origin as the arguments say: months carry into
  years, and days, hours, minutes and seconds of any sign count from the first of that month. It overflows only when
  the year of that date does not fit 64 bits, or the year does not fit once the whole years in the months are
  added to it.
\<close>

theorem civil_second_normalizes:
  assumes "in_int64 y" "in_int64 m" "in_int64 d" "in_int64 hh" "in_int64 mm" "in_int64 ss"
  shows "civil_time second_tag y m d hh mm ss = Some f \<longleftrightarrow>
    month_carry_ok y m \<and> valid_fields f \<and> in_int64 (f_y f) \<and> seconds_of f = raw_seconds y m d hh mm ss"
proof -
  let ?g = "n_sec_exact y m d hh mm ss"
  have "civil_time second_tag y m d hh mm ss = Some f \<longleftrightarrow> month_carry_ok y m \<and> in_int64 (f_y ?g) \<and> f = ?g"
    using chk_month_Some [of y m ?g] by (auto simp: civil_time_def n_sec_ok [OF assms] align.simps)
  then show ?thesis using n_sec_correct_lemma [of y m d hh mm ss ?g] seconds_of_inject [of f ?g] by auto
qed

theorem civil_second_normalizes_witness:
  "civil_time second_tag 2024 14 0 0 0 (-1) = Some \<lparr>f_y = 2025, f_m = 1, f_d = 30, f_hh = 23, f_mm = 59, f_ss = 59\<rparr>"
  by (subst civil_second_normalizes)
    (simp_all add: range_simps month_carry_ok_def valid_fields_def valid_date_def month_length_def seconds_of_def
      raw_seconds_def month_ordinal_def ordinal_def days_before_year_def days_before_month_numerals)

text \<open>
  C6: at every alignment and for every 64-bit number of units, adding \<open>n\<close> units to a civil time, or taking them away, gives exactly the
  aligned time that many units later or earlier, and overflows only when its year does not fit 64 bits; this
  includes taking away the least 64-bit integer. The difference of two times is the number of units between
  them, and overflows only when that number does not fit. So \<open>(a + n) - a = n\<close>, \<open>a + (b - a) = b\<close> and
  \<open>(a + n) - n = a\<close>, and sums compose.
\<close>

theorem civil_arithmetic_inverse:
  assumes "civil64 T a" "civil64 T b" and "in_int64 n" "in_int64 k"
  shows "(civil_plus T a n = Some c \<longleftrightarrow> civil64 T c \<and> unit_count T c = unit_count T a + n) \<and>
    (civil_minus T a n = Some c \<longleftrightarrow> civil64 T c \<and> unit_count T c = unit_count T a - n) \<and>
    (civil_diff T a b = Some k \<longleftrightarrow> k = unit_count T a - unit_count T b) \<and>
    (civil_diff T a b = None \<longleftrightarrow> \<not> in_int64 (unit_count T a - unit_count T b)) \<and>
    (civil_plus T a n = Some c \<longrightarrow> civil_diff T c a = Some n \<and> civil_minus T c n = Some a \<and>
      (in_int64 (n + k) \<longrightarrow> civil_plus T c k = civil_plus T a (n + k))) \<and>
    (civil_diff T b a = Some k \<longrightarrow> civil_plus T a k = Some b)"
proof (intro conjI impI)
  assume c: "civil_plus T a n = Some c"
  then show "civil_diff T c a = Some n" using civil.diff_add assms by blast
  have ok: "civil64 T c" "unit_count T c = unit_count T a + n" using c civil_plus_iff [OF assms(1,3)] by simp_all
  then show "civil_minus T c n = Some a" using civil_minus_iff [OF ok(1) assms(3)] assms(1) by simp
  show "civil_plus T c k = civil_plus T a (n + k)" if "in_int64 (n + k)" by (rule civil.add_add) fact+
next
  show "civil_diff T a b = None \<longleftrightarrow> \<not> in_int64 (unit_count T a - unit_count T b)"
    using difference64 [OF assms(1,2), of T] by (simp add: civil_diff_def chk64_def)
  show "civil_diff T b a = Some k \<Longrightarrow> civil_plus T a k = Some b" using civil.add_diff assms(1,2) by blast
qed (use assms civil_plus_iff civil_minus_iff civil.diff_iff in \<open>simp_all del: unit_count.simps\<close>)

theorem civil_arithmetic_inverse_witness:
  "civil_minus year_tag \<lparr>f_y = - 9, f_m = 1, f_d = 1, f_hh = 0, f_mm = 0, f_ss = 0\<rparr> int64_min =
     Some \<lparr>f_y = 9223372036854775799, f_m = 1, f_d = 1, f_hh = 0, f_mm = 0, f_ss = 0\<rparr>"
proof -
  let ?a = "\<lparr>f_y = - 9, f_m = 1, f_d = 1, f_hh = 0, f_mm = 0, f_ss = 0\<rparr>"
  have "civil64 year_tag ?a" "in_int64 int64_min"
    by (simp_all add: civil64_def civil_ok_simps valid_fields_def valid_date_def month_length_def range_simps)
  from civil_arithmetic_inverse [OF this(1,1,2,2)] show ?thesis
    by (simp add: civil64_def civil_ok_simps valid_fields_def valid_date_def month_length_def range_simps)
qed

text \<open>
  C7: comparing two civil times field by field, as \<^verbatim>\<open>operator<\<close> does, is comparing the instants
  they stand for, and \<^verbatim>\<open>operator==\<close> identifies exactly the times that are the same instant.
\<close>

theorem civil_order_is_time_order:
  assumes "valid_fields f" and "valid_fields g"
  shows "(civil_less f g \<longleftrightarrow> seconds_of f < seconds_of g) \<and>
    (civil_eq f g \<longleftrightarrow> seconds_of f = seconds_of g)"
  using civil_less_iff [OF assms] seconds_of_inject [OF assms] civil_eq_iff [of f g] by blast

theorem civil_order_is_time_order_witness:
  "seconds_of \<lparr>f_y = 1999, f_m = 12, f_d = 31, f_hh = 23, f_mm = 59, f_ss = 59\<rparr> <
   seconds_of \<lparr>f_y = 2000, f_m = 1, f_d = 1, f_hh = 0, f_mm = 0, f_ss = 0\<rparr>"
  using civil_order_is_time_order [of "\<lparr>f_y = 1999, f_m = 12, f_d = 31, f_hh = 23, f_mm = 59, f_ss = 59\<rparr>"
      "\<lparr>f_y = 2000, f_m = 1, f_d = 1, f_hh = 0, f_mm = 0, f_ss = 0\<rparr>"]
  by (simp add: valid_fields_def valid_date_def month_length_def civil_less_def)

text \<open>
  C8: the difference of two civil days of any 64-bit years, computed through the 400-year cycle, is the number of
  days between the two dates, and overflows only when that number does not fit 64 bits, however extreme the years are.
  \<^verbatim>\<open>ymd_ord\<close> by itself is the number of days since 1970-01-01 whenever it does not overflow, and it does
  not for years up to 25252734927000000 in magnitude, far beyond the range [-292277022656:292277026595] its comment gives;
  from 25252734928000000 on it does.
\<close>

theorem day_difference_counts_days:
  assumes "valid_date y1 m1 d1" and "valid_date y2 m2 d2" and "in_int64 y1" "in_int64 y2"
  shows "(day_difference y1 m1 d1 y2 m2 d2 = Some k \<longleftrightarrow>
      in_int64 k \<and> k = ordinal y1 m1 d1 - ordinal y2 m2 d2) \<and>
    (ymd_ord y1 m1 d1 = Some k \<longrightarrow> k = ordinal y1 m1 d1 - ordinal 1970 1 1) \<and>
    (\<bar>y1\<bar> \<le> 25252734927000000 \<longrightarrow> ymd_ord y1 m1 d1 = Some (ordinal y1 m1 d1 - ordinal 1970 1 1)) \<and>
    (25252734928000000 \<le> \<bar>y1\<bar> \<longrightarrow> ymd_ord y1 m1 d1 = None)"
proof -
  have m: "1 \<le> m1" "m1 \<le> 12" and d: "1 \<le> d1" "d1 \<le> 31"
    using assms(1) by (auto simp: valid_date_def month_length_def split: if_splits)
  note e = ymd_ord_correct [OF m]
  have "\<bar>y1\<bar> \<le> 25252734927000000 \<longrightarrow> ymd_ord y1 m1 d1 = Some (ordinal y1 m1 d1 - ordinal 1970 1 1)"
    using ymd_ord_ok [OF _ _ m d, of y1] by (simp add: abs_le_iff e)
  moreover have "25252734928000000 \<le> \<bar>y1\<bar> \<longrightarrow> ymd_ord y1 m1 d1 = None"
    by (intro impI ymd_ord_overflow m d) arith
  ultimately show ?thesis
    using day_difference64 [OF assms] ymd_ord_Some [of y1 m1 d1 k] by (auto simp: e)
qed

theorem day_difference_counts_days_witness:
  "day_difference int64_max 12 31 int64_max 1 1 = Some 364"
proof -
  have v: "valid_date int64_max 12 31" "valid_date int64_max 1 1"
    by (simp_all add: valid_date_def month_length_def)
  have "ordinal int64_max 12 31 - ordinal int64_max 1 1 = 364"
    by (simp add: ordinal_def days_before_month_numerals leap_def)
  with day_difference_counts_days [OF v, of 364] show ?thesis by (simp add: range_simps)
qed

text \<open>
  C9: \<^verbatim>\<open>get_weekday\<close> is the weekday of the date in the uninterrupted seven-day cycle in which
  0001-01-01 is a Monday, and \<^verbatim>\<open>get_yearday\<close> is the ordinal of the date within its year.
\<close>

theorem weekday_and_yearday:
  assumes "valid_fields f"
  shows "weekday_number (get_weekday f) = (ordinal (f_y f) (f_m f) (f_d f) - 1) mod 7 \<and>
    get_yearday f = ordinal (f_y f) (f_m f) (f_d f) - ordinal (f_y f) 1 1 + 1"
proof -
  have m: "1 \<le> f_m f" "f_m f \<le> 12" using assms by (simp_all add: valid_fields_def valid_date_def)
  have "get_yearday f = days_before_month (f_y f) (f_m f) + f_d f"
    using m by (cases "f_m f" rule: month_cases)
      (simp_all add: get_yearday_def k_month_offsets_def is_leap_year_eq days_before_month_numerals)
  then show ?thesis using get_weekday_lemma [OF assms] by (simp add: ordinal_def)
qed

theorem weekday_and_yearday_witness:
  "weekday_number (get_weekday \<lparr>f_y = 2026, f_m = 11, f_d = 15, f_hh = 0, f_mm = 0, f_ss = 0\<rparr>) = 6"
  using weekday_and_yearday [of "\<lparr>f_y = 2026, f_m = 11, f_d = 15, f_hh = 0, f_mm = 0, f_ss = 0\<rparr>"]
  by (simp add: valid_fields_def valid_date_def month_length_def ordinal_def days_before_year_def
      days_before_month_numerals leap_def)

section \<open>Extreme values\<close>

text \<open>
  The maximum and minimum civil times are the first and the last instant of the representable years.
\<close>

lemma civil_limits:
  "civil_max second_tag = Some \<lparr>f_y = int64_max, f_m = 12, f_d = 31, f_hh = 23, f_mm = 59, f_ss = 59\<rparr>"
  "civil_min second_tag = Some \<lparr>f_y = int64_min, f_m = 1, f_d = 1, f_hh = 0, f_mm = 0, f_ss = 0\<rparr>"
proof -
  have "n_sec_exact int64_max 12 31 23 59 59 = \<lparr>f_y = int64_max, f_m = 12, f_d = 31, f_hh = 23, f_mm = 59, f_ss = 59\<rparr>"
    by (rule seconds_of_inject)
      (use n_sec_correct_lemma [OF refl, of int64_max 12 31 23 59 59] in \<open>simp_all add: valid_fields_def valid_date_def
        month_length_def seconds_of_def raw_seconds_def month_ordinal_def\<close>)
  then show "civil_max second_tag = Some \<lparr>f_y = int64_max, f_m = 12, f_d = 31, f_hh = 23, f_mm = 59, f_ss = 59\<rparr>"
    by (simp add: civil_max_def civil_time_def n_sec_ok range_simps chk_month_def month_carry_ok_def chk_year_def align.simps)
  show "civil_min second_tag = Some \<lparr>f_y = int64_min, f_m = 1, f_d = 1, f_hh = 0, f_mm = 0, f_ss = 0\<rparr>"
    by (simp add: civil_min_def civil_time_def n_sec_def cast8_id align.simps)
qed

text \<open>
  \<^verbatim>\<open>n_mon\<close> special-cases month 12 only. The month 24 of the year before the last names December of the last
  representable year, but the sum of the year and the two whole years in the months overflows before one is taken off again.
\<close>

lemma month_carry_overflow:
  "civil_time month_tag (int64_max - 1) 24 1 0 0 0 = None"
  "raw_seconds (int64_max - 1) 24 1 0 0 0 = seconds_of \<lparr>f_y = int64_max, f_m = 12, f_d = 1, f_hh = 0, f_mm = 0, f_ss = 0\<rparr>"
  by (simp_all add: civil_time_def n_sec_ok range_simps chk_month_def month_carry_ok_def raw_seconds_def
      month_ordinal_def seconds_of_def)

end
