(* ===== verification/Bits.thy ===== *)
theory Bits
  imports Abseil_Prelude
begin

unbundle bit_operations_syntax

text \<open>
  Bit manipulation on unsigned integers: \<^verbatim>\<open>absl/numeric/bits.h\<close> and the portable branches of
  \<^verbatim>\<open>absl/numeric/internal/bits.h\<close> (those taken when no compiler builtin is available). An
  unsigned type of \<open>n\<close> bits is an \<open>n\<close>-bit word; the result type \<^verbatim>\<open>int\<close> is \<^typ>\<open>int\<close>.
\<close>

section \<open>Rotation\<close>

definition RotateRight :: "'a::len word \<Rightarrow> int \<Rightarrow> 'a word" where
  "RotateRight x s =
     (let n = int LENGTH('a);
          r = s AND (n - 1)
      in if r = 0 then x else drop_bit (nat r) x OR push_bit (nat (n - r)) x)"

definition RotateLeft :: "'a::len word \<Rightarrow> int \<Rightarrow> 'a word" where
  "RotateLeft x s =
     (let n = int LENGTH('a);
          r = s AND (n - 1)
      in if r = 0 then x else push_bit (nat r) x OR drop_bit (nat (n - r)) x)"

definition rotl :: "'a::len word \<Rightarrow> int \<Rightarrow> 'a word" where
  "rotl x s = RotateLeft x s"

definition rotr :: "'a::len word \<Rightarrow> int \<Rightarrow> 'a word" where
  "rotr x s = RotateRight x s"

section \<open>Leading zeroes\<close>

text \<open>The table \<^verbatim>\<open>"\4\3\2\2\1\1\1\1\0\0\0\0\0\0\0"\<close>, with the terminating NUL of the literal.\<close>

definition clz_nibble_table :: "int list" where
  "clz_nibble_table = [4, 3, 2, 2, 1, 1, 1, 1, 0, 0, 0, 0, 0, 0, 0, 0]"

definition CountLeadingZeroes32 :: "32 word \<Rightarrow> int" where
  "CountLeadingZeroes32 x =
     (let zeroes = 28;
          (zeroes, x) = (if drop_bit 16 x \<noteq> 0 then (zeroes - 16, drop_bit 16 x) else (zeroes, x));
          (zeroes, x) = (if drop_bit 8 x \<noteq> 0 then (zeroes - 8, drop_bit 8 x) else (zeroes, x));
          (zeroes, x) = (if drop_bit 4 x \<noteq> 0 then (zeroes - 4, drop_bit 4 x) else (zeroes, x))
      in clz_nibble_table ! unat x + zeroes)"

definition CountLeadingZeroes16 :: "16 word \<Rightarrow> int" where
  "CountLeadingZeroes16 x = CountLeadingZeroes32 (ucast x) - 16"

definition CountLeadingZeroes64 :: "64 word \<Rightarrow> int" where
  "CountLeadingZeroes64 x =
     (let zeroes = 60;
          (zeroes, x) = (if drop_bit 32 x \<noteq> 0 then (zeroes - 32, drop_bit 32 x) else (zeroes, x));
          (zeroes, x) = (if drop_bit 16 x \<noteq> 0 then (zeroes - 16, drop_bit 16 x) else (zeroes, x));
          (zeroes, x) = (if drop_bit 8 x \<noteq> 0 then (zeroes - 8, drop_bit 8 x) else (zeroes, x));
          (zeroes, x) = (if drop_bit 4 x \<noteq> 0 then (zeroes - 4, drop_bit 4 x) else (zeroes, x))
      in clz_nibble_table ! unat x + zeroes)"

text \<open>The template, for \<open>T\<close> of at most 64 bits.\<close>

definition CountLeadingZeroes :: "'a::len word \<Rightarrow> int" where
  "CountLeadingZeroes x =
     (if LENGTH('a) \<le> 16 then CountLeadingZeroes16 (ucast x) - (16 - int LENGTH('a))
      else if LENGTH('a) \<le> 32 then CountLeadingZeroes32 (ucast x) - (32 - int LENGTH('a))
      else CountLeadingZeroes64 (ucast x))"

definition countl_zero :: "'a::len word \<Rightarrow> int" where
  "countl_zero x = CountLeadingZeroes x"

definition countl_one :: "'a::len word \<Rightarrow> int" where
  "countl_one x = countl_zero (NOT x)"

section \<open>Trailing zeroes\<close>

definition CountTrailingZeroesNonzero32 :: "32 word \<Rightarrow> int" where
  "CountTrailingZeroesNonzero32 x =
     (let c = 31;
          x = x AND (NOT x + 1);
          c = (if x AND 0x0000FFFF \<noteq> 0 then c - 16 else c);
          c = (if x AND 0x00FF00FF \<noteq> 0 then c - 8 else c);
          c = (if x AND 0x0F0F0F0F \<noteq> 0 then c - 4 else c);
          c = (if x AND 0x33333333 \<noteq> 0 then c - 2 else c);
          c = (if x AND 0x55555555 \<noteq> 0 then c - 1 else c)
      in c)"

definition CountTrailingZeroesNonzero64 :: "64 word \<Rightarrow> int" where
  "CountTrailingZeroesNonzero64 x =
     (let c = 63;
          x = x AND (NOT x + 1);
          c = (if x AND 0x00000000FFFFFFFF \<noteq> 0 then c - 32 else c);
          c = (if x AND 0x0000FFFF0000FFFF \<noteq> 0 then c - 16 else c);
          c = (if x AND 0x00FF00FF00FF00FF \<noteq> 0 then c - 8 else c);
          c = (if x AND 0x0F0F0F0F0F0F0F0F \<noteq> 0 then c - 4 else c);
          c = (if x AND 0x3333333333333333 \<noteq> 0 then c - 2 else c);
          c = (if x AND 0x5555555555555555 \<noteq> 0 then c - 1 else c)
      in c)"

definition CountTrailingZeroesNonzero16 :: "16 word \<Rightarrow> int" where
  "CountTrailingZeroesNonzero16 x = CountTrailingZeroesNonzero32 (ucast x)"

definition CountTrailingZeroes :: "'a::len word \<Rightarrow> int" where
  "CountTrailingZeroes x =
     (if x = 0 then int LENGTH('a)
      else if LENGTH('a) \<le> 16 then CountTrailingZeroesNonzero16 (ucast x)
      else if LENGTH('a) \<le> 32 then CountTrailingZeroesNonzero32 (ucast x)
      else CountTrailingZeroesNonzero64 (ucast x))"

definition countr_zero :: "'a::len word \<Rightarrow> int" where
  "countr_zero x = CountTrailingZeroes x"

definition countr_one :: "'a::len word \<Rightarrow> int" where
  "countr_one x = countr_zero (NOT x)"

section \<open>Powers of two\<close>

definition has_single_bit :: "'a::len word \<Rightarrow> bool" where
  "has_single_bit x \<longleftrightarrow> x \<noteq> 0 \<and> x AND (x - 1) = 0"

definition bit_width :: "'a::len word \<Rightarrow> int" where
  "bit_width x = int LENGTH('a) - countl_zero x"

definition bit_floor :: "'a::len word \<Rightarrow> 'a word" where
  "bit_floor x = (if x = 0 then 0 else push_bit (nat (bit_width x - 1)) 1)"

text \<open>
  \<^verbatim>\<open>BitCeilPromotionHelper(x, 0)\<close>: for a type at least as wide as \<^verbatim>\<open>unsigned\<close> nothing is promoted.
\<close>

definition BitCeilNonPowerOf2 :: "'a::len word \<Rightarrow> 'a word" where
  "BitCeilNonPowerOf2 x = push_bit (nat (int LENGTH('a) - CountLeadingZeroes x)) 1"

definition bit_ceil :: "'a::len word \<Rightarrow> 'a word" where
  "bit_ceil x =
     (if has_single_bit x then push_bit (nat (bit_width x - 1)) 1 else BitCeilNonPowerOf2 x)"

section \<open>Reference definitions\<close>

text \<open>The number of binary digits of a number, and its largest power-of-two divisor.\<close>

fun bit_length :: "nat \<Rightarrow> nat" where
  "bit_length n = (if n = 0 then 0 else Suc (bit_length (n div 2)))"

fun low_bit :: "nat \<Rightarrow> nat" where
  "low_bit n = (if n = 0 \<or> odd n then 0 else Suc (low_bit (n div 2)))"

declare bit_length.simps [simp del] low_bit.simps [simp del]

section \<open>Leading zeroes: the binary search finds the bit length\<close>

lemma bit_length_0 [simp]: "bit_length 0 = 0"
  by (simp add: bit_length.simps)

lemma bit_length_bounds: "0 < n \<Longrightarrow> 2 ^ (bit_length n - 1) \<le> n \<and> n < 2 ^ bit_length n"
proof (induction n rule: bit_length.induct)
  case (1 n)
  show ?case
  proof (cases "n div 2 = 0")
    case True
    with 1(2) have "n = 1" by simp
    then show ?thesis by (simp add: bit_length.simps)
  next
    case False
    with 1 have ih: "2 ^ (bit_length (n div 2) - 1) \<le> n div 2" "n div 2 < 2 ^ bit_length (n div 2)" by simp_all
    have "bit_length (n div 2) \<noteq> 0" using ih(2) False by (cases "bit_length (n div 2)") auto
    then obtain k where k: "bit_length (n div 2) = Suc k" by (cases "bit_length (n div 2)") auto
    have "bit_length n = Suc (Suc k)" using 1(2) k by (simp add: bit_length.simps [of n])
    moreover have "2 * 2 ^ k \<le> n" "n < 2 * (2 * 2 ^ k)" using ih k by simp_all
    ultimately show ?thesis by simp
  qed
qed

lemma bit_length_pos [simp]: "0 < n \<Longrightarrow> 0 < bit_length n"
  by (simp add: bit_length.simps)

lemma bit_length_unique:
  assumes "2 ^ k \<le> n" and "n < 2 ^ Suc k"
  shows "bit_length n = Suc k"
proof -
  have n: "0 < n" using assms(1) by (metis gr0I less_numeral_extra(3) not_less power_eq_0_iff zero_neq_numeral order_less_le_trans zero_less_numeral zero_less_power)
  from bit_length_bounds [OF n] have b: "2 ^ (bit_length n - 1) \<le> n" "n < 2 ^ bit_length n" by simp_all
  have "k < bit_length n"
    using assms(1) b(2) by (meson le_less_trans nat_power_less_imp_less power_less_imp_less_exp one_less_numeral_iff semiring_norm(76))
  moreover have "bit_length n - 1 < Suc k"
    using assms(2) b(1) by (meson le_less_trans power_less_imp_less_exp one_less_numeral_iff semiring_norm(76))
  ultimately show ?thesis by simp
qed

lemma bit_length_div:
  assumes "n div 2 ^ k \<noteq> 0"
  shows "bit_length n = bit_length (n div 2 ^ k) + k"
  using assms
proof (induction k arbitrary: n)
  case (Suc k)
  have e: "n div 2 ^ Suc k = n div 2 div 2 ^ k" by (simp add: div_mult2_eq)
  have "n \<noteq> 0" using Suc.prems by (metis div_0)
  then have "bit_length n = Suc (bit_length (n div 2))" by (subst bit_length.simps) simp
  with Suc.IH [of "n div 2"] Suc.prems show ?case unfolding e by simp
qed simp

lemma clz_nibble_table:
  assumes "n < 16"
  shows "clz_nibble_table ! n = 4 - int (bit_length n)"
proof -
  have "\<forall>n \<in> set [0..<16]. clz_nibble_table ! n = 4 - int (bit_length n)" by code_simp
  with assms show ?thesis by simp
qed

text \<open>One step of the search: the shift is undone by the count, and the value shrinks to \<open>k\<close> bits.\<close>

lemma clz_step:
  fixes x :: "'a::len word"
  assumes "(if drop_bit k x \<noteq> 0 then (z - c, drop_bit k x) else (z, x)) = (z', x')"
    and "c = int k" and "unat x < 2 ^ (k + k)"
  shows "z' - int (bit_length (unat x')) = z - int (bit_length (unat x)) \<and> unat x' < 2 ^ k"
proof (cases "unat x div 2 ^ k = 0")
  case True
  then have "unat x < 2 ^ k" by (simp add: div_eq_0_iff)
  moreover have "drop_bit k x = 0"
    using True by (metis unat_drop_bit_eq unsigned_0 unat_eq_zero drop_bit_eq_div)
  ultimately show ?thesis using assms(1) by simp
next
  case False
  have d: "unat (drop_bit k x) = unat x div 2 ^ k" unfolding unat_drop_bit_eq by (simp add: drop_bit_eq_div)
  then have "drop_bit k x \<noteq> 0" using False by (metis unsigned_0)
  then have e: "z' = z - int k" "x' = drop_bit k x" using assms(1,2) by auto
  have "unat x div 2 ^ k < 2 ^ k" using assms(3) by (simp add: less_mult_imp_div_less power_add)
  with e d bit_length_div [OF False] show ?thesis by simp
qed

lemma CountLeadingZeroes32_eq: "CountLeadingZeroes32 x = 32 - int (bit_length (unat x))"
proof -
  obtain z1 x1 where 1: "(if drop_bit 16 x \<noteq> 0 then (28 - 16 :: int, drop_bit 16 x) else (28, x)) = (z1, x1)" by fastforce
  obtain z2 x2 where 2: "(if drop_bit 8 x1 \<noteq> 0 then (z1 - 8, drop_bit 8 x1) else (z1, x1)) = (z2, x2)" by fastforce
  obtain z3 x3 where 3: "(if drop_bit 4 x2 \<noteq> 0 then (z2 - 4, drop_bit 4 x2) else (z2, x2)) = (z3, x3)" by fastforce
  have b0: "unat x < 2 ^ (16 + 16)" using unsigned_less [of x, where ?'a = nat] by simp
  note s1 = clz_step [OF 1 _ b0]
  note s2 = clz_step [OF 2] and s3 = clz_step [OF 3]
  have "CountLeadingZeroes32 x = clz_nibble_table ! unat x3 + z3"
    by (simp only: CountLeadingZeroes32_def Let_def 1 2 3 prod.case)
  then show ?thesis using s1 s2 s3 clz_nibble_table [of "unat x3"] by simp
qed

lemma CountLeadingZeroes64_eq: "CountLeadingZeroes64 x = 64 - int (bit_length (unat x))"
proof -
  obtain z0 x0 where 0: "(if drop_bit 32 x \<noteq> 0 then (60 - 32 :: int, drop_bit 32 x) else (60, x)) = (z0, x0)" by fastforce
  obtain z1 x1 where 1: "(if drop_bit 16 x0 \<noteq> 0 then (z0 - 16, drop_bit 16 x0) else (z0, x0)) = (z1, x1)" by fastforce
  obtain z2 x2 where 2: "(if drop_bit 8 x1 \<noteq> 0 then (z1 - 8, drop_bit 8 x1) else (z1, x1)) = (z2, x2)" by fastforce
  obtain z3 x3 where 3: "(if drop_bit 4 x2 \<noteq> 0 then (z2 - 4, drop_bit 4 x2) else (z2, x2)) = (z3, x3)" by fastforce
  have b0: "unat x < 2 ^ (32 + 32)" using unsigned_less [of x, where ?'a = nat] by simp
  note s0 = clz_step [OF 0 _ b0]
  note s1 = clz_step [OF 1] and s2 = clz_step [OF 2] and s3 = clz_step [OF 3]
  have "CountLeadingZeroes64 x = clz_nibble_table ! unat x3 + z3"
    by (simp only: CountLeadingZeroes64_def Let_def 0 1 2 3 prod.case)
  then show ?thesis using s0 s1 s2 s3 clz_nibble_table [of "unat x3"] by simp
qed

lemma unat_ucast_up:
  fixes x :: "'a::len word"
  assumes "LENGTH('a) \<le> LENGTH('b::len)"
  shows "unat (ucast x :: 'b word) = unat x"
proof -
  have "unat x < 2 ^ LENGTH('b)"
    using unsigned_less [of x, where ?'a = nat] assms by (meson less_le_trans one_le_numeral power_increasing)
  then show ?thesis by (simp add: unsigned_ucast_eq take_bit_nat_eq_self)
qed

lemma ucast_up_eq_0:
  fixes x :: "'a::len word"
  assumes "LENGTH('a) \<le> LENGTH('b::len)"
  shows "(ucast x :: 'b word) = 0 \<longleftrightarrow> x = 0"
  using unat_ucast_up [OF assms, of x] by (metis unat_eq_zero unsigned_0)

lemma countl_zero_eq:
  fixes x :: "'a::len word"
  assumes "LENGTH('a) \<le> 32 \<or> LENGTH('a) = 64"
  shows "countl_zero x = int LENGTH('a) - int (bit_length (unat x))"
  using assms unat_ucast_up [of x, where ?'b = 16] unat_ucast_up [of x, where ?'b = 32]
    unat_ucast_up [of x, where ?'b = 64]
  by (auto simp: countl_zero_def CountLeadingZeroes_def CountLeadingZeroes16_def
      CountLeadingZeroes32_eq CountLeadingZeroes64_eq unat_ucast_up [where ?'a = 16 and ?'b = 32]
      del: unsigned_ucast_eq)

section \<open>Trailing zeroes: isolating the lowest set bit\<close>

lemma low_bit_even: "0 < n \<Longrightarrow> even n \<Longrightarrow> low_bit n = Suc (low_bit (n div 2))"
  by (simp add: low_bit.simps [of n])

lemma low_bit_odd: "odd n \<Longrightarrow> low_bit n = 0"
  by (simp add: low_bit.simps)

lemma and_uminus_low_bit: "0 < n \<Longrightarrow> int n AND - int n = 2 ^ low_bit n"
proof (induction n rule: less_induct)
  case (less n)
  show ?case
  proof (cases "even n")
    case True
    then obtain a where a: "n = 2 * a" by (rule evenE)
    then have "0 < a" "a < n" using less.prems by simp_all
    then have "int a AND - int a = 2 ^ low_bit a" by (rule less.IH [rotated])
    moreover have "(- int n) div 2 = - int a" using a by simp
    then have "int n AND - int n = 2 * (int a AND - int a)"
      by (subst and_int_rec) (simp add: a)
    ultimately show ?thesis using low_bit_even [OF less.prems True] by (simp add: a)
  next
    case False
    then obtain a where a: "n = 2 * a + 1" by (rule oddE)
    have "(- int n) div 2 = NOT (int a)" by (simp add: a not_int_def)
    then have "int n AND - int n = 1"
      by (subst and_int_rec) (simp add: a)
    then show ?thesis by (simp add: low_bit_odd [OF False])
  qed
qed

lemma low_bit_dvd: "0 < n \<Longrightarrow> 2 ^ low_bit n dvd n \<and> \<not> 2 ^ Suc (low_bit n) dvd n"
proof (induction n rule: low_bit.induct)
  case (1 n)
  show ?case
  proof (cases "even n")
    case True
    then obtain a where a: "n = 2 * a" by (rule evenE)
    then have "2 ^ low_bit a dvd a \<and> \<not> 2 ^ Suc (low_bit a) dvd a" using 1 by simp
    then show ?thesis using low_bit_even [OF 1(2) True] a by (simp del: power_Suc add: power_Suc [of _ "Suc _"]) simp
  qed (simp add: low_bit_odd)
qed

lemma low_bit_less: "0 < n \<Longrightarrow> n < 2 ^ k \<Longrightarrow> low_bit n < k"
proof -
  assume n: "0 < n" "n < 2 ^ k"
  have "2 ^ low_bit n \<le> n" using low_bit_dvd [OF n(1)] n(1) by (simp add: dvd_imp_le)
  then have "(2::nat) ^ low_bit n < 2 ^ k" using n(2) by (rule le_less_trans)
  then show ?thesis by simp
qed

lemma isolate_low_bit:
  fixes x :: "'a::len word"
  assumes "x \<noteq> 0"
  shows "x AND (NOT x + 1) = 2 ^ low_bit (unat x)"
proof -
  have x: "x = word_of_int (int (unat x))" by simp
  have "x AND (NOT x + 1) = x AND - x" by (simp add: minus_eq_not_plus_1)
  also have "\<dots> = word_of_int (int (unat x) AND - int (unat x))"
    by (subst (1 2) x) (simp only: of_int_minus [symmetric] of_int_and_eq [symmetric] wi_hom_neg)
  also have "int (unat x) AND - int (unat x) = 2 ^ low_bit (unat x)"
    using assms by (intro and_uminus_low_bit) (simp add: unat_gt_0)
  finally show ?thesis by simp
qed

text \<open>
  After isolation the word is a power of two, so each mask test reads one bit of the
  mask; what the cascade then computes is a table over the bit position.
\<close>

lemma ctz_masks32:
  "\<forall>k \<in> set [0..<32].
     (let c = 31;
          c = (if bit (0x0000FFFF::int) k then c - 16 else c);
          c = (if bit (0x00FF00FF::int) k then c - 8 else c);
          c = (if bit (0x0F0F0F0F::int) k then c - 4 else c);
          c = (if bit (0x33333333::int) k then c - 2 else c);
          c = (if bit (0x55555555::int) k then c - 1 else c)
      in c) = int k"
  by code_simp

lemma ctz_masks64:
  "\<forall>k \<in> set [0..<64].
     (let c = 63;
          c = (if bit (0x00000000FFFFFFFF::int) k then c - 32 else c);
          c = (if bit (0x0000FFFF0000FFFF::int) k then c - 16 else c);
          c = (if bit (0x00FF00FF00FF00FF::int) k then c - 8 else c);
          c = (if bit (0x0F0F0F0F0F0F0F0F::int) k then c - 4 else c);
          c = (if bit (0x3333333333333333::int) k then c - 2 else c);
          c = (if bit (0x5555555555555555::int) k then c - 1 else c)
      in c) = int k"
  by code_simp

lemma mask_test:
  "k < LENGTH('a) \<Longrightarrow> (2 ^ k AND (numeral m :: 'a::len word) \<noteq> 0) = bit (numeral m :: int) k"
  by (subst and.commute) (simp add: and_exp_eq_0_iff_not_bit)

lemma CountTrailingZeroesNonzero32_eq:
  assumes "x \<noteq> 0"
  shows "CountTrailingZeroesNonzero32 x = int (low_bit (unat x))"
proof -
  have k: "low_bit (unat x) < 32"
    using assms unsigned_less [of x, where ?'a = nat] by (intro low_bit_less) (simp_all add: unat_gt_0)
  have L: "low_bit (unat x) < LENGTH(32)" using k by simp
  show ?thesis
    using ctz_masks32 [rule_format, of "low_bit (unat x)"] k
    unfolding CountTrailingZeroesNonzero32_def Let_def isolate_low_bit [OF assms] mask_test [OF L] by simp
qed

lemma CountTrailingZeroesNonzero64_eq:
  assumes "x \<noteq> 0"
  shows "CountTrailingZeroesNonzero64 x = int (low_bit (unat x))"
proof -
  have k: "low_bit (unat x) < 64"
    using assms unsigned_less [of x, where ?'a = nat] by (intro low_bit_less) (simp_all add: unat_gt_0)
  have L: "low_bit (unat x) < LENGTH(64)" using k by simp
  show ?thesis
    using ctz_masks64 [rule_format, of "low_bit (unat x)"] k
    unfolding CountTrailingZeroesNonzero64_def Let_def isolate_low_bit [OF assms] mask_test [OF L] by simp
qed

lemma countr_zero_eq:
  fixes x :: "'a::len word"
  assumes "LENGTH('a) \<le> 64" and "x \<noteq> 0"
  shows "countr_zero x = int (low_bit (unat x))"
  using assms unat_ucast_up [of x, where ?'b = 16] unat_ucast_up [of x, where ?'b = 32]
    unat_ucast_up [of x, where ?'b = 64] unat_ucast_up [of "ucast x :: 16 word", where ?'b = 32]
  by (auto simp: countr_zero_def CountTrailingZeroes_def CountTrailingZeroesNonzero16_def
      CountTrailingZeroesNonzero32_eq CountTrailingZeroesNonzero64_eq ucast_up_eq_0
      simp del: unsigned_ucast_eq)

section \<open>Powers of two\<close>

lemma and_minus_one_power: "0 < n \<Longrightarrow> int n AND (int n - 1) = 0 \<longleftrightarrow> (\<exists>k. n = 2 ^ k)"
proof (induction n rule: less_induct)
  case (less n)
  show ?case
  proof (cases "even n")
    case True
    then obtain a where a: "n = 2 * a" by (rule evenE)
    then have a0: "0 < a" "a < n" using less.prems by simp_all
    have "(int n - 1) div 2 = int a - 1" using a by simp
    then have "int n AND (int n - 1) = 2 * (int a AND (int a - 1))"
      by (subst and_int_rec) (simp add: a)
    then have "int n AND (int n - 1) = 0 \<longleftrightarrow> (\<exists>k. a = 2 ^ k)"
      using less.IH [OF a0(2,1)] by simp
    also have "\<dots> \<longleftrightarrow> (\<exists>k. n = 2 ^ k)"
    proof
      assume "\<exists>k. n = 2 ^ k"
      then obtain k where k: "n = 2 ^ k" ..
      with True obtain j where "k = Suc j" by (cases k) auto
      with k a have "a = 2 ^ j" by simp
      then show "\<exists>k. a = 2 ^ k" ..
    next
      assume "\<exists>k. a = 2 ^ k"
      then show "\<exists>k. n = 2 ^ k" using a by (metis power_Suc)
    qed
    finally show ?thesis .
  next
    case False
    then obtain a where a: "n = 2 * a + 1" by (rule oddE)
    have "int n AND (int n - 1) = 2 * int a"
      by (subst and_int_rec) (simp add: a)
    moreover have "(\<exists>k. n = 2 ^ k) \<longleftrightarrow> n = 1"
    proof
      assume "\<exists>k. n = 2 ^ k"
      then obtain k where "n = 2 ^ k" ..
      with False show "n = 1" by (cases k) auto
    next
      assume "n = 1"
      then show "\<exists>k. n = 2 ^ k" by (intro exI [of _ 0]) simp
    qed
    ultimately show ?thesis by (simp add: a)
  qed
qed

lemma has_single_bit_iff: "has_single_bit x \<longleftrightarrow> (\<exists>k. unat x = 2 ^ k)"
proof (cases "x = 0")
  case False
  have pos: "0 < unat x" using False by (simp add: unat_gt_0)
  have "uint (x AND (x - 1)) = uint x AND (uint x - 1)"
    using False by (simp add: uint_and uint_minus_simple_alt [THEN iffD1] word_le_nat_alt unsigned_and_eq uint_sub_if' uint_0_iff)
      (smt (verit) False linorder_not_less uint_0_iff uint_ge_0 word_less_1 )
  then have "x AND (x - 1) = 0 \<longleftrightarrow> int (unat x) AND (int (unat x) - 1) = 0"
    by (simp add: word_uint_eq_iff)
  with False and_minus_one_power [OF pos] show ?thesis by (simp add: has_single_bit_def)
qed (simp add: has_single_bit_def)

lemma unat_2_power: "k < LENGTH('a) \<Longrightarrow> unat (2 ^ k :: 'a::len word) = 2 ^ k"
  by (simp add: unat_eq_nat_uint uint_2p word_gt_0_no exp_eq_zero_iff word_gt_0)

lemma bit_width_eq:
  fixes x :: "'a::len word"
  assumes "LENGTH('a) \<le> 32 \<or> LENGTH('a) = 64"
  shows "bit_width x = int (bit_length (unat x))"
  by (simp add: bit_width_def countl_zero_eq [OF assms])

lemma bit_length_le: "n < 2 ^ k \<Longrightarrow> bit_length n \<le> k"
proof (cases "n = 0")
  case False
  assume "n < 2 ^ k"
  with bit_length_bounds [of n] False have "(2::nat) ^ (bit_length n - 1) < 2 ^ k" by (meson le_less_trans neq0_conv)
  then have "bit_length n - 1 < k" by simp
  then show ?thesis by simp
qed simp

section \<open>Rotation\<close>

lemma and_width_minus_1:
  assumes "LENGTH('a::len) = 2 ^ p"
  shows "s AND (int LENGTH('a) - 1) = s mod int LENGTH('a)"
  using take_bit_eq_mask [of p s] by (simp add: assms take_bit_eq_mod mask_eq_exp_minus_1)

lemma rotate_unfold:
  fixes x :: "'a::len word" and s :: int
  assumes "LENGTH('a) = 2 ^ p"
  defines "r \<equiv> nat (s mod int LENGTH('a))"
  shows "RotateRight x s = (if r = 0 then x else drop_bit r x OR push_bit (LENGTH('a) - r) x)"
    and "RotateLeft x s = (if r = 0 then x else push_bit r x OR drop_bit (LENGTH('a) - r) x)"
    and "r < LENGTH('a)"
proof -
  have r: "s AND (int LENGTH('a) - 1) = int r" "r < LENGTH('a)"
    by (simp_all add: and_width_minus_1 [OF assms(1)] r_def nat_less_iff)
  have "nat (int LENGTH('a) - int r) = LENGTH('a) - r" using r(2) by simp
  then show "RotateRight x s = (if r = 0 then x else drop_bit r x OR push_bit (LENGTH('a) - r) x)"
    "RotateLeft x s = (if r = 0 then x else push_bit r x OR drop_bit (LENGTH('a) - r) x)"
    by (simp_all only: RotateRight_def RotateLeft_def Let_def r(1) nat_int of_nat_eq_0_iff)
  show "r < LENGTH('a)" by (rule r(2))
qed

lemma word_rotr_shift:
  fixes x :: "'a::len word"
  assumes "r < LENGTH('a)"
  shows "word_rotr r x = (if r = 0 then x else drop_bit r x OR push_bit (LENGTH('a) - r) x)"
proof (rule bit_word_eqI)
  fix i assume i: "i < LENGTH('a)"
  have m: "(i + r) mod LENGTH('a) = (if i + r < LENGTH('a) then i + r else i + r - LENGTH('a))"
    using i assms by (simp add: mod_if)
  consider "r = 0" | "r \<noteq> 0" "i + r < LENGTH('a)" | "r \<noteq> 0" "\<not> i + r < LENGTH('a)" by blast
  then show "bit (word_rotr r x) i = bit (if r = 0 then x else drop_bit r x OR push_bit (LENGTH('a) - r) x) i"
  proof cases
    case 1
    then show ?thesis using i by (simp add: bit_word_rotr_iff)
  next
    case 2
    then have "\<not> LENGTH('a) - r \<le> i" by simp
    with 2 show ?thesis using i m by (simp add: bit_word_rotr_iff bit_or_iff bit_drop_bit_eq bit_push_bit_iff add.commute)
  next
    case 3
    then have "\<not> bit x (r + i)" by (metis add.commute bit_imp_le_length)
    moreover have "i - (LENGTH('a) - r) = i + r - LENGTH('a)" "LENGTH('a) - r \<le> i" using 3 assms by simp_all
    ultimately show ?thesis
      using i m 3 by (simp add: bit_word_rotr_iff bit_or_iff bit_drop_bit_eq bit_push_bit_iff)
  qed
qed

lemma word_rotl_shift:
  fixes x :: "'a::len word"
  assumes "r < LENGTH('a)"
  shows "word_rotl r x = (if r = 0 then x else push_bit r x OR drop_bit (LENGTH('a) - r) x)"
proof (cases "r = 0")
  case False
  then have "word_rotl r x = word_rotr (LENGTH('a) - r) x"
    using assms by (simp add: word_rotl_eq_word_rotr)
  then show ?thesis using False assms word_rotr_shift [of "LENGTH('a) - r" x] by (simp add: or.commute)
qed (simp add: word_rotl_eq_word_rotr bit_word_eqI bit_word_rotr_iff)

section \<open>Properties\<close>

text \<open>
  C40: \<^verbatim>\<open>bit_width\<close> (through the table-driven binary search of \<^verbatim>\<open>countl_zero\<close>) is the position of the
  highest set bit plus one, and \<^verbatim>\<open>countr_zero\<close> (through isolating the lowest set bit and
  testing it against masks) is the exponent of the largest power of two that divides
  the value, for every nonzero value of an 8-, 16-, 32- or 64-bit type.
\<close>

theorem bit_scan_correct:
  fixes x :: "'a::len word"
  assumes "LENGTH('a) \<in> {8, 16, 32, 64}" and "x \<noteq> 0"
  shows "2 ^ nat (bit_width x - 1) \<le> unat x \<and> unat x < 2 ^ nat (bit_width x) \<and>
    countl_zero x = int LENGTH('a) - bit_width x \<and>
    2 ^ nat (countr_zero x) dvd unat x \<and> \<not> 2 ^ Suc (nat (countr_zero x)) dvd unat x"
proof -
  have w: "LENGTH('a) \<le> 32 \<or> LENGTH('a) = 64" "LENGTH('a) \<le> 64" using assms(1) by auto
  have pos: "0 < unat x" using assms(2) by (simp add: unat_gt_0)
  show ?thesis
    using bit_length_bounds [OF pos] low_bit_dvd [OF pos]
    by (simp add: bit_width_eq [OF w(1)] countr_zero_eq [OF w(2) assms(2)] countl_zero_eq [OF w(1)]
        nat_diff_distrib' del: power_Suc)
qed

theorem bit_scan_correct_witness: "unat (40 :: 64 word) < 2 ^ nat (bit_width (40 :: 64 word))"
  using bit_scan_correct [of "40 :: 64 word"] by simp

text \<open>
  \<^verbatim>\<open>has_single_bit\<close> recognises exactly the powers of two, \<^verbatim>\<open>bit_floor\<close> is the largest power
  of two not above its argument, and \<^verbatim>\<open>bit_ceil\<close> the smallest one not below it, for 32- and
  64-bit arguments whose ceiling is representable.
\<close>

theorem powers_of_two:
  fixes x :: "'a::len word"
  assumes "LENGTH('a) \<in> {32, 64}" and "0 < unat x" and "unat x \<le> 2 ^ (LENGTH('a) - 1)"
  shows "(has_single_bit x \<longleftrightarrow> (\<exists>k. unat x = 2 ^ k)) \<and>
    (\<exists>k. unat (bit_floor x) = 2 ^ k \<and> 2 ^ k \<le> unat x \<and> unat x < 2 ^ Suc k) \<and>
    (\<exists>k. unat (bit_ceil x) = 2 ^ k \<and> unat x \<le> 2 ^ k \<and> 2 ^ k < 2 * unat x)"
proof -
  have w: "LENGTH('a) \<le> 32 \<or> LENGTH('a) = 64" using assms(1) by auto
  define b where "b = bit_length (unat x) - 1"
  have bl: "bit_length (unat x) = Suc b" using bit_length_pos [OF assms(2)] by (simp add: b_def)
  have bb: "2 ^ b \<le> unat x" "unat x < 2 ^ Suc b" using bit_length_bounds [OF assms(2)] bl by simp_all
  have bL: "b < LENGTH('a)" using bit_length_le [OF unsigned_less [of x]] bl by simp
  have nz: "x \<noteq> 0" using assms(2) by auto
  have fl: "unat (bit_floor x) = 2 ^ b"
    using nz bl unat_2_power [OF bL] by (simp add: bit_floor_def bit_width_eq [OF w] push_bit_of_1)
  have "\<exists>k. unat (bit_ceil x) = 2 ^ k \<and> unat x \<le> 2 ^ k \<and> 2 ^ k < 2 * unat x"
  proof (cases "has_single_bit x")
    case True
    then obtain k where k: "unat x = 2 ^ k" by (auto simp: has_single_bit_iff)
    then have "bit_length (unat x) = Suc k" by (intro bit_length_unique) simp_all
    then have "b = k" using bl by simp
    then show ?thesis
      using True k bl unat_2_power [OF bL] by (intro exI [of _ k]) (simp add: bit_ceil_def bit_width_eq [OF w] push_bit_of_1)
  next
    case False
    then have "unat x \<noteq> 2 ^ b" by (auto simp: has_single_bit_iff)
    with bb have lt: "2 ^ b < unat x" by simp
    then have "(2::nat) ^ b < 2 ^ (LENGTH('a) - 1)" using assms(3) by (rule less_le_trans)
    then have "Suc b < LENGTH('a)" by simp
    moreover have "nat (1 + int b) = Suc b" by linarith
    ultimately have "unat (bit_ceil x) = 2 ^ Suc b"
      using unat_2_power [of "Suc b", where ?'a = 'a] False bl countl_zero_eq [OF w, of x]
      by (simp add: bit_ceil_def BitCeilNonPowerOf2_def countl_zero_def push_bit_of_1)
    then show ?thesis using lt bb by (intro exI [of _ "Suc b"]) simp
  qed
  then show ?thesis using has_single_bit_iff [of x] fl bb by blast
qed

theorem powers_of_two_witness:
  "\<exists>k. unat (bit_ceil (1000 :: 64 word)) = 2 ^ k \<and> 1000 \<le> (2::nat) ^ k \<and> (2::nat) ^ k < 2000"
  using powers_of_two [of "1000 :: 64 word"] by simp

text \<open>
  For every shift amount, negative ones included, \<^verbatim>\<open>rotr\<close> and \<^verbatim>\<open>rotl\<close> rotate by the amount
  modulo the width, and each undoes the other.
\<close>

theorem rotations_correct:
  fixes x :: "'a::len word"
  assumes "LENGTH('a) \<in> {8, 16, 32, 64}"
  shows "rotr x s = word_rotr (nat (s mod int LENGTH('a))) x \<and>
    rotl x s = word_rotl (nat (s mod int LENGTH('a))) x \<and>
    rotl (rotr x s) s = x \<and> rotr x (- s) = rotl x s"
proof -
  have "LENGTH('a) = 2 ^ 3 \<or> LENGTH('a) = 2 ^ 4 \<or> LENGTH('a) = 2 ^ 5 \<or> LENGTH('a) = 2 ^ 6"
    using assms by auto
  then obtain p where p: "LENGTH('a) = 2 ^ p" by blast
  have R: "rotr y t = word_rotr (nat (t mod int LENGTH('a))) y" for y :: "'a word" and t
    using rotate_unfold(1) [OF p, of y t] rotate_unfold(3) [OF p, of t] word_rotr_shift [of "nat (t mod int LENGTH('a))" y] by (simp add: rotr_def)
  have L: "rotl y t = word_rotl (nat (t mod int LENGTH('a))) y" for y :: "'a word" and t
    using rotate_unfold(2) [OF p, of y t] rotate_unfold(3) [OF p, of t] word_rotl_shift [of "nat (t mod int LENGTH('a))" y] by (simp add: rotl_def)
  have "word_rotr (nat ((- s) mod int LENGTH('a))) x = word_rotl (nat (s mod int LENGTH('a))) x"
  proof (cases "s mod int LENGTH('a) = 0")
    case False
    then have "nat ((- s) mod int LENGTH('a)) = LENGTH('a) - nat (s mod int LENGTH('a))"
      by (simp add: zmod_zminus1_eq_if nat_minus_as_int)
    moreover have "nat (s mod int LENGTH('a)) < LENGTH('a)" by (simp add: nat_less_iff)
    ultimately show ?thesis by (simp add: word_rotl_eq_word_rotr)
  qed (simp add: zmod_zminus1_eq_if word_rotl_eq_word_rotr bit_word_eqI bit_word_rotr_iff)
  then show ?thesis using R L by simp
qed

theorem rotations_correct_witness: "rotl (rotr (0x12345678 :: 32 word) (-5)) (-5) = 0x12345678"
proof -
  have "LENGTH(32) \<in> {8, 16, 32, 64}" by simp
  from rotations_correct [OF this, of "0x12345678" "-5"] show ?thesis by blast
qed
end
