(* ===== verification/Int128.thy ===== *)
theory Int128
  imports Bits "HOL-Library.Monad_Syntax"
begin

unbundle bit_operations_syntax

text \<open>
  128-bit integers without compiler support: the branches of \<^verbatim>\<open>absl/numeric/int128.h\<close> and
  \<^verbatim>\<open>absl/numeric/int128.cc\<close> compiled when \<^verbatim>\<open>ABSL_HAVE_INTRINSIC_INT128\<close> is not defined. A
  \<^verbatim>\<open>uint128\<close> is its two 64-bit halves; every operator is the code's computation on the halves.
  The abstraction \<open>u128\<close> maps it to a 128-bit word, and the refinement lemmas say that each
  operator is the machine operation on that word.
\<close>

section \<open>Data and accessors\<close>

record uint128 =
  u_hi :: "64 word"
  u_lo :: "64 word"

definition MakeUint128 :: "64 word \<Rightarrow> 64 word \<Rightarrow> uint128" where
  "MakeUint128 high low = \<lparr>u_hi = high, u_lo = low\<rparr>"

definition Uint128High64 :: "uint128 \<Rightarrow> 64 word" where
  "Uint128High64 v = u_hi v"

definition Uint128Low64 :: "uint128 \<Rightarrow> 64 word" where
  "Uint128Low64 v = u_lo v"

definition Uint128Max :: uint128 where
  "Uint128Max = MakeUint128 (- 1) (- 1)"

text \<open>The converting constructor from \<^verbatim>\<open>uint64_t\<close>.\<close>

definition uint128_of_u64 :: "64 word \<Rightarrow> uint128" where
  "uint128_of_u64 v = MakeUint128 0 v"

section \<open>Comparison\<close>

definition uint128_eq :: "uint128 \<Rightarrow> uint128 \<Rightarrow> bool" where
  "uint128_eq lhs rhs \<longleftrightarrow>
     Uint128Low64 lhs = Uint128Low64 rhs \<and> Uint128High64 lhs = Uint128High64 rhs"

definition uint128_not_eq :: "uint128 \<Rightarrow> uint128 \<Rightarrow> bool" where
  "uint128_not_eq lhs rhs = (\<not> uint128_eq lhs rhs)"

definition uint128_less :: "uint128 \<Rightarrow> uint128 \<Rightarrow> bool" where
  "uint128_less lhs rhs =
     (if Uint128High64 lhs = Uint128High64 rhs then Uint128Low64 lhs < Uint128Low64 rhs
      else Uint128High64 lhs < Uint128High64 rhs)"

definition uint128_greater :: "uint128 \<Rightarrow> uint128 \<Rightarrow> bool" where
  "uint128_greater lhs rhs = uint128_less rhs lhs"

definition uint128_less_eq :: "uint128 \<Rightarrow> uint128 \<Rightarrow> bool" where
  "uint128_less_eq lhs rhs = (\<not> uint128_less rhs lhs)"

definition uint128_greater_eq :: "uint128 \<Rightarrow> uint128 \<Rightarrow> bool" where
  "uint128_greater_eq lhs rhs = (\<not> uint128_less lhs rhs)"

section \<open>Unary and bitwise operators\<close>

definition uint128_pos :: "uint128 \<Rightarrow> uint128" where
  "uint128_pos val = val"

definition uint128_neg :: "uint128 \<Rightarrow> uint128" where
  "uint128_neg val =
     MakeUint128 (NOT (Uint128High64 val) + of_bool (Uint128Low64 val = 0))
       (NOT (Uint128Low64 val) + 1)"

definition uint128_is_zero :: "uint128 \<Rightarrow> bool" where
  "uint128_is_zero val \<longleftrightarrow> Uint128High64 val = 0 \<and> Uint128Low64 val = 0"

definition uint128_not :: "uint128 \<Rightarrow> uint128" where
  "uint128_not val = MakeUint128 (NOT (Uint128High64 val)) (NOT (Uint128Low64 val))"

definition uint128_or :: "uint128 \<Rightarrow> uint128 \<Rightarrow> uint128" where
  "uint128_or lhs rhs =
     MakeUint128 (Uint128High64 lhs OR Uint128High64 rhs) (Uint128Low64 lhs OR Uint128Low64 rhs)"

definition uint128_and :: "uint128 \<Rightarrow> uint128 \<Rightarrow> uint128" where
  "uint128_and lhs rhs =
     MakeUint128 (Uint128High64 lhs AND Uint128High64 rhs) (Uint128Low64 lhs AND Uint128Low64 rhs)"

definition uint128_xor :: "uint128 \<Rightarrow> uint128 \<Rightarrow> uint128" where
  "uint128_xor lhs rhs =
     MakeUint128 (Uint128High64 lhs XOR Uint128High64 rhs) (Uint128Low64 lhs XOR Uint128Low64 rhs)"

section \<open>Shifts\<close>

text \<open>
  The amount of a shift is an \<^verbatim>\<open>int\<close>. A shift of a \<^verbatim>\<open>uint64_t\<close> is undefined (\<^const>\<open>None\<close>) for an amount outside 0 to 63.
\<close>

definition shl64 :: "64 word \<Rightarrow> int \<Rightarrow> 64 word option" where
  "shl64 v amount = (if 0 \<le> amount \<and> amount < 64 then Some (push_bit (nat amount) v) else None)"

definition shr64 :: "64 word \<Rightarrow> int \<Rightarrow> 64 word option" where
  "shr64 v amount = (if 0 \<le> amount \<and> amount < 64 then Some (drop_bit (nat amount) v) else None)"

definition uint128_lshift :: "uint128 \<Rightarrow> int \<Rightarrow> uint128 option" where
  "uint128_lshift lhs amount =
     (if amount \<ge> 64 then do { h \<leftarrow> shl64 (Uint128Low64 lhs) (amount - 64); Some (MakeUint128 h 0) }
      else if amount = 0 then Some lhs
      else do {
        h \<leftarrow> shl64 (Uint128High64 lhs) amount;
        c \<leftarrow> shr64 (Uint128Low64 lhs) (64 - amount);
        l \<leftarrow> shl64 (Uint128Low64 lhs) amount;
        Some (MakeUint128 (h OR c) l)
      })"

definition uint128_rshift :: "uint128 \<Rightarrow> int \<Rightarrow> uint128 option" where
  "uint128_rshift lhs amount =
     (if amount \<ge> 64 then do { l \<leftarrow> shr64 (Uint128High64 lhs) (amount - 64); Some (MakeUint128 0 l) }
      else if amount = 0 then Some lhs
      else do {
        h \<leftarrow> shr64 (Uint128High64 lhs) amount;
        l \<leftarrow> shr64 (Uint128Low64 lhs) amount;
        c \<leftarrow> shl64 (Uint128High64 lhs) (64 - amount);
        Some (MakeUint128 h (l OR c))
      })"

text \<open>
  The value of a shift by an amount from 0 to 127, for the multiplication and the division below: they shift by 32, by 1 and by the
  distance of two bit positions (\<^verbatim>\<open>divmod_shift_range\<close>), and \<^verbatim>\<open>uint128_shift_value\<close> shows that there the operators return this value.
\<close>

definition uint128_shl :: "uint128 \<Rightarrow> nat \<Rightarrow> uint128" where
  "uint128_shl lhs amount =
     (if amount \<ge> 64 then MakeUint128 (push_bit (amount - 64) (Uint128Low64 lhs)) 0
      else if amount = 0 then lhs
      else MakeUint128
        (push_bit amount (Uint128High64 lhs) OR drop_bit (64 - amount) (Uint128Low64 lhs))
        (push_bit amount (Uint128Low64 lhs)))"

definition uint128_shr :: "uint128 \<Rightarrow> nat \<Rightarrow> uint128" where
  "uint128_shr lhs amount =
     (if amount \<ge> 64 then MakeUint128 0 (drop_bit (amount - 64) (Uint128High64 lhs))
      else if amount = 0 then lhs
      else MakeUint128 (drop_bit amount (Uint128High64 lhs))
        (drop_bit amount (Uint128Low64 lhs) OR push_bit (64 - amount) (Uint128High64 lhs)))"

section \<open>Addition, subtraction, multiplication\<close>

definition AddResult :: "uint128 \<Rightarrow> uint128 \<Rightarrow> uint128" where
  "AddResult result lhs =
     (if Uint128Low64 result < Uint128Low64 lhs
      then MakeUint128 (Uint128High64 result + 1) (Uint128Low64 result) else result)"

definition uint128_add :: "uint128 \<Rightarrow> uint128 \<Rightarrow> uint128" where
  "uint128_add lhs rhs =
     AddResult (MakeUint128 (Uint128High64 lhs + Uint128High64 rhs) (Uint128Low64 lhs + Uint128Low64 rhs)) lhs"

definition SubstructResult :: "uint128 \<Rightarrow> uint128 \<Rightarrow> uint128 \<Rightarrow> uint128" where
  "SubstructResult result lhs rhs =
     (if Uint128Low64 lhs < Uint128Low64 rhs
      then MakeUint128 (Uint128High64 result - 1) (Uint128Low64 result) else result)"

definition uint128_sub :: "uint128 \<Rightarrow> uint128 \<Rightarrow> uint128" where
  "uint128_sub lhs rhs =
     SubstructResult
       (MakeUint128 (Uint128High64 lhs - Uint128High64 rhs) (Uint128Low64 lhs - Uint128Low64 rhs)) lhs rhs"

definition uint128_mul :: "uint128 \<Rightarrow> uint128 \<Rightarrow> uint128" where
  "uint128_mul lhs rhs =
     (let a32 = drop_bit 32 (Uint128Low64 lhs);
          a00 = Uint128Low64 lhs AND 0xffffffff;
          b32 = drop_bit 32 (Uint128Low64 rhs);
          b00 = Uint128Low64 rhs AND 0xffffffff;
          result = MakeUint128 (Uint128High64 lhs * Uint128Low64 rhs +
                                Uint128Low64 lhs * Uint128High64 rhs + a32 * b32) (a00 * b00);
          result = uint128_add result (uint128_shl (uint128_of_u64 (a32 * b00)) 32);
          result = uint128_add result (uint128_shl (uint128_of_u64 (a00 * b32)) 32)
      in result)"

text \<open>The increment and decrement operators return their value and leave the object with a new one.\<close>

definition uint128_pre_inc :: "uint128 \<Rightarrow> uint128 \<times> uint128" where
  "uint128_pre_inc this = (let this = uint128_add this (uint128_of_u64 1) in (this, this))"

definition uint128_pre_dec :: "uint128 \<Rightarrow> uint128 \<times> uint128" where
  "uint128_pre_dec this = (let this = uint128_sub this (uint128_of_u64 1) in (this, this))"

definition uint128_post_inc :: "uint128 \<Rightarrow> uint128 \<times> uint128" where
  "uint128_post_inc this = (let tmp = this; this = uint128_add this (uint128_of_u64 1) in (tmp, this))"

definition uint128_post_dec :: "uint128 \<Rightarrow> uint128 \<times> uint128" where
  "uint128_post_dec this = (let tmp = this; this = uint128_sub this (uint128_of_u64 1) in (tmp, this))"

section \<open>Division\<close>

definition Fls128 :: "uint128 \<Rightarrow> int" where
  "Fls128 n =
     (if Uint128High64 n \<noteq> 0 then 127 - countl_zero (Uint128High64 n)
      else 63 - countl_zero (Uint128Low64 n))"

text \<open>The shift-subtract loop; the first argument counts the remaining iterations.\<close>

fun divmod_loop :: "nat \<Rightarrow> uint128 \<Rightarrow> uint128 \<Rightarrow> uint128 \<Rightarrow> uint128 \<times> uint128" where
  "divmod_loop 0 dividend denominator quot = (quot, dividend)"
| "divmod_loop (Suc i) dividend denominator quot =
     (let quot = uint128_shl quot 1;
          (dividend, quot) =
            (if uint128_greater_eq dividend denominator
             then (uint128_sub dividend denominator, uint128_or quot (uint128_of_u64 1))
             else (dividend, quot));
          denominator = uint128_shr denominator 1
      in divmod_loop i dividend denominator quot)"

definition DivModImpl :: "uint128 \<Rightarrow> uint128 \<Rightarrow> uint128 \<times> uint128" where
  "DivModImpl dividend divisor =
     (if uint128_greater divisor dividend then (uint128_of_u64 0, dividend)
      else if uint128_eq divisor dividend then (uint128_of_u64 1, uint128_of_u64 0)
      else
        let shift = Fls128 dividend - Fls128 divisor;
            denominator = uint128_shl divisor (nat shift)
        in divmod_loop (nat (shift + 1)) dividend denominator (uint128_of_u64 0))"

definition uint128_div :: "uint128 \<Rightarrow> uint128 \<Rightarrow> uint128" where
  "uint128_div lhs rhs = fst (DivModImpl lhs rhs)"

definition uint128_mod :: "uint128 \<Rightarrow> uint128 \<Rightarrow> uint128" where
  "uint128_mod lhs rhs = snd (DivModImpl lhs rhs)"

section \<open>Signed 128-bit integers\<close>

text \<open>The high half of an \<^verbatim>\<open>int128\<close> is an \<^verbatim>\<open>int64_t\<close>, kept as its two's complement bits.\<close>

record int128 =
  i_hi :: "64 word"
  i_lo :: "64 word"

definition MakeInt128 :: "int \<Rightarrow> 64 word \<Rightarrow> int128" where
  "MakeInt128 high low = \<lparr>i_hi = word_of_int high, i_lo = low\<rparr>"

definition Int128High64 :: "int128 \<Rightarrow> int" where
  "Int128High64 v = sint (i_hi v)"

definition Int128Low64 :: "int128 \<Rightarrow> 64 word" where
  "Int128Low64 v = i_lo v"

definition Int128Min :: int128 where
  "Int128Min = MakeInt128 int64_min 0"

definition Int128Max :: int128 where
  "Int128Max = MakeInt128 int64_max (- 1)"

definition BitCastToSigned :: "64 word \<Rightarrow> int" where
  "BitCastToSigned v = (if v AND push_bit 63 1 \<noteq> 0 then NOT (uint (NOT v)) else uint v)"

definition uint128_of_int128 :: "int128 \<Rightarrow> uint128" where
  "uint128_of_int128 v = MakeUint128 (word_of_int (Int128High64 v)) (Int128Low64 v)"

definition UnsignedAbsoluteValue :: "int128 \<Rightarrow> uint128" where
  "UnsignedAbsoluteValue v =
     (if Int128High64 v < 0 then uint128_neg (uint128_of_int128 v) else uint128_of_int128 v)"

definition int128_div :: "int128 \<Rightarrow> int128 \<Rightarrow> int128" where
  "int128_div lhs rhs =
     (let (quot, remainder) = DivModImpl (UnsignedAbsoluteValue lhs) (UnsignedAbsoluteValue rhs);
          quot = (if (Int128High64 lhs < 0) \<noteq> (Int128High64 rhs < 0) then uint128_neg quot else quot)
      in MakeInt128 (BitCastToSigned (Uint128High64 quot)) (Uint128Low64 quot))"

definition int128_mod :: "int128 \<Rightarrow> int128 \<Rightarrow> int128" where
  "int128_mod lhs rhs =
     (let (quot, remainder) = DivModImpl (UnsignedAbsoluteValue lhs) (UnsignedAbsoluteValue rhs);
          remainder = (if Int128High64 lhs < 0 then uint128_neg remainder else remainder)
      in MakeInt128 (BitCastToSigned (Uint128High64 remainder)) (Uint128Low64 remainder))"

section \<open>Abstraction\<close>

definition u128 :: "uint128 \<Rightarrow> 128 word" where
  "u128 v = word_cat (u_hi v) (u_lo v)"

definition u128_val :: "uint128 \<Rightarrow> int" where
  "u128_val v = uint (u_hi v) * 2 ^ 64 + uint (u_lo v)"

lemmas halves_simps = MakeUint128_def Uint128High64_def Uint128Low64_def uint128_of_u64_def

lemma bit_u128: "bit (u128 v) n \<longleftrightarrow> (if n < 64 then bit (u_lo v) n else bit (u_hi v) (n - 64))"
  by (auto simp: u128_def bit_word_cat_iff dest: bit_imp_le_length)

lemma uint_u128: "uint (u128 v) = u128_val v"
proof -
  have "uint (u128 v) = concat_bit 64 (uint (u_lo v)) (uint (u_hi v))"
    by (rule bit_eqI) (auto simp: bit_uint_iff bit_u128 bit_concat_bit_iff dest: bit_imp_le_length)
  also have "\<dots> = take_bit 64 (uint (u_lo v)) + 2 ^ 64 * uint (u_hi v)"
    by (simp add: concat_bit_eq push_bit_eq_mult)
  also have "take_bit 64 (uint (u_lo v)) = uint (u_lo v)"
    using uint_lt2p [of "u_lo v"] by (simp add: take_bit_int_eq_self_iff)
  finally show ?thesis by (simp add: u128_val_def)
qed

lemma u128_val_range: "0 \<le> u128_val v" "u128_val v < 2 ^ 128"
  using uint_lt2p [of "u128 v"] uint_ge_0 [of "u128 v"] by (simp_all add: uint_u128)

lemma u128_val_u64: "u128_val (uint128_of_u64 w) = uint w"
  by (simp add: u128_val_def halves_simps)

lemma low_half: "u128_val a < 2 ^ 64 \<Longrightarrow> uint (Uint128Low64 a) = u128_val a"
proof -
  assume "u128_val a < 2 ^ 64"
  then have "uint (u_hi a) < 1" unfolding u128_val_def using uint_ge_0 [of "u_lo a"]
    by (simp del: uint_ge_0 unsigned_greater_eq)
  then have "uint (u_hi a) = 0" using uint_ge_0 [of "u_hi a"] by linarith
  then show ?thesis by (simp add: u128_val_def Uint128Low64_def)
qed

lemma u128_inject: "u128 a = u128 b \<longleftrightarrow> a = b"
proof
  assume e: "u128 a = u128 b"
  have "u_lo a = u_lo b"
  proof (rule bit_word_eqI)
    fix n assume "n < LENGTH(64)"
    then show "bit (u_lo a) n = bit (u_lo b) n" using arg_cong [OF e, of "\<lambda>w. bit w n"] by (simp add: bit_u128)
  qed
  moreover have "u_hi a = u_hi b"
  proof (rule bit_word_eqI)
    fix n assume "n < LENGTH(64)"
    then show "bit (u_hi a) n = bit (u_hi b) n" using arg_cong [OF e, of "\<lambda>w. bit w (n + 64)"] by (simp add: bit_u128)
  qed
  ultimately show "a = b" by simp
qed simp

section \<open>Refinement of the ring and bit operations\<close>

text \<open>In the ring of 128-bit words the high half contributes a multiple of \<open>2 ^ 64\<close>, so that the
  wrap-around of the high half is invisible; only the low half has a carry.\<close>

lemma u128_ring: "u128 (MakeUint128 h l) = 2 ^ 64 * ucast h + ucast l"
  by (simp only: u128_def MakeUint128_def uint128.simps word_cat_eq push_bit_eq_mult mult.commute) simp

lemma high_of_int: "2 ^ 64 * ucast (word_of_int x :: 64 word) = (2 ^ 64 * word_of_int x :: 128 word)"
proof -
  have "push_bit 64 (ucast (word_of_int x :: 64 word)) = (push_bit 64 (word_of_int x) :: 128 word)"
    by (rule bit_word_eqI) (auto simp: bit_simps)
  then show ?thesis by (simp only: push_bit_eq_mult mult.commute)
qed

text \<open>The weight of the high half, opaque to arithmetic simplification.\<close>

definition high_weight :: "128 word" where
  "high_weight = 2 ^ 64"

lemma ucast_of_int: "ucast (a :: 64 word) = (word_of_int (uint a) :: 128 word)"
  by (rule ucast_eq)

lemma high_hom:
  "high_weight * ucast (a + b :: 64 word) = high_weight * ucast a + high_weight * ucast b"
  "high_weight * ucast (a - b :: 64 word) = high_weight * ucast a - high_weight * ucast b"
  "high_weight * ucast (a * b :: 64 word) = high_weight * (ucast a * ucast b)"
  "high_weight * ucast (1 :: 64 word) = high_weight"
proof -
  have w: "a + b = word_of_int (uint a + uint b)" "a - b = word_of_int (uint a - uint b)"
    "a * b = word_of_int (uint a * uint b)" by simp_all
  show "high_weight * ucast (a + b) = high_weight * ucast a + high_weight * ucast b"
    unfolding w(1) high_weight_def high_of_int by (simp only: of_int_add ucast_of_int distrib_left)
  show "high_weight * ucast (a - b) = high_weight * ucast a - high_weight * ucast b"
    unfolding w(2) high_weight_def high_of_int
    by (simp only: of_int_diff ucast_of_int right_diff_distrib)
  show "high_weight * ucast (a * b) = high_weight * (ucast a * ucast b)"
    unfolding w(3) high_weight_def high_of_int by (simp only: of_int_mult ucast_of_int)
qed simp

lemma low_add:
  "ucast (a + b :: 64 word) = ucast a + ucast b - (if a + b < a then high_weight else 0)"
proof -
  have b: "0 \<le> uint a" "0 \<le> uint b" "uint a < 2 ^ 64" "uint b < 2 ^ 64"
    using uint_lt2p [of a] uint_lt2p [of b] by simp_all
  have s: "uint (a + b) = uint a + uint b - (if uint a + uint b < 2 ^ 64 then 0 else 2 ^ 64)"
    by (simp add: uint_plus_if')
  have c: "a + b < a \<longleftrightarrow> \<not> uint a + uint b < 2 ^ 64"
    unfolding word_less_def s using b by auto
  show ?thesis
    unfolding c ucast_of_int s high_weight_def
    by (cases "uint a + uint b < 2 ^ 64")
      (simp_all only: if_True if_False of_int_add of_int_diff of_int_power of_int_numeral of_int_0
        not_True_eq_False not_False_eq_True)
qed

lemma low_sub:
  "ucast (a - b :: 64 word) = ucast a - ucast b + (if a < b then high_weight else 0)"
proof -
  have s: "uint (a - b) = uint a - uint b + (if uint a < uint b then 2 ^ 64 else 0)"
    by (simp add: uint_sub_if')
  show ?thesis
    unfolding ucast_of_int s word_less_def high_weight_def
    by (cases "uint a < uint b")
      (simp_all only: if_True if_False of_int_add of_int_diff of_int_power of_int_numeral of_int_0)
qed

lemma u128_Make: "u128 (MakeUint128 h l) = high_weight * ucast h + ucast l"
  unfolding high_weight_def by (rule u128_ring)

lemma u128_eta: "u128 v = high_weight * ucast (u_hi v) + ucast (u_lo v)"
  using u128_Make [of "u_hi v" "u_lo v"] by (simp only: MakeUint128_def uint128.surjective [symmetric] old.unit.exhaust) (cases v, simp)

lemma halves_Make [simp]:
  "Uint128High64 (MakeUint128 h l) = h" "Uint128Low64 (MakeUint128 h l) = l"
  by (simp_all add: halves_simps)

lemma u128_halves: "u128 v = high_weight * ucast (Uint128High64 v) + ucast (Uint128Low64 v)"
  by (simp only: u128_eta Uint128High64_def Uint128Low64_def)

lemma u128_add: "u128 (uint128_add a b) = u128 a + u128 b"
  unfolding u128_halves [of a] u128_halves [of b] uint128_add_def AddResult_def halves_Make
  by (simp only: u128_Make high_hom split: if_splits) (simp add: low_add algebra_simps)

lemma u128_sub: "u128 (uint128_sub a b) = u128 a - u128 b"
  unfolding u128_halves [of a] u128_halves [of b] uint128_sub_def SubstructResult_def halves_Make
  by (simp only: u128_Make high_hom split: if_splits) (simp add: low_sub algebra_simps)

lemma u128_bitops:
  "u128 (uint128_not a) = NOT (u128 a)"
  "u128 (uint128_or a b) = u128 a OR u128 b"
  "u128 (uint128_and a b) = u128 a AND u128 b"
  "u128 (uint128_xor a b) = u128 a XOR u128 b"
  by (rule bit_word_eqI; auto simp: uint128_not_def uint128_or_def uint128_and_def uint128_xor_def
      bit_u128 halves_simps bit_simps)+

lemma u128_shl: "u128 (uint128_shl a n) = push_bit n (u128 a)"
proof (rule bit_word_eqI)
  fix i assume "i < LENGTH(128)"
  then show "bit (u128 (uint128_shl a n)) i = bit (push_bit n (u128 a)) i"
    using bit_imp_le_length [of "u_lo a" "i - n"]
    by (auto simp: uint128_shl_def bit_u128 halves_simps bit_simps not_le not_less add.commute)
qed

lemma u128_shr: "u128 (uint128_shr a n) = drop_bit n (u128 a)"
proof (rule bit_word_eqI)
  fix i assume "i < LENGTH(128)"
  then show "bit (u128 (uint128_shr a n)) i = bit (drop_bit n (u128 a)) i"
    using bit_imp_le_length [of "u_lo a" "n + i"] bit_imp_le_length [of "u_hi a" "n + i - 64"]
    by (auto simp: uint128_shr_def bit_u128 halves_simps bit_simps not_le not_less add.commute)
qed

lemma uint128_shift_value:
  "uint128_lshift a n = (if 0 \<le> n \<and> n < 128 then Some (uint128_shl a (nat n)) else None)"
  "uint128_rshift a n = (if 0 \<le> n \<and> n < 128 then Some (uint128_shr a (nat n)) else None)"
  by (auto simp: uint128_lshift_def uint128_rshift_def uint128_shl_def uint128_shr_def shl64_def shr64_def
      nat_diff_distrib)

lemma u128_of_u64: "u128 (uint128_of_u64 x) = ucast x"
  by (simp add: u128_eta halves_simps)

lemma u128_neg: "u128 (uint128_neg a) = - u128 a"
proof -
  have "uint128_neg a = uint128_sub (uint128_of_u64 0) a"
    by (simp add: uint128_neg_def uint128_sub_def SubstructResult_def halves_simps
        not_eq_complement word_neq_0_conv [symmetric])
  then show ?thesis by (simp add: u128_sub u128_of_u64)
qed

lemma u128_less: "uint128_less a b \<longleftrightarrow> u128 a < u128 b"
proof -
  have h: "uint (u_hi a) < uint (u_hi b) \<Longrightarrow> u128_val a < u128_val b"
    if "0 \<le> uint (u_lo b)" for a b :: uint128
    using uint_lt2p [of "u_lo a"] unfolding u128_val_def by simp (use that in linarith)
  have h2: "u_hi a = u_hi b \<Longrightarrow> (u128_val a < u128_val b) = (uint (u_lo a) < uint (u_lo b))"
    unfolding u128_val_def by simp
  show ?thesis
    using h [of b a] h [of a b] h2 linorder_less_linear [of "uint (u_hi a)" "uint (u_hi b)"]
    by (auto simp: uint128_less_def halves_simps word_less_def uint_u128 word_uint_eq_iff)
qed

lemma u128_compare:
  "uint128_eq a b \<longleftrightarrow> u128 a = u128 b"
  "uint128_greater a b \<longleftrightarrow> u128 a > u128 b"
  "uint128_less_eq a b \<longleftrightarrow> u128 a \<le> u128 b"
  "uint128_greater_eq a b \<longleftrightarrow> u128 a \<ge> u128 b"
  "uint128_is_zero a \<longleftrightarrow> u128 a = 0"
proof -
  have "uint128_is_zero a \<longleftrightarrow> a = uint128_of_u64 0"
    by (cases a) (auto simp: uint128_is_zero_def halves_simps)
  then show "uint128_is_zero a \<longleftrightarrow> u128 a = 0"
    by (simp add: u128_inject [symmetric] u128_of_u64)
qed (auto simp: uint128_eq_def u128_inject halves_simps uint128_greater_def u128_less
      uint128_less_eq_def uint128_greater_eq_def not_less intro!: uint128.equality)

lemma ucast_mult_half:
  fixes x y :: "64 word"
  assumes "uint x < 2 ^ 32" "uint y < 2 ^ 32"
  shows "ucast (x * y) = (ucast x * ucast y :: 128 word)"
proof -
  have "uint x * uint y < 2 ^ 32 * 2 ^ 32"
    using assms by (intro mult_strict_mono) auto
  then have "uint (x * y) = uint x * uint y"
    using uint_mult_lem [of x y] by simp
  then show ?thesis by (simp only: ucast_of_int of_int_mult)
qed

lemma uint_drop_bit: "uint (drop_bit n (x :: 64 word)) = drop_bit n (uint x)"
  by (rule bit_eqI) (auto simp: bit_uint_iff bit_drop_bit_eq dest: bit_imp_le_length)

lemma uint_take_bit: "uint (take_bit n (x :: 64 word)) = take_bit n (uint x)"
  by (rule bit_eqI) (auto simp: bit_uint_iff bit_take_bit_iff dest: bit_imp_le_length)

lemma half_split:
  fixes x :: "64 word"
  shows "ucast x = (push_bit 32 (ucast (drop_bit 32 x)) + ucast (x AND 0xffffffff) :: 128 word)"
    and "uint (drop_bit 32 x) < 2 ^ 32" and "uint (x AND 0xffffffff) < 2 ^ 32"
proof -
  have m: "x AND 0xffffffff = take_bit 32 x" by (simp add: take_bit_eq_mask mask_eq_exp_minus_1)
  have e: "uint x = 2 ^ 32 * uint (drop_bit 32 x) + uint (x AND 0xffffffff)"
    unfolding m uint_drop_bit uint_take_bit
    by (simp only: take_bit_eq_mod drop_bit_eq_div mult_div_mod_eq)
  then show "ucast x = (push_bit 32 (ucast (drop_bit 32 x)) + ucast (x AND 0xffffffff) :: 128 word)"
    by (simp only: ucast_of_int push_bit_eq_mult e of_int_add of_int_mult of_int_power of_int_numeral
        mult.commute)
  show "uint (x AND 0xffffffff) < 2 ^ 32"
    unfolding m uint_take_bit by (rule take_bit_int_less_exp)
  show "uint (drop_bit 32 x) < 2 ^ 32"
    using uint_lt2p [of x] unfolding uint_drop_bit unfolding drop_bit_eq_div by simp
qed

lemma u128_mul: "u128 (uint128_mul a b) = u128 a * u128 b"
proof -
  let ?U = "ucast :: 64 word \<Rightarrow> 128 word"
  define ha la hb lb where "ha = ?U (u_hi a)" "la = u_lo a" "hb = ?U (u_hi b)" "lb = u_lo b"
  define a32 a00 b32 b00 where "a32 = drop_bit 32 la" "a00 = la AND 0xffffffff"
    "b32 = drop_bit 32 lb" "b00 = lb AND 0xffffffff"
  note parts = half_split [of la, folded a32_a00_b32_b00_def] half_split [of lb, folded a32_a00_b32_b00_def]
  define t :: "128 word" where "t = 2 ^ 32"
  have tt: "t * t = high_weight" "high_weight * high_weight = 0"
    by (simp_all add: t_def high_weight_def)
  then have ttx: "t * (t * x) = high_weight * x" "high_weight * (high_weight * x) = 0" for x
    by (simp_all flip: mult.assoc)
  have ua: "?U la = t * ?U a32 + ?U a00" and ub: "?U lb = t * ?U b32 + ?U b00"
    using parts(1,4) by (simp_all only: push_bit_eq_mult t_def mult.commute)
  have "u128 (uint128_mul a b) =
    high_weight * (ha * ?U lb + ?U la * hb + ?U a32 * ?U b32) + ?U a00 * ?U b00
      + t * (?U a32 * ?U b00) + t * (?U a00 * ?U b32)"
    unfolding uint128_mul_def Let_def u128_add u128_shl u128_of_u64 u128_Make Uint128High64_def
      Uint128Low64_def ha_la_hb_lb_def [symmetric] a32_a00_b32_b00_def [symmetric]
    using parts(2,3,5,6)
    by (simp only: high_hom ucast_mult_half push_bit_eq_mult t_def distrib_left ha_la_hb_lb_def mult.commute)
  also have "\<dots> = (high_weight * ha + ?U la) * (high_weight * hb + ?U lb)"
    by (simp add: ua ub algebra_simps ttx)
  finally show ?thesis
    by (simp only: u128_eta ha_la_hb_lb_def)
qed

section \<open>Division\<close>

text \<open>No wrap-around: the operators on values, under the bounds the division loop guarantees.\<close>

lemma u128_val_of_word: "u128 a = word_of_int x \<Longrightarrow> 0 \<le> x \<Longrightarrow> x < 2 ^ 128 \<Longrightarrow> u128_val a = x"
  using uint_u128 [of a] by (simp add: uint_word_of_int_eq take_bit_int_eq_self)

lemma u128_of_val: "u128 a = word_of_int (u128_val a)"
  by (simp only: uint_u128 [symmetric] word_of_int_uint)

lemma u128_val_sub:
  "u128_val b \<le> u128_val a \<Longrightarrow> u128_val (uint128_sub a b) = u128_val a - u128_val b"
  using u128_val_range [of a] u128_val_range [of b]
  by (intro u128_val_of_word) (simp_all add: u128_sub u128_of_val [of a] u128_of_val [of b])

lemma u128_val_shl:
  "u128_val a * 2 ^ n < 2 ^ 128 \<Longrightarrow> u128_val (uint128_shl a n) = u128_val a * 2 ^ n"
  using u128_val_range [of a]
  by (intro u128_val_of_word)
    (simp_all only: u128_shl u128_of_val [of a] push_bit_eq_mult of_int_mult of_int_power of_int_numeral, simp_all)

lemma u128_val_shr: "u128_val (uint128_shr a n) = u128_val a div 2 ^ n"
proof -
  have "uint (drop_bit n (u128 a)) = drop_bit n (uint (u128 a))"
    by (rule bit_eqI) (auto simp: bit_uint_iff bit_drop_bit_eq dest: bit_imp_le_length)
  then show ?thesis by (simp only: uint_u128 [symmetric] u128_shr drop_bit_eq_div)
qed

lemma u128_val_compare:
  "uint128_less a b \<longleftrightarrow> u128_val a < u128_val b"
  "uint128_greater a b \<longleftrightarrow> u128_val b < u128_val a"
  "uint128_less_eq a b \<longleftrightarrow> u128_val a \<le> u128_val b"
  "uint128_greater_eq a b \<longleftrightarrow> u128_val b \<le> u128_val a"
  "uint128_eq a b \<longleftrightarrow> u128_val a = u128_val b"
  by (simp_all add: u128_less u128_compare word_less_def word_le_def uint_u128 word_uint_eq_iff)

lemma msb_bounds:
  fixes w :: "64 word"
  assumes "w \<noteq> 0"
  obtains k where "bit_length (unat w) = Suc k" "k < 64" "2 ^ k \<le> uint w" "uint w < 2 ^ Suc k"
proof -
  have pos: "0 < unat w" using assms by (simp add: unat_gt_0)
  then obtain k where k: "bit_length (unat w) = Suc k" by (auto simp: bit_length.simps [of "unat w"])
  have "k < 64" using bit_length_le [of "unat w" 64] unsigned_less [of w, where ?'a = nat] k by simp
  moreover have "int (2 ^ k) \<le> int (unat w)" "int (unat w) < int (2 ^ Suc k)"
    using bit_length_bounds [OF pos] k by (simp_all only: of_nat_le_iff of_nat_less_iff diff_Suc_1)
  ultimately show thesis using k by (intro that [of k]) simp_all
qed

lemma Fls128_bounds:
  assumes "u128_val n \<noteq> 0"
  obtains k where "Fls128 n = int k" "k < 128" "2 ^ k \<le> u128_val n" "u128_val n < 2 ^ Suc k"
proof (cases "u_hi n = 0")
  case True
  with assms have "u_lo n \<noteq> 0" by (auto simp: u128_val_def)
  then obtain k where "bit_length (unat (u_lo n)) = Suc k" "k < 64" "2 ^ k \<le> uint (u_lo n)"
    "uint (u_lo n) < 2 ^ Suc k" by (rule msb_bounds)
  with True show thesis
    by (intro that [of k]) (simp_all add: Fls128_def halves_simps countl_zero_eq u128_val_def)
next
  case False
  then obtain k where k: "bit_length (unat (u_hi n)) = Suc k" "k < 64" "2 ^ k \<le> uint (u_hi n)"
    "uint (u_hi n) + 1 \<le> 2 ^ Suc k" by (auto elim: msb_bounds)
  have "2 ^ k * 2 ^ 64 \<le> uint (u_hi n) * 2 ^ 64" "(uint (u_hi n) + 1) * 2 ^ 64 \<le> 2 ^ Suc k * 2 ^ 64"
    using k by (simp_all only: mult_le_cancel_right) simp_all
  then have "2 ^ (64 + k) \<le> u128_val n" "u128_val n < 2 ^ Suc (64 + k)"
    using uint_lt2p [of "u_lo n"] uint_ge_0 [of "u_lo n"] unfolding u128_val_def power_add power_Suc
    by (simp_all del: uint_ge_0 unsigned_greater_eq)
  with k(1,2) False show thesis
    by (intro that [of "64 + k"]) (simp_all add: Fls128_def halves_simps countl_zero_eq)
qed

lemma or_one_shl:
  "u128 (uint128_or (uint128_shl q 1) (uint128_of_u64 1)) = u128 q * 2 + 1"
proof -
  have "push_bit (Suc 0) (u128 q) OR 1 = push_bit (Suc 0) (u128 q) + 1"
    by (rule disjunctive_add [symmetric]) (auto simp del: push_bit_Suc simp: bit_simps)
  then show ?thesis by (simp add: u128_bitops u128_shl u128_of_u64 push_bit_eq_mult)
qed

lemma divmod_loop_correct:
  assumes "0 < d" "u128_val D < d * 2 ^ i" "i > 0 \<longrightarrow> u128_val den = d * 2 ^ (i - 1)"
  shows "u128 (fst (divmod_loop i D den q)) = u128 q * 2 ^ i + word_of_int (u128_val D div d) \<and>
    u128_val (snd (divmod_loop i D den q)) = u128_val D mod d"
  using assms
proof (induction i arbitrary: D den q)
  case 0
  then show ?case using u128_val_range [of D] by simp
next
  case (Suc i)
  define D' where "D' = (if u128_val den \<le> u128_val D then uint128_sub D den else D)"
  define q' where "q' = (if u128_val den \<le> u128_val D
    then uint128_or (uint128_shl q 1) (uint128_of_u64 1) else uint128_shl q 1)"
  define c :: int where "c = (if u128_val den \<le> u128_val D then 1 else 0)"
  have den: "u128_val den = d * 2 ^ i" using Suc.prems by simp
  have D': "u128_val D' = u128_val D - c * 2 ^ i * d"
    using den by (simp add: D'_def c_def u128_val_sub)
  have q': "u128 q' = u128 q * 2 + word_of_int c"
    using or_one_shl [of q] by (simp add: q'_def c_def u128_shl push_bit_eq_mult)
  have less: "u128_val D' < d * 2 ^ i"
    using Suc.prems(2) den unfolding D' by (auto simp: c_def algebra_simps)
  have den': "0 < i \<longrightarrow> u128_val (uint128_shr den 1) = d * 2 ^ (i - 1)"
    by (cases i) (simp_all add: u128_val_shr den)
  have step: "divmod_loop (Suc i) D den q = divmod_loop i D' (uint128_shr den 1) q'"
    by (simp add: D'_def q'_def u128_val_compare)
  have div: "u128_val D div d = u128_val D' div d + c * 2 ^ i" "u128_val D mod d = u128_val D' mod d"
    using Suc.prems(1) div_mult_self2 [of d "u128_val D'" "c * 2 ^ i"]
      mod_mult_self1 [of "u128_val D'" "c * 2 ^ i" d]
    by (simp_all add: D' algebra_simps)
  show ?case
    unfolding step div using Suc.IH [OF Suc.prems(1) less den', of q']
    by (simp add: q' algebra_simps)
qed

lemma divmod_shift_range:
  assumes "u128_val b \<noteq> 0" and "u128_val b \<le> u128_val a"
  shows "0 \<le> Fls128 a - Fls128 b \<and> Fls128 a - Fls128 b < 128"
proof -
  have a: "u128_val a \<noteq> 0" using assms u128_val_range [of b] by linarith
  obtain k where k: "Fls128 a = int k" "k < 128" "u128_val a < 2 ^ Suc k" using a by (rule Fls128_bounds)
  obtain j where j: "Fls128 b = int j" "2 ^ j \<le> u128_val b" using assms(1) by (rule Fls128_bounds)
  have "(2::int) ^ j < 2 ^ Suc k" using assms(2) j k by linarith
  then have "j \<le> k" using power_less_imp_less_exp [of "2::int" j "Suc k"] by simp
  with j k show ?thesis by simp
qed

lemma DivModImpl_correct:
  assumes b: "u128_val b \<noteq> 0"
  shows "u128_val (fst (DivModImpl a b)) = u128_val a div u128_val b \<and>
    u128_val (snd (DivModImpl a b)) = u128_val a mod u128_val b"
proof -
  have zero: "u128_val (uint128_of_u64 0) = 0" and one: "u128_val (uint128_of_u64 1) = 1"
    by (simp_all add: u128_val_def halves_simps)
  have pos: "0 < u128_val b" "0 \<le> u128_val a" using b u128_val_range [of b] u128_val_range [of a] by auto
  consider "u128_val a < u128_val b" | "u128_val a = u128_val b" | "u128_val b < u128_val a" by linarith
  then show ?thesis
  proof cases
    case 3
    obtain k where k: "Fls128 a = int k" "k < 128" "2 ^ k \<le> u128_val a" "u128_val a < 2 ^ Suc k"
      using pos 3 Fls128_bounds [of a] by (metis less_irrefl order.strict_trans)
    obtain j where j: "Fls128 b = int j" "2 ^ j \<le> u128_val b" "u128_val b < 2 ^ Suc j"
      using b by (rule Fls128_bounds)
    have "(2::int) ^ j < 2 ^ Suc k" using 3 j k by linarith
    then have le: "j \<le> k" using power_less_imp_less_exp [of "2::int" j "Suc k"] by simp
    have split: "(2::int) ^ Suc k = 2 ^ Suc j * 2 ^ (k - j)" using le by (simp flip: power_add)
    have "u128_val b * 2 ^ (k - j) < 2 ^ Suc k"
      unfolding split using j(3) by (rule mult_strict_right_mono) simp
    moreover have "(2::int) ^ Suc k \<le> 2 ^ 128" using k(2) by (intro power_increasing) auto
    ultimately have den: "u128_val (uint128_shl b (k - j)) = u128_val b * 2 ^ (k - j)"
      by (intro u128_val_shl) linarith
    have "(2::int) ^ j * 2 ^ Suc (k - j) \<le> u128_val b * 2 ^ Suc (k - j)"
      using j(2) by (rule mult_right_mono) simp
    then have "u128_val a < u128_val b * 2 ^ Suc (k - j)"
      using k(4) le by (simp flip: power_add power_Suc)
    from divmod_loop_correct [OF pos(1) this, of "uint128_shl b (k - j)" "uint128_of_u64 0"] den
    have "u128 (fst (DivModImpl a b)) = word_of_int (u128_val a div u128_val b) \<and>
      u128_val (snd (DivModImpl a b)) = u128_val a mod u128_val b"
      using 3 le k(1) j(1)
      by (simp add: DivModImpl_def u128_val_compare Let_def u128_of_u64 nat_add_distrib nat_diff_distrib
          flip: of_nat_diff)
    moreover have "u128_val a div u128_val b < 2 ^ 128"
      using u128_val_range [of a] pos zdiv_mono2 [of "u128_val a" 1 "u128_val b"] by simp
    ultimately show ?thesis using pos by (simp add: u128_val_of_word pos_imp_zdiv_nonneg_iff)
  qed (use pos in \<open>simp_all add: DivModImpl_def u128_val_compare zero one\<close>)
qed

section \<open>Signed values\<close>

definition i128_val :: "int128 \<Rightarrow> int" where
  "i128_val v = sint (i_hi v) * 2 ^ 64 + uint (i_lo v)"

lemma BitCastToSigned_sint: "BitCastToSigned v = sint v"
proof (rule bit_eqI)
  fix n :: nat
  have m: "v AND push_bit 63 1 \<noteq> 0 \<longleftrightarrow> bit v 63"
    using and_exp_eq_0_iff_not_bit [of v 63] by (simp only: push_bit_eq_mult mult_1_left not_not)
  consider "n < 63" | "n = 63" | "63 < n" by linarith
  then show "bit (BitCastToSigned v) n \<longleftrightarrow> bit (sint v) n"
    unfolding BitCastToSigned_def m
    by cases (auto simp: bit_not_iff bit_uint_iff bit_sint_iff dest: bit_imp_le_length)
qed

lemma cast_int128:
  "uint128_of_int128 (MakeInt128 (BitCastToSigned (Uint128High64 q)) (Uint128Low64 q)) = q"
  by (cases q)
    (simp add: uint128_of_int128_def MakeInt128_def BitCastToSigned_sint Int128High64_def Int128Low64_def
      halves_simps)

lemma i128_val_sint: "i128_val v = sint (u128 (uint128_of_int128 v))"
proof -
  have "sint (u128 (uint128_of_int128 v)) = concat_bit 64 (uint (i_lo v)) (sint (i_hi v))"
    by (rule bit_eqI)
      (auto simp: bit_sint_iff bit_u128 uint128_of_int128_def MakeInt128_def Int128High64_def
        Int128Low64_def halves_simps bit_concat_bit_iff bit_uint_iff dest: bit_imp_le_length)
  also have "\<dots> = take_bit 64 (uint (i_lo v)) + 2 ^ 64 * sint (i_hi v)"
    by (simp add: concat_bit_eq push_bit_eq_mult)
  also have "take_bit 64 (uint (i_lo v)) = uint (i_lo v)"
    using uint_lt2p [of "i_lo v"] by (simp add: take_bit_int_eq_self_iff)
  finally show ?thesis by (simp add: i128_val_def)
qed

lemma i128_val_range: "- (2 ^ 127) \<le> i128_val v" "i128_val v < 2 ^ 127"
  using sint_ge [of "u128 (uint128_of_int128 v)"] sint_lt [of "u128 (uint128_of_int128 v)"]
  by (simp_all add: i128_val_sint)

lemma i128_val_cast:
  assumes "u128 q = word_of_int x" "- (2 ^ 127) \<le> x" "x < 2 ^ 127"
  shows "i128_val (MakeInt128 (BitCastToSigned (Uint128High64 q)) (Uint128Low64 q)) = x"
  using assms by (simp add: i128_val_sint cast_int128 sint_sbintrunc' signed_take_bit_int_eq_self)

lemma i128_val_neg_iff: "Int128High64 v < 0 \<longleftrightarrow> i128_val v < 0"
  using uint_lt2p [of "i_lo v"] uint_ge_0 [of "i_lo v"]
  unfolding Int128High64_def i128_val_def by (simp del: uint_ge_0 unsigned_greater_eq) linarith

lemma UnsignedAbsoluteValue_val: "u128_val (UnsignedAbsoluteValue v) = \<bar>i128_val v\<bar>"
proof (rule u128_val_of_word)
  have "u128 (uint128_of_int128 v) = word_of_int (i128_val v)"
    by (simp add: i128_val_sint)
  then show "u128 (UnsignedAbsoluteValue v) = word_of_int \<bar>i128_val v\<bar>"
    by (simp add: UnsignedAbsoluteValue_def i128_val_neg_iff u128_neg)
  show "\<bar>i128_val v\<bar> < 2 ^ 128" using i128_val_range [of v] by simp
qed simp

lemma sdiv_range:
  fixes a b M :: int
  assumes "- M \<le> a" "a < M" "b \<noteq> 0" "a \<noteq> - M \<or> b \<noteq> - 1"
  shows "- M \<le> a sdiv b \<and> a sdiv b < M"
proof (cases "\<bar>b\<bar> = 1")
  case True
  then have "b = 1 \<or> b = - 1" by auto
  then show ?thesis using assms by auto
next
  case False
  have q: "\<bar>a sdiv b\<bar> \<le> \<bar>a\<bar> div \<bar>b\<bar>"
    by (simp add: signed_divide_int_def abs_mult sgn_if pos_imp_zdiv_nonneg_iff)
  have "\<bar>a\<bar> div \<bar>b\<bar> < M"
  proof (cases "a = 0")
    case False
    then have "\<bar>a\<bar> div \<bar>b\<bar> < \<bar>a\<bar>" using \<open>\<bar>b\<bar> \<noteq> 1\<close> assms(3) by (intro int_div_less_self) auto
    then show ?thesis using assms(1,2) by linarith
  qed (use assms in auto)
  with q show ?thesis by linarith
qed

lemma int128_div_val:
  assumes b: "i128_val b \<noteq> 0" and ov: "i128_val a \<noteq> - (2 ^ 127) \<or> i128_val b \<noteq> - 1"
  shows "i128_val (int128_div a b) = i128_val a sdiv i128_val b"
proof -
  let ?q = "fst (DivModImpl (UnsignedAbsoluteValue a) (UnsignedAbsoluteValue b))"
  have q: "u128 ?q = word_of_int (\<bar>i128_val a\<bar> div \<bar>i128_val b\<bar>)"
    using DivModImpl_correct [of "UnsignedAbsoluteValue b" "UnsignedAbsoluteValue a"] b
    by (simp add: u128_of_val UnsignedAbsoluteValue_val)
  define s where "s = (if (Int128High64 a < 0) \<noteq> (Int128High64 b < 0) then uint128_neg ?q else ?q)"
  have "u128 s = word_of_int (i128_val a sdiv i128_val b)"
    using b by (auto simp: s_def u128_neg q signed_divide_int_def i128_val_neg_iff sgn_if mult_less_0_iff)
  moreover have "- (2 ^ 127) \<le> i128_val a sdiv i128_val b \<and> i128_val a sdiv i128_val b < 2 ^ 127"
    using i128_val_range [of a] b ov by (rule sdiv_range)
  ultimately show ?thesis
    using i128_val_cast [of s] by (simp add: int128_div_def s_def split_beta Let_def)
qed

lemma int128_mod_val:
  assumes b: "i128_val b \<noteq> 0"
  shows "i128_val (int128_mod a b) = i128_val a smod i128_val b"
proof -
  let ?r = "snd (DivModImpl (UnsignedAbsoluteValue a) (UnsignedAbsoluteValue b))"
  have r: "u128 ?r = word_of_int (\<bar>i128_val a\<bar> mod \<bar>i128_val b\<bar>)"
    using DivModImpl_correct [of "UnsignedAbsoluteValue b" "UnsignedAbsoluteValue a"] b
    by (simp add: u128_of_val UnsignedAbsoluteValue_val)
  define s where "s = (if Int128High64 a < 0 then uint128_neg ?r else ?r)"
  have "u128 s = word_of_int (i128_val a smod i128_val b)"
    using b by (auto simp: s_def u128_neg r signed_modulo_int_def i128_val_neg_iff sgn_if)
  moreover have "\<bar>i128_val a smod i128_val b\<bar> \<le> \<bar>i128_val a\<bar> mod \<bar>i128_val b\<bar>"
    using b by (auto simp: signed_modulo_int_def abs_mult sgn_if)
  moreover have "\<bar>i128_val a\<bar> mod \<bar>i128_val b\<bar> < 2 ^ 127"
    using i128_val_range [of b] b by (intro less_le_trans [OF pos_mod_bound]) auto
  ultimately show ?thesis
    using i128_val_cast [of s] by (simp add: int128_mod_def s_def split_beta Let_def)
qed

section \<open>Properties\<close>


text \<open>
  C36: The shift-subtract division of \<^verbatim>\<open>uint128\<close> returns the exact quotient and remainder for every
  dividend and every non-zero divisor.
\<close>

theorem uint128_division:
  assumes "\<not> uint128_is_zero b"
  shows "u128_val (uint128_div a b) = u128_val a div u128_val b \<and>
    u128_val (uint128_mod a b) = u128_val a mod u128_val b"
proof -
  have "u128_val b \<noteq> 0" using assms by (auto simp: u128_compare u128_of_val)
  then show ?thesis using DivModImpl_correct [of b a] by (simp add: uint128_div_def uint128_mod_def)
qed

theorem uint128_division_witness:
  "u128_val (uint128_div (MakeUint128 1 0) (MakeUint128 0 10)) = 1844674407370955161 \<and>
   u128_val (uint128_mod (MakeUint128 1 0) (MakeUint128 0 10)) = 6"
  using uint128_division [of "MakeUint128 0 10" "MakeUint128 1 0"]
  by (simp add: uint128_is_zero_def halves_simps u128_val_def)

text \<open>
  C37: The signed 128-bit division truncates towards zero and the remainder takes the sign of the
  dividend, for every non-zero divisor except the overflowing quotient of the smallest value by -1.
\<close>

theorem int128_division:
  assumes "i128_val b \<noteq> 0" "i128_val a \<noteq> i128_val Int128Min \<or> i128_val b \<noteq> - 1"
  shows "i128_val (int128_div a b) = i128_val a sdiv i128_val b \<and>
    i128_val (int128_mod a b) = i128_val a smod i128_val b"
proof -
  have "i128_val Int128Min = - (2 ^ 127)" by (simp add: i128_val_def Int128Min_def MakeInt128_def)
  then show ?thesis using assms int128_div_val [of b a] int128_mod_val [of b a] by simp
qed

theorem int128_division_witness:
  "i128_val (int128_div (MakeInt128 (- 1) (- 7)) (MakeInt128 0 2)) = - 3 \<and>
   i128_val (int128_mod (MakeInt128 (- 1) (- 7)) (MakeInt128 0 2)) = - 1"
  using int128_division [of "MakeInt128 0 2" "MakeInt128 (- 1) (- 7)"]
  by (simp add: i128_val_def MakeInt128_def Int128Min_def signed_divide_int_def signed_modulo_int_def)

end
