(* ===== verification/Duration.thy ===== *)
theory Duration
  imports Int128
begin

unbundle bit_operations_syntax

text \<open>
  \<^verbatim>\<open>absl::Duration\<close>: the representation and the integer operators of \<^verbatim>\<open>absl/time/time.h\<close> and
  \<^verbatim>\<open>absl/time/duration.cc\<close>. A duration is a signed 64-bit number of seconds (stored as two
  32-bit halves) and an unsigned 32-bit number of quarter nanoseconds; the value all ones of the low
  part marks the two infinities. The abstraction \<open>dur_val\<close> reads a duration as an extended integer
  number of ticks, and every operator is shown to be the saturating operation on it.
\<close>

section \<open>Representation\<close>

record HiRep =
  hr_hi :: "32 word"
  hr_lo :: "32 word"

record Duration =
  dur_hi :: HiRep
  dur_lo :: "32 word"

definition HiRep_Get :: "HiRep \<Rightarrow> int" where
  "HiRep_Get r = (let unsigned_value = push_bit 32 (ucast (hr_hi r)) OR (ucast (hr_lo r)) :: 64 word
                  in sint unsigned_value)"

definition HiRep_assign :: "int \<Rightarrow> HiRep" where
  "HiRep_assign v = (let unsigned_value = word_of_int v :: 64 word
     in \<lparr>hr_hi = ucast (drop_bit 32 unsigned_value), hr_lo = ucast unsigned_value\<rparr>)"

definition kTicksPerNanosecond :: int where
  "kTicksPerNanosecond = 4"

definition kTicksPerSecond :: int where
  "kTicksPerSecond = 1000 * 1000 * 1000 * kTicksPerNanosecond"

definition MakeDuration :: "int \<Rightarrow> int \<Rightarrow> Duration" where
  "MakeDuration hi lo = \<lparr>dur_hi = HiRep_assign hi, dur_lo = word_of_int lo\<rparr>"

definition MakeNormalizedDuration :: "int \<Rightarrow> int \<Rightarrow> Duration" where
  "MakeNormalizedDuration sec ticks =
     (if ticks < 0 then MakeDuration (sec - 1) (ticks + kTicksPerSecond) else MakeDuration sec ticks)"

definition GetRepHi :: "Duration \<Rightarrow> int" where
  "GetRepHi d = HiRep_Get (dur_hi d)"

definition GetRepLo :: "Duration \<Rightarrow> int" where
  "GetRepLo d = uint (dur_lo d)"

text \<open>\<^verbatim>\<open>~uint32_t{0}\<close>.\<close>

definition uint32_ones :: int where
  "uint32_ones = uint (NOT 0 :: 32 word)"

definition IsInfiniteDuration :: "Duration \<Rightarrow> bool" where
  "IsInfiniteDuration d \<longleftrightarrow> GetRepLo d = uint32_ones"

definition InfiniteDuration :: Duration where
  "InfiniteDuration = MakeDuration int64_max uint32_ones"

definition ZeroDuration :: Duration where
  "ZeroDuration = MakeDuration 0 0"

definition OppositeInfinity :: "Duration \<Rightarrow> Duration" where
  "OppositeInfinity d =
     (if GetRepHi d < 0 then MakeDuration int64_max uint32_ones else MakeDuration int64_min uint32_ones)"

definition NegateAndSubtractOne :: "int \<Rightarrow> int" where
  "NegateAndSubtractOne n = (if n < 0 then - (n + 1) else (- n) - 1)"

section \<open>Comparison and negation\<close>

text \<open>\<open>uint32_succ\<close> is the addition of 1 to a \<^verbatim>\<open>uint32_t\<close>, which wraps around.\<close>

definition uint32_succ :: "int \<Rightarrow> int" where
  "uint32_succ n = (n + 1) mod 2 ^ 32"

definition dur_less :: "Duration \<Rightarrow> Duration \<Rightarrow> bool" where
  "dur_less lhs rhs =
     (if GetRepHi lhs \<noteq> GetRepHi rhs then GetRepHi lhs < GetRepHi rhs
      else if GetRepHi lhs = int64_min then uint32_succ (GetRepLo lhs) < uint32_succ (GetRepLo rhs)
      else GetRepLo lhs < GetRepLo rhs)"

definition dur_greater :: "Duration \<Rightarrow> Duration \<Rightarrow> bool" where
  "dur_greater lhs rhs = dur_less rhs lhs"

definition dur_greater_eq :: "Duration \<Rightarrow> Duration \<Rightarrow> bool" where
  "dur_greater_eq lhs rhs = (\<not> dur_less lhs rhs)"

definition dur_less_eq :: "Duration \<Rightarrow> Duration \<Rightarrow> bool" where
  "dur_less_eq lhs rhs = (\<not> dur_less rhs lhs)"

definition dur_eq :: "Duration \<Rightarrow> Duration \<Rightarrow> bool" where
  "dur_eq lhs rhs \<longleftrightarrow> GetRepHi lhs = GetRepHi rhs \<and> GetRepLo lhs = GetRepLo rhs"

definition dur_neg :: "Duration \<Rightarrow> Duration" where
  "dur_neg d =
     (if GetRepLo d = 0 then
        if GetRepHi d = int64_min then InfiniteDuration else MakeDuration (- GetRepHi d) 0
      else if IsInfiniteDuration d then OppositeInfinity d
      else MakeDuration (NegateAndSubtractOne (GetRepHi d)) (kTicksPerSecond - GetRepLo d))"

definition AbsDuration :: "Duration \<Rightarrow> Duration" where
  "AbsDuration d = (if dur_less d ZeroDuration then dur_neg d else d)"

section \<open>Additive operators\<close>

definition EncodeTwosComp :: "int \<Rightarrow> 64 word" where
  "EncodeTwosComp v = word_of_int v"

definition DecodeTwosComp :: "64 word \<Rightarrow> int" where
  "DecodeTwosComp v = sint v"

text \<open>The low part is a \<^verbatim>\<open>uint32_t\<close>: the intermediate subtraction of a second wraps around.\<close>

definition dur_add :: "Duration \<Rightarrow> Duration \<Rightarrow> Duration" where
  "dur_add this rhs =
     (if IsInfiniteDuration this then this
      else if IsInfiniteDuration rhs then rhs
      else
        let orig_rep_hi = GetRepHi this;
            hi = DecodeTwosComp (EncodeTwosComp (GetRepHi this) + EncodeTwosComp (GetRepHi rhs));
            (hi, lo) =
              (if GetRepLo this \<ge> kTicksPerSecond - GetRepLo rhs
               then (DecodeTwosComp (EncodeTwosComp hi + 1), dur_lo this - word_of_int kTicksPerSecond)
               else (hi, dur_lo this));
            lo = lo + dur_lo rhs
        in if (if GetRepHi rhs < 0 then hi > orig_rep_hi else hi < orig_rep_hi)
           then (if GetRepHi rhs < 0 then dur_neg InfiniteDuration else InfiniteDuration)
           else MakeDuration hi (uint lo))"

definition dur_sub :: "Duration \<Rightarrow> Duration \<Rightarrow> Duration" where
  "dur_sub this rhs =
     (if IsInfiniteDuration this then this
      else if IsInfiniteDuration rhs then
        (if GetRepHi rhs \<ge> 0 then dur_neg InfiniteDuration else InfiniteDuration)
      else
        let orig_rep_hi = GetRepHi this;
            hi = DecodeTwosComp (EncodeTwosComp (GetRepHi this) - EncodeTwosComp (GetRepHi rhs));
            (hi, lo) =
              (if GetRepLo this < GetRepLo rhs
               then (DecodeTwosComp (EncodeTwosComp hi - 1), dur_lo this + word_of_int kTicksPerSecond)
               else (hi, dur_lo this));
            lo = lo - dur_lo rhs
        in if (if GetRepHi rhs < 0 then hi < orig_rep_hi else hi > orig_rep_hi)
           then (if GetRepHi rhs \<ge> 0 then dur_neg InfiniteDuration else InfiniteDuration)
           else MakeDuration hi (uint lo))"

section \<open>Scaling by an integer\<close>

text \<open>The magnitude of a 64-bit integer; \<open>a + 1\<close> makes the negation safe.\<close>

definition MakeU128 :: "int \<Rightarrow> uint128" where
  "MakeU128 a =
     (let u128 = uint128_of_u64 0;
          (u128, a) = (if a < 0 then (uint128_add u128 (uint128_of_u64 1), - (a + 1)) else (u128, a))
      in uint128_add u128 (uint128_of_u64 (word_of_int a)))"

definition MakeU128Ticks :: "Duration \<Rightarrow> uint128" where
  "MakeU128Ticks d =
     (let rep_hi = GetRepHi d;
          rep_lo = GetRepLo d;
          (rep_hi, rep_lo) =
            (if rep_hi < 0 then (- (rep_hi + 1), (kTicksPerSecond - rep_lo) mod 2 ^ 32)
             else (rep_hi, rep_lo));
          u128 = uint128_of_u64 (word_of_int rep_hi);
          u128 = uint128_mul u128 (uint128_of_u64 (word_of_int kTicksPerSecond))
      in uint128_add u128 (uint128_of_u64 (word_of_int rep_lo)))"

definition kMaxRepHi64 :: "64 word" where
  "kMaxRepHi64 = 0x77359400"

definition apply_sign :: "bool \<Rightarrow> int \<Rightarrow> int \<Rightarrow> Duration" where
  "apply_sign is_neg rep_hi rep_lo =
     (if is_neg then
        if rep_lo \<noteq> 0 then MakeDuration (- rep_hi - 1) (kTicksPerSecond - rep_lo)
        else MakeDuration (- rep_hi) rep_lo
      else MakeDuration rep_hi rep_lo)"

definition MakeDurationFromU128 :: "uint128 \<Rightarrow> bool \<Rightarrow> Duration" where
  "MakeDurationFromU128 v is_neg =
     (let h64 = Uint128High64 v;
          l64 = Uint128Low64 v
      in if h64 = 0 then
           let hi = l64 div word_of_int kTicksPerSecond
           in apply_sign is_neg (sint hi)
                (uint (ucast (l64 - hi * word_of_int kTicksPerSecond) :: 32 word))
         else if h64 \<ge> kMaxRepHi64 then
           if is_neg \<and> h64 = kMaxRepHi64 \<and> l64 = 0 then MakeDuration int64_min 0
           else if is_neg then dur_neg InfiniteDuration else InfiniteDuration
         else
           let kTicksPerSecond128 = uint128_of_u64 (word_of_int kTicksPerSecond);
               hi = uint128_div v kTicksPerSecond128
           in apply_sign is_neg (sint (Uint128Low64 hi))
                (uint (ucast (Uint128Low64 (uint128_sub v (uint128_mul hi kTicksPerSecond128))) :: 32 word)))"

definition SafeMultiply :: "uint128 \<Rightarrow> uint128 \<Rightarrow> uint128" where
  "SafeMultiply a b =
     (if Uint128High64 a = 0 then
        if drop_bit 32 (Uint128Low64 a OR Uint128Low64 b) = 0
        then uint128_of_u64 (Uint128Low64 a * Uint128Low64 b)
        else uint128_mul a b
      else if uint128_eq b (uint128_of_u64 0) then b
      else if uint128_greater a (uint128_div Uint128Max b) then Uint128Max
      else uint128_mul a b)"

definition ScaleFixed :: "(uint128 \<Rightarrow> uint128 \<Rightarrow> uint128) \<Rightarrow> Duration \<Rightarrow> int \<Rightarrow> Duration" where
  "ScaleFixed operation d r =
     (let a = MakeU128Ticks d;
          b = MakeU128 r;
          q = operation a b;
          is_neg = ((GetRepHi d < 0) \<noteq> (r < 0))
      in MakeDurationFromU128 q is_neg)"

definition dur_mul :: "Duration \<Rightarrow> int \<Rightarrow> Duration" where
  "dur_mul this r =
     (if IsInfiniteDuration this then
        let is_neg = ((r < 0) \<noteq> (GetRepHi this < 0))
        in if is_neg then dur_neg InfiniteDuration else InfiniteDuration
      else ScaleFixed SafeMultiply this r)"

definition dur_div_int :: "Duration \<Rightarrow> int \<Rightarrow> Duration" where
  "dur_div_int this r =
     (if IsInfiniteDuration this \<or> r = 0 then
        let is_neg = ((r < 0) \<noteq> (GetRepHi this < 0))
        in if is_neg then dur_neg InfiniteDuration else InfiniteDuration
      else ScaleFixed uint128_div this r)"

section \<open>Abstraction\<close>

text \<open>A duration as an extended number of ticks (quarter nanoseconds).\<close>

datatype dval = NegInf | Fin int | PosInf

definition dur_ticks :: "Duration \<Rightarrow> int" where
  "dur_ticks d = GetRepHi d * kTicksPerSecond + GetRepLo d"

definition dur_val :: "Duration \<Rightarrow> dval" where
  "dur_val d =
     (if IsInfiniteDuration d then if GetRepHi d < 0 then NegInf else PosInf else Fin (dur_ticks d))"

text \<open>The representation invariant: a normalised finite value or one of the two infinities.\<close>

definition dur_ok :: "Duration \<Rightarrow> bool" where
  "dur_ok d \<longleftrightarrow> (if IsInfiniteDuration d then GetRepHi d = int64_min \<or> GetRepHi d = int64_max
                 else GetRepLo d < kTicksPerSecond)"

abbreviation min_ticks :: int where
  "min_ticks \<equiv> int64_min * 4000000000"

abbreviation max_ticks :: int where
  "max_ticks \<equiv> int64_max * 4000000000 + 3999999999"

definition sat :: "int \<Rightarrow> dval" where
  "sat t = (if t < min_ticks then NegInf else if t > max_ticks then PosInf else Fin t)"

fun dval_less :: "dval \<Rightarrow> dval \<Rightarrow> bool" where
  "dval_less (Fin a) (Fin b) = (a < b)"
| "dval_less NegInf b = (b \<noteq> NegInf)"
| "dval_less a PosInf = (a \<noteq> PosInf)"
| "dval_less a b = False"

fun dval_neg :: "dval \<Rightarrow> dval" where
  "dval_neg (Fin a) = sat (- a)"
| "dval_neg NegInf = PosInf"
| "dval_neg PosInf = NegInf"

text \<open>The left operand's infinity is sticky.\<close>

fun dval_add :: "dval \<Rightarrow> dval \<Rightarrow> dval" where
  "dval_add (Fin a) (Fin b) = sat (a + b)"
| "dval_add (Fin a) b = b"
| "dval_add a b = a"

fun dval_sub :: "dval \<Rightarrow> dval \<Rightarrow> dval" where
  "dval_sub (Fin a) (Fin b) = sat (a - b)"
| "dval_sub (Fin a) b = dval_neg b"
| "dval_sub a b = a"

fun dval_scale :: "(int \<Rightarrow> int \<Rightarrow> int) \<Rightarrow> dval \<Rightarrow> int \<Rightarrow> dval" where
  "dval_scale f (Fin a) r = sat (f a r)"
| "dval_scale f a r = (if r < 0 then dval_neg a else a)"

section \<open>The representation\<close>

lemmas tick_consts = kTicksPerSecond_def kTicksPerNanosecond_def

lemma sint_in_int64: "in_int64 (sint (w :: 64 word))"
  using sint_ge [of w] sint_lt [of w] by (simp add: in_int64_def)

lemma sint_of_int64: "in_int64 v \<Longrightarrow> sint (word_of_int v :: 64 word) = v"
  by (simp add: sint_sbintrunc' signed_take_bit_int_eq_self in_int64_def)

lemma halves_join: "push_bit 32 (ucast (ucast (drop_bit 32 w) :: 32 word)) OR ucast (ucast w :: 32 word) = (w :: 64 word)"
  by (rule bit_word_eqI) (auto simp: bit_simps)

lemma HiRep_Get_assign: "in_int64 v \<Longrightarrow> HiRep_Get (HiRep_assign v) = v"
  by (simp add: HiRep_Get_def HiRep_assign_def Let_def halves_join sint_of_int64)

lemma HiRep_assign_Get: "HiRep_assign (HiRep_Get r) = r"
proof -
  define w :: "64 word" where "w = push_bit 32 (ucast (hr_hi r)) OR ucast (hr_lo r)"
  have "ucast (drop_bit 32 w) = hr_hi r" "ucast w = hr_lo r"
    unfolding w_def by (rule bit_word_eqI; auto simp: bit_simps dest: bit_imp_le_length)+
  moreover have "HiRep_Get r = sint w" by (simp only: HiRep_Get_def Let_def w_def)
  ultimately show ?thesis by (simp add: HiRep_assign_def Let_def)
qed

lemma GetRepHi_range: "in_int64 (GetRepHi d)"
  by (simp add: GetRepHi_def HiRep_Get_def sint_in_int64)

lemma GetRepLo_range: "0 \<le> GetRepLo d" "GetRepLo d < 2 ^ 32"
  using uint_lt2p [of "dur_lo d"] by (simp_all add: GetRepLo_def)

lemma Get_Make [simp]:
  "in_int64 h \<Longrightarrow> GetRepHi (MakeDuration h l) = h"
  "0 \<le> l \<Longrightarrow> l < 4294967296 \<Longrightarrow> GetRepLo (MakeDuration h l) = l"
  by (simp_all add: GetRepHi_def GetRepLo_def MakeDuration_def HiRep_Get_assign uint_word_of_int_eq take_bit_int_eq_self)

lemma Make_Get: "MakeDuration (GetRepHi d) (GetRepLo d) = d"
  by (cases d) (simp add: MakeDuration_def GetRepHi_def GetRepLo_def HiRep_assign_Get)

lemma uint32_ones_eq [simp]: "uint32_ones = 4294967295"
  by (simp add: uint32_ones_def unsigned_minus_1_eq_mask mask_eq_exp_minus_1)

lemma dur_Make:
  assumes "in_int64 h" "0 \<le> l" "l < 4000000000"
  shows "dur_ok (MakeDuration h l)" "dur_val (MakeDuration h l) = Fin (h * 4000000000 + l)"
  using assms by (simp_all add: dur_ok_def dur_val_def dur_ticks_def IsInfiniteDuration_def tick_consts)

lemma dur_inf:
  "dur_ok InfiniteDuration" "dur_val InfiniteDuration = PosInf"
  "dur_ok (dur_neg InfiniteDuration)" "dur_val (dur_neg InfiniteDuration) = NegInf"
  by (simp_all add: dur_ok_def dur_val_def IsInfiniteDuration_def InfiniteDuration_def dur_neg_def
      OppositeInfinity_def in_int64_def)

lemma dur_zero: "dur_ok ZeroDuration" "dur_val ZeroDuration = Fin 0" "GetRepHi ZeroDuration = 0"
    "GetRepLo ZeroDuration = 0"
  using dur_Make [of 0 0] by (simp_all add: ZeroDuration_def in_int64_def)

text \<open>Every duration is a finite one with normalised parts or an infinity.\<close>

lemma dur_cases:
  assumes "dur_ok d"
  obtains (fin) "\<not> IsInfiniteDuration d" "in_int64 (GetRepHi d)" "0 \<le> GetRepLo d" "GetRepLo d < 4000000000"
      "dur_val d = Fin (GetRepHi d * 4000000000 + GetRepLo d)"
  | (inf) "IsInfiniteDuration d" "GetRepLo d = 4294967295" "GetRepHi d < 0" "dur_val d = NegInf"
      "GetRepHi d = int64_min"
  | (sup) "IsInfiniteDuration d" "GetRepLo d = 4294967295" "\<not> GetRepHi d < 0" "dur_val d = PosInf"
      "GetRepHi d = int64_max"
  using assms GetRepHi_range [of d] GetRepLo_range [of d]
  by (auto simp: dur_ok_def dur_val_def dur_ticks_def tick_consts IsInfiniteDuration_def split: if_splits)

lemma ticks_range:
  assumes "in_int64 h" "0 \<le> l" "l < 4000000000"
  shows "min_ticks \<le> h * 4000000000 + l" "h * 4000000000 + l \<le> max_ticks"
  using assms unfolding in_int64_def by linarith+

lemma sat_parts:
  assumes "0 \<le> l" "l < 4000000000"
  shows "sat (h * 4000000000 + l) =
    (if h < int64_min then NegInf else if h > int64_max then PosInf else Fin (h * 4000000000 + l))"
  using assms unfolding sat_def by (auto simp: not_less not_le)

text \<open>Two durations have the same value exactly when they have the same representation.\<close>

lemma parts_less:
  fixes h h' l l' :: int
  assumes "0 \<le> l" "l < 4000000000" "0 \<le> l'" "l' < 4000000000"
  shows "h * 4000000000 + l < h' * 4000000000 + l' \<longleftrightarrow> h < h' \<or> h = h' \<and> l < l'"
  using assms by (cases h h' rule: linorder_cases) auto

lemma parts_eq:
  fixes h h' l l' :: int
  assumes "0 \<le> l" "l < 4000000000" "0 \<le> l'" "l' < 4000000000"
  shows "h * 4000000000 + l = h' * 4000000000 + l' \<longleftrightarrow> h = h' \<and> l = l'"
  using assms by (cases h h' rule: linorder_cases) auto

lemma dur_eq_iff:
  assumes "dur_ok a" "dur_ok b"
  shows "dur_eq a b \<longleftrightarrow> dur_val a = dur_val b" "dur_val a = dur_val b \<longleftrightarrow> a = b"
proof -
  show e: "dur_eq a b \<longleftrightarrow> dur_val a = dur_val b"
    using assms(1)
  proof (cases rule: dur_cases)
    case fin
    from assms(2) show ?thesis
      by (cases rule: dur_cases) (use fin in \<open>simp_all add: dur_eq_def parts_eq\<close>)
  next
    case inf
    from assms(2) show ?thesis by (cases rule: dur_cases) (use inf in \<open>simp_all add: dur_eq_def\<close>)
  next
    case sup
    from assms(2) show ?thesis by (cases rule: dur_cases) (use sup in \<open>simp_all add: dur_eq_def\<close>)
  qed
  show "dur_val a = dur_val b \<longleftrightarrow> a = b"
    using Make_Get [of a] Make_Get [of b] unfolding e [symmetric] dur_eq_def by metis
qed

lemma dur_less_val:
  assumes "dur_ok a" "dur_ok b"
  shows "dur_less a b \<longleftrightarrow> dval_less (dur_val a) (dur_val b)"
  using assms(1)
proof (cases rule: dur_cases)
  case fin
  from assms(2) show ?thesis
    by (cases rule: dur_cases)
      (use fin in \<open>auto simp: dur_less_def uint32_succ_def parts_less in_int64_def\<close>)
next
  case inf
  from assms(2) show ?thesis
    by (cases rule: dur_cases)
      (use inf in \<open>auto simp: dur_less_def uint32_succ_def in_int64_def\<close>)
next
  case sup
  from assms(2) show ?thesis
    by (cases rule: dur_cases)
      (use sup in \<open>auto simp: dur_less_def uint32_succ_def in_int64_def\<close>)
qed

lemma dur_neg_val:
  assumes "dur_ok d"
  shows "dur_ok (dur_neg d) \<and> dur_val (dur_neg d) = dval_neg (dur_val d)"
  using assms
proof (cases rule: dur_cases)
  case fin
  obtain h l where hl: "GetRepHi d = h" "GetRepLo d = l" by simp
  show ?thesis
  proof (cases "l = 0")
    case True
    have "dval_neg (dur_val d) = sat (- h * 4000000000 + 0)" using fin(5) hl True by simp
    then show ?thesis
      using True hl fin(2) dur_Make [of "- h" 0] dur_inf sat_parts [of 0 "- h"]
      by (cases "h = int64_min") (simp_all add: dur_neg_def in_int64_def)
  next
    case False
    define n where "n = NegateAndSubtractOne h"
    have "- (h * 4000000000 + l) = n * 4000000000 + (4000000000 - l)"
      by (simp add: n_def NegateAndSubtractOne_def)
    then have "dval_neg (dur_val d) = sat (n * 4000000000 + (4000000000 - l))"
      using fin(5) hl by (simp only: dval_neg.simps)
    moreover have "in_int64 n" using fin(2) hl by (simp add: n_def NegateAndSubtractOne_def in_int64_def)
    moreover have "dur_neg d = MakeDuration n (4000000000 - l)"
      using False fin(1) hl by (simp add: dur_neg_def n_def tick_consts)
    ultimately show ?thesis
      using False fin(3,4) hl dur_Make [of n "4000000000 - l"] sat_parts [of "4000000000 - l" n]
      by (simp add: in_int64_def)
  qed
next
  case inf
  then show ?thesis using dur_inf by (simp add: dur_neg_def OppositeInfinity_def InfiniteDuration_def)
next
  case sup
  then show ?thesis
    by (simp add: dur_neg_def OppositeInfinity_def dur_ok_def dur_val_def IsInfiniteDuration_def in_int64_def)
qed

lemma wrap64:
  assumes "in_int64 (x - k * 2 ^ 64)"
  shows "sint (word_of_int x :: 64 word) = x - k * 2 ^ 64"
proof -
  have z: "(2 :: 64 word) ^ 64 = 0" by simp
  have "(word_of_int (x - k * 2 ^ 64) :: 64 word) = word_of_int x"
    by (simp only: of_int_diff of_int_mult of_int_power of_int_numeral z mult_zero_right diff_zero)
  then show ?thesis using sint_of_int64 [OF assms] by simp
qed

text \<open>
  Both additive operators compute the sum \<open>h\<close> of the high parts and the carry in wrap-around arithmetic
  and detect overflow by comparing with the left operand; \<open>b\<close> is the signed contribution of the right
  operand.
\<close>

lemma wrap_up:
  assumes "in_int64 a" "0 \<le> s" "s \<le> 2 ^ 63"
  shows "sint (word_of_int (a + s) :: 64 word) < a \<longleftrightarrow> a + s > int64_max"
  using assms wrap64 [of "a + s" 0] wrap64 [of "a + s" 1]
  by (cases "a + s > int64_max") (simp_all add: in_int64_def)

lemma wrap_down:
  assumes "in_int64 a" "s \<le> 0" "- (2 ^ 63) \<le> s"
  shows "sint (word_of_int (a + s) :: 64 word) > a \<longleftrightarrow> a + s < int64_min"
  using assms wrap64 [of "a + s" 0] wrap64 [of "a + s" "- 1"]
  by (cases "a + s < int64_min") (simp_all add: in_int64_def)

lemma uint_32_of_int: "w = word_of_int l \<Longrightarrow> 0 \<le> l \<Longrightarrow> l < 4000000000 \<Longrightarrow> uint (w :: 32 word) = l"
  by (simp add: uint_word_of_int_eq take_bit_int_eq_self)

text \<open>The value of a result whose high part is a wrapped sum, with infinity on detected overflow.\<close>

lemma wrapped_result:
  assumes "in_int64 a" "- (2 ^ 63) \<le> s" "s \<le> 2 ^ 63" "0 \<le> l" "l < 4000000000"
    and up: "\<not> neg \<Longrightarrow> 0 \<le> s" and down: "neg \<Longrightarrow> s \<le> 0"
  defines "w \<equiv> sint (word_of_int (a + s) :: 64 word)"
  defines "r \<equiv> (if (if neg then w > a else w < a)
    then (if neg then dur_neg InfiniteDuration else InfiniteDuration) else MakeDuration w l)"
  shows "dur_ok r \<and> dur_val r = sat ((a + s) * 4000000000 + l)"
proof (cases "in_int64 (a + s)")
  case True
  then have "w = a + s" unfolding w_def by (rule sint_of_int64)
  then have "r = MakeDuration (a + s) l" using up down by (auto simp: r_def)
  with True assms(4,5) show ?thesis using dur_Make [of "a + s" l] sat_parts [of l "a + s"]
    by (simp add: in_int64_def)
next
  case False
  show ?thesis
  proof (cases neg)
    case True
    with False assms(1,2) down have o: "a + s < int64_min" by (auto simp: in_int64_def)
    with True assms(1,2) down have "r = dur_neg InfiniteDuration"
      using wrap_down [of a s] by (simp add: r_def w_def)
    with o assms(4,5) show ?thesis using dur_inf sat_parts [of l "a + s"] by simp
  next
    case n: False
    with False assms(1,3) up have o: "a + s > int64_max" by (auto simp: in_int64_def)
    with n assms(1,3) up have "r = InfiniteDuration"
      using wrap_up [of a s] by (simp add: r_def w_def)
    with o assms(4,5) show ?thesis using dur_inf sat_parts [of l "a + s"] by simp
  qed
qed

lemma dur_add_val:
  assumes "dur_ok a" "dur_ok b"
  shows "dur_ok (dur_add a b) \<and> dur_val (dur_add a b) = dval_add (dur_val a) (dur_val b)"
  using assms(1)
proof (cases rule: dur_cases)
  case fa: fin
  from assms(2) show ?thesis
  proof (cases rule: dur_cases)
    case fb: fin
    define c :: int where "c = of_bool (GetRepLo a \<ge> kTicksPerSecond - GetRepLo b)"
    define l where "l = GetRepLo a + GetRepLo b - c * 4000000000"
    have l: "0 \<le> l" "l < 4000000000" using fa fb by (auto simp: l_def c_def tick_consts)
    have lo: "uint (dur_lo a - word_of_int (c * 4000000000) + dur_lo b) = l"
      by (rule uint_32_of_int) (use l in \<open>simp_all add: GetRepLo_def l_def\<close>)
    let ?w = "sint (word_of_int (GetRepHi a + (GetRepHi b + c)) :: 64 word)"
    have eq: "dur_add a b = (if (if GetRepHi b < 0 then ?w > GetRepHi a else ?w < GetRepHi a)
      then (if GetRepHi b < 0 then dur_neg InfiniteDuration else InfiniteDuration) else MakeDuration ?w l)"
      using fa(1) fb(1) lo
      by (auto simp: dur_add_def DecodeTwosComp_def EncodeTwosComp_def c_def tick_consts Let_def add.assoc)
    have "(GetRepHi a + (GetRepHi b + c)) * 4000000000 + l =
      GetRepHi a * 4000000000 + GetRepLo a + (GetRepHi b * 4000000000 + GetRepLo b)"
      by (simp add: l_def)
    then have v: "dval_add (dur_val a) (dur_val b) = sat ((GetRepHi a + (GetRepHi b + c)) * 4000000000 + l)"
      using fa(5) fb(5) by (simp only: dval_add.simps)
    show ?thesis
      unfolding eq v using fa(2) fb(2) l by (intro wrapped_result) (auto simp: in_int64_def c_def)
  qed (use fa assms(2) in \<open>simp_all add: dur_add_def\<close>)
qed (use assms(1) in \<open>simp_all add: dur_add_def\<close>)

lemma dur_sub_val:
  assumes "dur_ok a" "dur_ok b"
  shows "dur_ok (dur_sub a b) \<and> dur_val (dur_sub a b) = dval_sub (dur_val a) (dur_val b)"
  using assms(1)
proof (cases rule: dur_cases)
  case fa: fin
  from assms(2) show ?thesis
  proof (cases rule: dur_cases)
    case fb: fin
    define c :: int where "c = of_bool (GetRepLo a < GetRepLo b)"
    define l where "l = GetRepLo a - GetRepLo b + c * 4000000000"
    have l: "0 \<le> l" "l < 4000000000" using fa fb by (auto simp: l_def c_def)
    have lo: "uint (dur_lo a + word_of_int (c * 4000000000) - dur_lo b) = l"
      by (rule uint_32_of_int) (use l in \<open>simp_all add: GetRepLo_def l_def\<close>)
    let ?w = "sint (word_of_int (GetRepHi a + (- GetRepHi b - c)) :: 64 word)"
    have eq: "dur_sub a b = (if (if \<not> GetRepHi b < 0 then ?w > GetRepHi a else ?w < GetRepHi a)
      then (if \<not> GetRepHi b < 0 then dur_neg InfiniteDuration else InfiniteDuration) else MakeDuration ?w l)"
      using fa(1) fb(1) lo
      by (auto simp: dur_sub_def DecodeTwosComp_def EncodeTwosComp_def c_def tick_consts Let_def algebra_simps)
    have "(GetRepHi a + (- GetRepHi b - c)) * 4000000000 + l =
      GetRepHi a * 4000000000 + GetRepLo a - (GetRepHi b * 4000000000 + GetRepLo b)"
      by (simp add: l_def)
    then have v: "dval_sub (dur_val a) (dur_val b) = sat ((GetRepHi a + (- GetRepHi b - c)) * 4000000000 + l)"
      using fa(5) fb(5) by (simp only: dval_sub.simps)
    show ?thesis
      unfolding eq v using fa(2) fb(2) l by (intro wrapped_result) (auto simp: in_int64_def c_def)
  qed (use fa assms(2) dur_inf in \<open>simp_all add: dur_sub_def\<close>)
qed (use assms(1) in \<open>simp_all add: dur_sub_def\<close>)

section \<open>Scaling\<close>

lemma u128_val_add:
  "u128_val a + u128_val b < 2 ^ 128 \<Longrightarrow> u128_val (uint128_add a b) = u128_val a + u128_val b"
  using u128_val_range [of a] u128_val_range [of b]
  by (intro u128_val_of_word) (simp_all add: u128_add u128_of_val [of a] u128_of_val [of b])

lemma u128_val_mul:
  "u128_val a * u128_val b < 2 ^ 128 \<Longrightarrow> u128_val (uint128_mul a b) = u128_val a * u128_val b"
  using u128_val_range [of a] u128_val_range [of b]
  by (intro u128_val_of_word) (simp_all add: u128_mul u128_of_val [of a] u128_of_val [of b])

lemma uint_64_of_int: "0 \<le> x \<Longrightarrow> x < 2 ^ 64 \<Longrightarrow> uint (word_of_int x :: 64 word) = x"
  by (simp add: uint_word_of_int_eq take_bit_int_eq_self)

lemma u128_val_div:
  "u128_val b \<noteq> 0 \<Longrightarrow> u128_val (uint128_div a b) = u128_val a div u128_val b"
  using DivModImpl_correct [of b a] by (simp add: uint128_div_def)

lemma MakeU128_val: "in_int64 a \<Longrightarrow> u128_val (MakeU128 a) = \<bar>a\<bar>"
proof (cases "a < 0")
  case True
  assume a: "in_int64 a"
  define b where "b = - (a + 1)"
  have "MakeU128 a = uint128_add (uint128_add (uint128_of_u64 0) (uint128_of_u64 1)) (uint128_of_u64 (word_of_int b))"
    using True by (simp only: MakeU128_def Let_def prod.case if_True b_def)
  moreover have "0 \<le> b" "b < 2 ^ 63" using a True by (auto simp: b_def in_int64_def)
  ultimately show ?thesis by (simp add: u128_val_add u128_val_u64 uint_64_of_int) (simp add: b_def)
qed (simp add: MakeU128_def Let_def u128_val_add u128_val_u64 uint_64_of_int in_int64_def)

lemma MakeU128Ticks_val:
  assumes "in_int64 (GetRepHi d)" "GetRepLo d < 4000000000"
  shows "u128_val (MakeU128Ticks d) = \<bar>GetRepHi d * 4000000000 + GetRepLo d\<bar>"
proof -
  define h where "h = (if GetRepHi d < 0 then - (GetRepHi d + 1) else GetRepHi d)"
  define l where "l = (if GetRepHi d < 0 then 4000000000 - GetRepLo d else GetRepLo d)"
  have r: "0 \<le> h" "h < 2 ^ 63" "0 \<le> l" "l \<le> 4000000000"
    using assms GetRepLo_range [of d] by (auto simp: h_def l_def in_int64_def)
  have eq: "MakeU128Ticks d = uint128_add (uint128_mul (uint128_of_u64 (word_of_int h))
      (uint128_of_u64 (word_of_int 4000000000))) (uint128_of_u64 (word_of_int l))"
  proof -
    have "(4000000000 - GetRepLo d) mod 2 ^ 32 = l" if "GetRepHi d < 0" using that r by (simp add: l_def)
    then show ?thesis
      by (cases "GetRepHi d < 0")
        (simp_all add: MakeU128Ticks_def Let_def h_def tick_consts, simp add: l_def)
  qed
  have "u128_val (MakeU128Ticks d) = h * 4000000000 + l"
    unfolding eq using r by (simp add: u128_val_add u128_val_mul u128_val_u64 uint_64_of_int)
  also have "\<dots> = \<bar>GetRepHi d * 4000000000 + GetRepLo d\<bar>"
    using assms GetRepLo_range [of d] by (auto simp: h_def l_def)
  finally show ?thesis .
qed

lemma apply_sign_val:
  assumes "0 \<le> h" "h < 2 ^ 63" "0 \<le> l" "l < 4000000000"
  shows "dur_ok (apply_sign n h l) \<and>
    dur_val (apply_sign n h l) = sat (if n then - (h * 4000000000 + l) else h * 4000000000 + l)"
proof -
  have e: "- (h * 4000000000 + l) = (- h - 1) * 4000000000 + (4000000000 - l)" by simp
  have e0: "- (h * 4000000000 + 0) = (- h) * 4000000000 + 0" by simp
  consider "\<not> n" | "n" "l = 0" | "n" "l \<noteq> 0" by blast
  then show ?thesis
  proof cases
    case 1
    then show ?thesis
      using assms dur_Make [of h l] sat_parts [of l h] by (simp add: apply_sign_def in_int64_def)
  next
    case 2
    then show ?thesis unfolding 2 e0
      using assms dur_Make [of "- h" 0] sat_parts [of 0 "- h"] by (simp add: apply_sign_def in_int64_def)
  next
    case 3
    then show ?thesis unfolding e
      using assms dur_Make [of "- h - 1" "4000000000 - l"] sat_parts [of "4000000000 - l" "- h - 1"]
      by (simp add: apply_sign_def in_int64_def tick_consts)
  qed
qed

lemma sint_eq_uint: "uint (w :: 64 word) < 2 ^ 63 \<Longrightarrow> sint w = uint w"
  using sint_of_int64 [of "uint w"] uint_ge_0 [of w] by (simp add: in_int64_def del: uint_ge_0 unsigned_greater_eq)

lemma uint_ucast_32: "uint (w :: 64 word) < 2 ^ 32 \<Longrightarrow> uint (ucast w :: 32 word) = uint w"
  by (simp add: unsigned_ucast_eq take_bit_int_eq_self)

lemma div_mod_ticks:
  fixes N :: int
  assumes "0 \<le> N" "N < 2 ^ 63 * 4000000000"
  shows "0 \<le> N div 4000000000" "N div 4000000000 < 2 ^ 63"
    "N - N div 4000000000 * 4000000000 = N mod 4000000000" "0 \<le> N mod 4000000000" "N mod 4000000000 < 4000000000"
    "N div 4000000000 * 4000000000 \<le> N"
  using assms by (simp_all add: minus_div_mult_eq_mod)

text \<open>The two branches for representable counts compute quotient and remainder by a second.\<close>

lemma MakeDurationFromU128_small:
  assumes "u128_val v < 2 ^ 63 * 4000000000"
  shows "MakeDurationFromU128 v n = apply_sign n (u128_val v div 4000000000) (u128_val v mod 4000000000)"
proof -
  define N where "N = u128_val v"
  note d = div_mod_ticks [OF u128_val_range(1) assms, folded N_def]
  have s: "uint (Uint128High64 v) * 2 ^ 64 + uint (Uint128Low64 v) = N"
    by (simp add: N_def u128_val_def halves_simps)
  have ucast32: "uint (ucast w :: 32 word) = N mod 4000000000" if "uint w = N mod 4000000000" for w :: "64 word"
    using that d(5) by (subst uint_ucast_32) simp_all
  show ?thesis
  proof (cases "Uint128High64 v = 0")
    case True
    then have l: "uint (Uint128Low64 v) = N" using s by simp
    define q where "q = Uint128Low64 v div 4000000000"
    have q: "uint q = N div 4000000000" by (simp add: q_def uint_div l)
    have "word_of_int (N - N div 4000000000 * 4000000000) =
      (word_of_int (uint (Uint128Low64 v)) - word_of_int (uint q) * 4000000000 :: 64 word)"
      by (simp only: l q of_int_diff of_int_mult of_int_numeral)
    then have "Uint128Low64 v - q * 4000000000 = word_of_int (N mod 4000000000)"
      by (simp only: word_of_int_uint d(3))
    then have "uint (Uint128Low64 v - q * 4000000000) = N mod 4000000000"
      using d(4,5) by (simp only:) (rule uint_64_of_int, simp_all)
    from ucast32 [OF this] have "uint (ucast (Uint128Low64 v - q * 4000000000) :: 32 word) = N mod 4000000000" .
    moreover have "sint q = N div 4000000000" using q d(2) by (simp add: sint_eq_uint)
    ultimately show ?thesis
      using True by (simp add: MakeDurationFromU128_def Let_def tick_consts flip: q_def N_def)
  next
    case False
    have "uint (Uint128High64 v) < 2000000000"
      using s assms uint_ge_0 [of "Uint128Low64 v"] unfolding N_def by (simp del: uint_ge_0 unsigned_greater_eq)
    then have lt: "\<not> kMaxRepHi64 \<le> Uint128High64 v" by (simp add: kMaxRepHi64_def word_le_def)
    define hi where "hi = uint128_div v (uint128_of_u64 4000000000)"
    have hi: "u128_val hi = N div 4000000000" by (simp add: hi_def u128_val_div u128_val_u64 N_def)
    have "u128_val (uint128_mul hi (uint128_of_u64 4000000000)) = N div 4000000000 * 4000000000"
      using d(2) by (subst u128_val_mul) (simp_all add: hi u128_val_u64)
    then have "u128_val (uint128_sub v (uint128_mul hi (uint128_of_u64 4000000000))) = N mod 4000000000"
      using d by (subst u128_val_sub) (simp_all add: N_def)
    then have "uint (Uint128Low64 (uint128_sub v (uint128_mul hi (uint128_of_u64 4000000000)))) = N mod 4000000000"
      using d(5) by (subst low_half) simp_all
    note this [THEN ucast32]
    moreover have "uint (Uint128Low64 hi) = N div 4000000000" using d(2) hi by (subst low_half) simp_all
    then have "sint (Uint128Low64 hi) = N div 4000000000" using d(2) by (simp add: sint_eq_uint)
    ultimately show ?thesis
      using False lt by (simp add: MakeDurationFromU128_def Let_def tick_consts flip: hi_def N_def)
  qed
qed

lemma MakeDurationFromU128_val:
  "dur_ok (MakeDurationFromU128 v n) \<and>
   dur_val (MakeDurationFromU128 v n) = sat (if n then - u128_val v else u128_val v)"
proof (cases "u128_val v < 2 ^ 63 * 4000000000")
  case True
  note d = div_mod_ticks [OF u128_val_range(1) True]
  show ?thesis
    unfolding MakeDurationFromU128_small [OF True]
    using apply_sign_val [OF d(1,2,4,5), of n] by simp
next
  case False
  have s: "uint (Uint128High64 v) * 2 ^ 64 + uint (Uint128Low64 v) = u128_val v"
    by (simp add: u128_val_def halves_simps)
  have "2000000000 \<le> uint (Uint128High64 v)"
    using False s uint_lt2p [of "Uint128Low64 v"] by simp
  then have h: "kMaxRepHi64 \<le> Uint128High64 v" "Uint128High64 v \<noteq> 0"
    by (auto simp: kMaxRepHi64_def word_le_def)
  have m: "Uint128High64 v = kMaxRepHi64 \<and> Uint128Low64 v = 0 \<longleftrightarrow> u128_val v = 2 ^ 63 * 4000000000"
    using uint_lt2p [of "Uint128Low64 v"] uint_ge_0 [of "Uint128Low64 v"] unfolding s [symmetric]
    by (cases "uint (Uint128High64 v)" "2000000000 :: int" rule: linorder_cases)
      (auto simp: word_uint_eq_iff kMaxRepHi64_def simp del: uint_ge_0 unsigned_greater_eq)
  show ?thesis
  proof (cases "n \<and> u128_val v = 2 ^ 63 * 4000000000")
    case True
    then have "MakeDurationFromU128 v n = MakeDuration int64_min 0"
      using h m by (simp add: MakeDurationFromU128_def Let_def)
    with True show ?thesis using dur_Make [of int64_min 0] by (simp add: in_int64_def sat_def)
  next
    case F: False
    then have "MakeDurationFromU128 v n = (if n then dur_neg InfiniteDuration else InfiniteDuration)"
      using h m by (auto simp: MakeDurationFromU128_def Let_def)
    with F False show ?thesis using dur_inf by (auto simp: sat_def)
  qed
qed

lemma drop_32_small:
  fixes x y :: "64 word"
  assumes "drop_bit 32 (x OR y) = 0"
  shows "uint x < 2 ^ 32" "uint y < 2 ^ 32"
proof -
  have z: "uint w < 2 ^ 32" if "drop_bit 32 w = 0" for w :: "64 word"
  proof -
    have "drop_bit 32 (uint w) = 0" using that uint_drop_bit [of 32 w] by simp
    then show ?thesis by (auto simp: drop_bit_eq_div zdiv_eq_0_iff)
  qed
  have "drop_bit 32 x OR drop_bit 32 y = 0" using assms by simp
  then have "drop_bit 32 x = 0" "drop_bit 32 y = 0" by (simp_all only: or_eq_0_iff)
  then show "uint x < 2 ^ 32" "uint y < 2 ^ 32" using z by blast+
qed

lemma div_less_iff:
  fixes x a b :: int
  assumes "0 < b"
  shows "x div b < a \<longleftrightarrow> x < a * b"
proof
  assume "x div b < a"
  then have "(x div b + 1) * b \<le> a * b" using assms by (intro mult_right_mono) simp_all
  then show "x < a * b"
    using div_mult_mod_eq [of x b] pos_mod_bound [OF assms, of x] unfolding distrib_right by linarith
next
  assume "x < a * b"
  show "x div b < a"
  proof (rule ccontr)
    assume "\<not> x div b < a"
    then have "a * b \<le> x div b * b" using assms by (intro mult_right_mono) simp_all
    then show False
      using \<open>x < a * b\<close> div_mult_mod_eq [of x b] pos_mod_sign [OF assms, of x] by linarith
  qed
qed

lemma Uint128Max_val: "u128_val Uint128Max = 2 ^ 128 - 1"
  by (simp add: u128_val_def Uint128Max_def halves_simps unsigned_minus_1_eq_mask mask_eq_exp_minus_1)

lemma SafeMultiply_val:
  assumes b: "u128_val b < 2 ^ 64"
  shows "u128_val (SafeMultiply a b) = min (u128_val a * u128_val b) (2 ^ 128 - 1)"
proof (cases "Uint128High64 a = 0")
  case True
  then have a: "u128_val a = uint (Uint128Low64 a)" by (simp add: u128_val_def halves_simps)
  have bl: "u128_val b = uint (Uint128Low64 b)" using low_half [OF b] by simp
  have p: "u128_val a * u128_val b < 2 ^ 64 * 2 ^ 64"
    unfolding a using b uint_lt2p [of "Uint128Low64 a"] u128_val_range(1) [of b]
    by (intro mult_strict_mono) simp_all
  have "uint (Uint128Low64 a * Uint128Low64 b) = u128_val a * u128_val b"
    if "drop_bit 32 (Uint128Low64 a OR Uint128Low64 b) = 0"
  proof -
    have "u128_val a * u128_val b < 2 ^ 32 * 2 ^ 32"
      unfolding a bl using drop_32_small [OF that] by (intro mult_strict_mono) simp_all
    then show ?thesis using uint_mult_lem [of "Uint128Low64 a" "Uint128Low64 b"] by (simp add: a bl)
  qed
  with True p show ?thesis by (simp add: SafeMultiply_def u128_val_mul u128_val_u64)
next
  case False
  show ?thesis
  proof (cases "u128_val b = 0")
    case True
    with False show ?thesis by (simp add: SafeMultiply_def u128_val_compare u128_val_u64)
  next
    case nz: False
    then have pos: "0 < u128_val b" using u128_val_range(1) [of b] by simp
    have iff: "(2 ^ 128 - 1) div u128_val b < u128_val a \<longleftrightarrow> 2 ^ 128 - 1 < u128_val a * u128_val b"
      using pos by (rule div_less_iff)
    then show ?thesis
      using False nz
      by (simp add: SafeMultiply_def u128_val_compare u128_val_u64 u128_val_div Uint128Max_val u128_val_mul
          del: of_nat_numeral)
  qed
qed

lemma sat_min: "n \<ge> 2 ^ 128 - 1 \<Longrightarrow> sat n = PosInf" "n \<ge> 2 ^ 128 - 1 \<Longrightarrow> sat (- n) = NegInf"
  by (simp_all add: sat_def)

lemma dur_mul_val:
  assumes "dur_ok d" "in_int64 r"
  shows "dur_ok (dur_mul d r) \<and> dur_val (dur_mul d r) = dval_scale (*) (dur_val d) r"
  using assms(1)
proof (cases rule: dur_cases)
  case fin
  define t where "t = GetRepHi d * 4000000000 + GetRepLo d"
  have neg: "GetRepHi d < 0 \<longleftrightarrow> t < 0" using fin(3,4) by (auto simp: t_def)
  have "u128_val (MakeU128 r) < 2 ^ 64" using assms(2) by (auto simp: MakeU128_val in_int64_def)
  then have m: "u128_val (SafeMultiply (MakeU128Ticks d) (MakeU128 r)) = min (\<bar>t\<bar> * \<bar>r\<bar>) (2 ^ 128 - 1)"
    using fin assms(2) by (simp only: SafeMultiply_val MakeU128Ticks_val MakeU128_val t_def)
  have "sat (if (t < 0) \<noteq> (r < 0) then - min (\<bar>t\<bar> * \<bar>r\<bar>) (2 ^ 128 - 1) else min (\<bar>t\<bar> * \<bar>r\<bar>) (2 ^ 128 - 1))
    = sat (if (t < 0) \<noteq> (r < 0) then - (\<bar>t\<bar> * \<bar>r\<bar>) else \<bar>t\<bar> * \<bar>r\<bar>)"
    using sat_min [of "\<bar>t\<bar> * \<bar>r\<bar>"] sat_min [of "2 ^ 128 - 1"] by (simp only: min_def) (auto simp: not_le)
  also have "(if (t < 0) \<noteq> (r < 0) then - (\<bar>t\<bar> * \<bar>r\<bar>) else \<bar>t\<bar> * \<bar>r\<bar>) = t * r"
    by (cases "t < 0"; cases "r < 0") simp_all
  finally show ?thesis
    using MakeDurationFromU128_val [of "SafeMultiply (MakeU128Ticks d) (MakeU128 r)" "(GetRepHi d < 0) \<noteq> (r < 0)"] fin(1,5)
    unfolding m by (simp only: dur_mul_def ScaleFixed_def Let_def if_False neg dval_scale.simps t_def)
qed (use dur_inf in \<open>simp_all add: dur_mul_def Let_def\<close>)

lemma dur_div_int_val:
  assumes "dur_ok d" "in_int64 r" "r \<noteq> 0"
  shows "dur_ok (dur_div_int d r) \<and> dur_val (dur_div_int d r) = dval_scale (sdiv) (dur_val d) r"
  using assms(1)
proof (cases rule: dur_cases)
  case fin
  define t where "t = GetRepHi d * 4000000000 + GetRepLo d"
  have neg: "GetRepHi d < 0 \<longleftrightarrow> t < 0" using fin(3,4) by (auto simp: t_def)
  have m: "u128_val (uint128_div (MakeU128Ticks d) (MakeU128 r)) = \<bar>t\<bar> div \<bar>r\<bar>"
    using u128_val_div [of "MakeU128 r" "MakeU128Ticks d"] assms(2,3)
    unfolding MakeU128Ticks_val [OF fin(2,4)] MakeU128_val [OF assms(2)] t_def by simp
  have "(if (t < 0) \<noteq> (r < 0) then - (\<bar>t\<bar> div \<bar>r\<bar>) else \<bar>t\<bar> div \<bar>r\<bar>) = t sdiv r"
    using assms(3) by (cases "t = 0") (auto simp: signed_divide_int_def sgn_if)
  then show ?thesis
    using MakeDurationFromU128_val [of "uint128_div (MakeU128Ticks d) (MakeU128 r)" "(GetRepHi d < 0) \<noteq> (r < 0)"]
      fin(1,5) assms(3)
    unfolding m by (simp only: dur_div_int_def ScaleFixed_def Let_def if_False neg dval_scale.simps t_def simp_thms)
qed (use dur_inf assms(3) in \<open>simp_all add: dur_div_int_def Let_def\<close>)

section \<open>Properties\<close>

text \<open>
  C10: On valid durations, negation, addition and subtraction keep the representation invariant and
  compute the exact sum or difference of tick counts, saturated to the infinities exactly when the
  result does not fit; an infinite left operand is sticky and an infinite right operand decides
  otherwise. The comparison operators order the extended tick counts, and equality of values is equality of
  representations.
\<close>

theorem duration_additive:
  assumes "dur_ok a" "dur_ok b"
  shows "dur_ok (dur_add a b) \<and> dur_val (dur_add a b) = dval_add (dur_val a) (dur_val b) \<and>
    dur_ok (dur_sub a b) \<and> dur_val (dur_sub a b) = dval_sub (dur_val a) (dur_val b) \<and>
    dur_ok (dur_neg a) \<and> dur_val (dur_neg a) = dval_neg (dur_val a) \<and>
    (dur_less a b \<longleftrightarrow> dval_less (dur_val a) (dur_val b)) \<and>
    (dur_eq a b \<longleftrightarrow> dur_val a = dur_val b) \<and> (dur_val a = dur_val b \<longleftrightarrow> a = b)"
  using dur_add_val [OF assms] dur_sub_val [OF assms] dur_neg_val [OF assms(1)]
    dur_less_val [OF assms] dur_eq_iff [OF assms] by blast

theorem duration_additive_witness:
  "dur_val (dur_add (MakeDuration 3 3000000000) (MakeDuration (- 2) 3000000000)) = Fin 10000000000 \<and>
   dur_val (dur_add (MakeDuration int64_max 5) (MakeDuration 0 3999999999)) = PosInf"
proof -
  have ok: "dur_ok (MakeDuration 3 3000000000)" "dur_ok (MakeDuration (- 2) 3000000000)"
    "dur_ok (MakeDuration int64_max 5)" "dur_ok (MakeDuration 0 3999999999)"
    by (auto intro!: dur_Make simp: in_int64_def)
  show ?thesis
    using duration_additive [OF ok(1,2)] duration_additive [OF ok(3,4)]
    by (simp add: dur_Make in_int64_def sat_def)
qed

text \<open>
  C11: Multiplying or dividing a valid duration by a 64-bit integer gives the exact product, or the
  quotient truncated towards zero, of the tick count, saturated to the infinities; infinities keep or
  flip their sign. The overflow test in 128-bit arithmetic never errs.
\<close>

theorem duration_scaling:
  assumes "dur_ok d" "in_int64 r"
  shows "dur_ok (dur_mul d r) \<and> dur_val (dur_mul d r) = dval_scale (*) (dur_val d) r \<and>
    (r \<noteq> 0 \<longrightarrow> dur_ok (dur_div_int d r) \<and> dur_val (dur_div_int d r) = dval_scale (sdiv) (dur_val d) r) \<and>
    (r = 0 \<longrightarrow> dur_val (dur_div_int d r) = (if GetRepHi d < 0 then NegInf else PosInf))"
proof -
  have "r = 0 \<longrightarrow> dur_val (dur_div_int d r) = (if GetRepHi d < 0 then NegInf else PosInf)"
    using dur_inf by (simp add: dur_div_int_def Let_def)
  then show ?thesis using dur_mul_val [OF assms] dur_div_int_val [OF assms] by blast
qed

theorem duration_scaling_witness:
  "dur_val (dur_mul (MakeDuration (- 2) 0) 3) = Fin (- 24000000000) \<and>
   dur_val (dur_div_int (MakeDuration (- 2) 1) 3) = Fin (- 2666666666) \<and>
   dur_val (dur_mul (MakeDuration int64_max 5) (- 2)) = NegInf"
proof -
  have ok: "dur_ok (MakeDuration (- 2) 0)" "dur_ok (MakeDuration (- 2) 1)" "dur_ok (MakeDuration int64_max 5)"
    and r: "in_int64 3" "in_int64 (- 2)"
    by (auto intro!: dur_Make simp: in_int64_def)
  show ?thesis
    using duration_scaling [OF ok(1) r(1)] duration_scaling [OF ok(2) r(1)] duration_scaling [OF ok(3) r(2)]
    by (simp add: dur_Make in_int64_def sat_def signed_divide_int_def)
qed

end
