(* ===== verification/Duration_Div.thy ===== *)
theory Duration_Div
  imports Duration
begin

unbundle bit_operations_syntax

text \<open>
  Division of durations (\<^verbatim>\<open>absl/time/duration.cc\<close>): the fast paths for the common divisors, the
  128-bit slow path with its saturating quotient, \<^verbatim>\<open>IDivDuration\<close>, \<^verbatim>\<open>operator%\<close> and
  \<^verbatim>\<open>Trunc\<close>, \<^verbatim>\<open>Floor\<close>, \<^verbatim>\<open>Ceil\<close>, and the conversions from and to integer units,
  \<^verbatim>\<open>timespec\<close> and \<^verbatim>\<open>timeval\<close>.
\<close>

section \<open>Division\<close>

text \<open>The result is the quotient and the remainder when a fast path applies.\<close>

definition IDivFastPath :: "Duration \<Rightarrow> Duration \<Rightarrow> (int \<times> Duration) option" where
  "IDivFastPath num den =
     (if IsInfiniteDuration num \<or> IsInfiniteDuration den then None
      else
        let num_hi = GetRepHi num; num_lo = GetRepLo num;
            den_hi = GetRepHi den; den_lo = GetRepLo den
        in
        if den_hi = 0 then
          if den_lo = kTicksPerNanosecond then
            if num_hi \<ge> 0 \<and> num_hi < (int64_max - kTicksPerSecond) sdiv 1000000000
            then Some (num_hi * 1000000000 + num_lo sdiv kTicksPerNanosecond, MakeDuration 0 (num_lo smod den_lo))
            else None
          else if den_lo = 100 * kTicksPerNanosecond then
            if num_hi \<ge> 0 \<and> num_hi < (int64_max - kTicksPerSecond) sdiv 10000000
            then Some (num_hi * 10000000 + num_lo sdiv (100 * kTicksPerNanosecond), MakeDuration 0 (num_lo smod den_lo))
            else None
          else if den_lo = 1000 * kTicksPerNanosecond then
            if num_hi \<ge> 0 \<and> num_hi < (int64_max - kTicksPerSecond) sdiv 1000000
            then Some (num_hi * 1000000 + num_lo sdiv (1000 * kTicksPerNanosecond), MakeDuration 0 (num_lo smod den_lo))
            else None
          else if den_lo = 1000000 * kTicksPerNanosecond then
            if num_hi \<ge> 0 \<and> num_hi < (int64_max - kTicksPerSecond) sdiv 1000
            then Some (num_hi * 1000 + num_lo sdiv (1000000 * kTicksPerNanosecond), MakeDuration 0 (num_lo smod den_lo))
            else None
          else None
        else if den_hi > 0 \<and> den_lo = 0 then
          if num_hi \<ge> 0 then
            if den_hi = 1 then Some (num_hi, MakeDuration 0 num_lo)
            else Some (num_hi sdiv den_hi, MakeDuration (num_hi smod den_hi) num_lo)
          else
            let num_hi = (if num_lo \<noteq> 0 then num_hi + 1 else num_hi);
                quot = num_hi sdiv den_hi;
                rem_sec = num_hi smod den_hi;
                (rem_sec, quot) = (if rem_sec > 0 then (rem_sec - den_hi, quot + 1) else (rem_sec, quot));
                rem_sec = (if num_lo \<noteq> 0 then rem_sec - 1 else rem_sec)
            in Some (quot, MakeDuration rem_sec num_lo)
        else None)"

definition IDivSlowPath :: "bool \<Rightarrow> Duration \<Rightarrow> Duration \<Rightarrow> int \<times> Duration" where
  "IDivSlowPath satq num den =
     (let num_neg = dur_less num ZeroDuration;
          den_neg = dur_less den ZeroDuration;
          quotient_neg = (num_neg \<noteq> den_neg)
      in if IsInfiniteDuration num \<or> dur_eq den ZeroDuration then
           (if quotient_neg then int64_min else int64_max,
            if num_neg then dur_neg InfiniteDuration else InfiniteDuration)
         else if IsInfiniteDuration den then (0, num)
         else
           let a = MakeU128Ticks num;
               b = MakeU128Ticks den;
               quotient128 = uint128_div a b;
               quotient128 =
                 (if satq \<and> uint128_greater quotient128 (uint128_of_u64 (word_of_int int64_max))
                  then (if quotient_neg then uint128_of_u64 (word_of_int int64_min)
                        else uint128_of_u64 (word_of_int int64_max))
                  else quotient128);
               remainder128 = uint128_sub a (uint128_mul quotient128 b);
               rem = MakeDurationFromU128 remainder128 num_neg
           in if \<not> quotient_neg \<or> uint128_eq quotient128 (uint128_of_u64 0)
              then (uint (Uint128Low64 quotient128 AND word_of_int int64_max), rem)
              else (- sint (Uint128Low64 (uint128_sub quotient128 (uint128_of_u64 1))
                              AND word_of_int int64_max) - 1, rem))"

definition IDivDurationImpl :: "bool \<Rightarrow> Duration \<Rightarrow> Duration \<Rightarrow> int \<times> Duration" where
  "IDivDurationImpl satq num den =
     (case IDivFastPath num den of Some r \<Rightarrow> r | None \<Rightarrow> IDivSlowPath satq num den)"

definition IDivDuration :: "Duration \<Rightarrow> Duration \<Rightarrow> int \<times> Duration" where
  "IDivDuration num den = IDivDurationImpl True num den"

definition dur_div :: "Duration \<Rightarrow> Duration \<Rightarrow> int" where
  "dur_div lhs rhs = fst (IDivDuration lhs rhs)"

definition dur_mod :: "Duration \<Rightarrow> Duration \<Rightarrow> Duration" where
  "dur_mod this rhs = snd (IDivDurationImpl False this rhs)"

definition Trunc :: "Duration \<Rightarrow> Duration \<Rightarrow> Duration" where
  "Trunc d unit = dur_sub d (dur_mod d unit)"

definition Floor :: "Duration \<Rightarrow> Duration \<Rightarrow> Duration" where
  "Floor d unit =
     (let td = Trunc d unit in if dur_less_eq td d then td else dur_sub td (AbsDuration unit))"

definition Ceil :: "Duration \<Rightarrow> Duration \<Rightarrow> Duration" where
  "Ceil d unit =
     (let td = Trunc d unit in if dur_greater_eq td d then td else dur_add td (AbsDuration unit))"

section \<open>Specification\<close>

definition clamp64 :: "int \<Rightarrow> int" where
  "clamp64 q = max int64_min (min int64_max q)"

fun dval_neg_sign :: "dval \<Rightarrow> bool" where
  "dval_neg_sign (Fin a) = (a < 0)"
| "dval_neg_sign d = (d = NegInf)"

text \<open>A saturated quotient leaves the excess in the remainder.\<close>

fun dval_idiv :: "dval \<Rightarrow> dval \<Rightarrow> int \<times> dval" where
  "dval_idiv (Fin a) (Fin b) =
     (if b = 0 then (if a < 0 then (int64_min, NegInf) else (int64_max, PosInf))
      else let q = clamp64 (a sdiv b) in (q, Fin (a - q * b)))"
| "dval_idiv (Fin a) b = (0, Fin a)"
| "dval_idiv a b = (if (a = NegInf) \<noteq> dval_neg_sign b then int64_min else int64_max, a)"

fun dval_mod :: "dval \<Rightarrow> dval \<Rightarrow> dval" where
  "dval_mod (Fin a) (Fin b) =
     (if b = 0 then (if a < 0 then NegInf else PosInf) else Fin (a smod b))"
| "dval_mod a b = a"

section \<open>The fast paths\<close>

text \<open>Dividing a non-negative count by a unit that divides the second.\<close>

lemma subsecond_div:
  fixes h l k n :: int
  assumes "n * k = 4000000000" "0 < k"
  shows "(h * 4000000000 + l) div k = h * n + l div k" "(h * 4000000000 + l) mod k = l mod k"
proof -
  have e: "h * 4000000000 + l = l + (h * n) * k" using assms(1) by (simp add: mult.assoc)
  show "(h * 4000000000 + l) div k = h * n + l div k" "(h * 4000000000 + l) mod k = l mod k"
    unfolding e using assms(2) by simp_all
qed

text \<open>Dividing by whole seconds.\<close>

lemma seconds_div:
  fixes h l D :: int
  assumes "0 < D" "0 \<le> l" "l < 4000000000"
  shows "(h * 4000000000 + l) div (D * 4000000000) = h div D"
    "(h * 4000000000 + l) mod (D * 4000000000) = h mod D * 4000000000 + l"
proof -
  have q: "(h * 4000000000 + l) div 4000000000 = h" "(h * 4000000000 + l) mod 4000000000 = l"
    using assms by simp_all
  have c: "D * 4000000000 = 4000000000 * D" and D: "0 \<le> D" using assms(1) by simp_all
  show "(h * 4000000000 + l) div (D * 4000000000) = h div D"
    unfolding c by (simp only: zdiv_zmult2_eq [OF D] q)
  show "(h * 4000000000 + l) mod (D * 4000000000) = h mod D * 4000000000 + l"
    unfolding c zmod_zmult2_eq [OF D] q by simp
qed

definition fast_ok :: "int \<Rightarrow> int \<Rightarrow> int \<times> Duration \<Rightarrow> bool" where
  "fast_ok t u r \<longleftrightarrow> fst r = t sdiv u \<and> in_int64 (fst r) \<and> dur_ok (snd r) \<and> dur_val (snd r) = Fin (t smod u)"

lemma fast_subsecond:
  assumes n: "n * k = 4000000000" "0 < k" "0 < n" and h: "0 \<le> h" "h < (int64_max - kTicksPerSecond) sdiv n"
    and l: "0 \<le> l" "l < 4000000000"
  shows "fast_ok (h * 4000000000 + l) k (h * n + l sdiv k, MakeDuration 0 (l smod k))"
proof -
  have t: "0 \<le> h * 4000000000 + l" using h l by simp
  have "(h + 1) * n \<le> (int64_max - 4000000000) div n * n"
    using h n by (intro mult_right_mono) (simp_all add: sdiv_pos tick_consts)
  also have "\<dots> \<le> int64_max - 4000000000" by (simp add: minus_mod_eq_div_mult [symmetric] n)
  finally have hn: "h * n + n \<le> int64_max - 4000000000" by (simp add: distrib_right)
  have lk: "0 \<le> l div k" "l div k \<le> l" using l n zdiv_mono2 [of l 1 k] by (simp_all add: pos_imp_zdiv_nonneg_iff)
  have "k * 1 \<le> n * k" using n by (subst mult.commute) (intro mult_right_mono, simp_all)
  then have "k \<le> 4000000000" using n by simp
  then have "l mod k < 4000000000" using n(2) by (intro less_le_trans [OF pos_mod_bound])
  moreover have "0 \<le> l mod k" using n by simp
  moreover have "in_int64 (h * n + l div k)"   proof -
    have "0 \<le> h * n" using n h(1) by simp
    then show ?thesis using hn lk l n(3) unfolding in_int64_def by linarith
  qed
  ultimately show ?thesis
    using t l n dur_Make [of 0 "l mod k"]
    by (simp add: fast_ok_def sdiv_nonneg subsecond_div in_int64_def)
qed

lemma fast_seconds:
  assumes "0 < D" "in_int64 h" "0 \<le> h" "0 \<le> l" "l < 4000000000"
  shows "fast_ok (h * 4000000000 + l) (D * 4000000000) (h sdiv D, MakeDuration (h smod D) l)"
proof -
  have "h div D \<le> h" "h mod D \<le> h" using assms zdiv_mono2 [of h 1 D] by (simp_all add: zmod_le_nonneg_dividend)
  moreover have "0 \<le> h div D" "0 \<le> h mod D" using assms by (simp_all add: pos_imp_zdiv_nonneg_iff)
  ultimately have "in_int64 (h div D)" "in_int64 (h mod D)" using assms(2) by (simp_all add: in_int64_def)
  then show ?thesis
    using assms dur_Make [of "h mod D" l]
    by (simp add: fast_ok_def sdiv_nonneg seconds_div)
qed

lemma fast_seconds_neg:
  assumes D: "0 < D" and h: "in_int64 h" "h < 0" and l: "0 \<le> l" "l < 4000000000"
    and g: "g = (if l \<noteq> 0 then h + 1 else h)"
  shows "\<not> 0 < g smod D"
    and "fast_ok (h * 4000000000 + l) (D * 4000000000)
      (g sdiv D, MakeDuration (if l \<noteq> 0 then g smod D - 1 else g smod D) l)"
proof -
  define G where "G = - g"
  define m where "m = (if l \<noteq> 0 then 4000000000 - l else 0)"
  have m: "0 \<le> m" "m < 4000000000" using l by (auto simp: m_def)
  have G: "0 \<le> G" "G \<le> 9223372036854775808" using h g by (auto simp: G_def in_int64_def)
  have t: "h * 4000000000 + l = - (G * 4000000000 + m)" "h * 4000000000 + l < 0"
    using g h(2) l by (auto simp: G_def m_def)
  have gd: "g sdiv D = - (G div D)" "g smod D = - (G mod D)"
    using D G by (auto simp: trunc_simps G_def)
  have u: "0 < D * 4000000000" using D by simp
  have td: "(h * 4000000000 + l) sdiv (D * 4000000000) = - (G div D)"
    "(h * 4000000000 + l) smod (D * 4000000000) = - (G mod D * 4000000000 + m)"
  proof -
    have n: "\<not> 0 \<le> - (G * 4000000000 + m)" using t by linarith
    show "(h * 4000000000 + l) sdiv (D * 4000000000) = - (G div D)"
      "(h * 4000000000 + l) smod (D * 4000000000) = - (G mod D * 4000000000 + m)"
      unfolding t(1) sdiv_pos [OF u] smod_pos [OF u] if_not_P [OF n] minus_minus seconds_div [OF D m] by (rule refl)+
  qed
  have "G div D \<le> G" "0 \<le> G div D" "G mod D \<le> G" "0 \<le> G mod D"
    using D G zdiv_mono2 [of G 1 D] by (simp_all add: zmod_le_nonneg_dividend pos_imp_zdiv_nonneg_iff)
  moreover from this have "in_int64 (- (G div D))" using G by (simp add: in_int64_def)
  moreover have "G \<le> 9223372036854775807" if "l \<noteq> 0" using that h g by (simp add: G_def in_int64_def)
  ultimately have i: "in_int64 (- (G div D))" "l \<noteq> 0 \<Longrightarrow> in_int64 (- (G mod D) - 1)" "in_int64 (- (G mod D))"
    using G by (auto simp: in_int64_def)
  show "\<not> 0 < g smod D" using D by (simp add: gd not_less)
  show "fast_ok (h * 4000000000 + l) (D * 4000000000)
      (g sdiv D, MakeDuration (if l \<noteq> 0 then g smod D - 1 else g smod D) l)"
    unfolding fast_ok_def gd td fst_conv snd_conv
    using i l dur_Make [of "- (G mod D) - 1" l] dur_Make [of "- (G mod D)" l]
    by (cases "l = 0") (simp_all add: m_def)
qed

lemma IDivFastPath_val:
  assumes r: "IDivFastPath num den = Some r" and ok: "dur_ok num" "dur_ok den"
  shows "\<exists>t u. dur_val num = Fin t \<and> dur_val den = Fin u \<and> u \<noteq> 0 \<and> fast_ok t u r"
proof -
  define nh nl dh dl where "nh = GetRepHi num" "nl = GetRepLo num" "dh = GetRepHi den" "dl = GetRepLo den"
  note p = nh_nl_dh_dl_def
  have f: "\<not> IsInfiniteDuration num" "\<not> IsInfiniteDuration den" using r by (auto simp: IDivFastPath_def)
  have n: "in_int64 nh" "0 \<le> nl" "nl < 4000000000" "dur_val num = Fin (nh * 4000000000 + nl)"
    using ok(1) f(1) by (cases rule: dur_cases; simp add: p)+
  have d: "in_int64 dh" "0 \<le> dl" "dl < 4000000000" "dur_val den = Fin (dh * 4000000000 + dl)"
    using ok(2) f(2) by (cases rule: dur_cases; simp add: p)+
  have "dh * 4000000000 + dl \<noteq> 0 \<and> fast_ok (nh * 4000000000 + nl) (dh * 4000000000 + dl) r"
  proof (cases "dh = 0")
    case True
    with r f show ?thesis
      using n fast_subsecond [of 1000000000 4 nh nl] fast_subsecond [of 10000000 400 nh nl]
        fast_subsecond [of 1000000 4000 nh nl] fast_subsecond [of 1000 4000000 nh nl]
      by (auto simp: IDivFastPath_def Let_def p [symmetric] tick_consts split: if_splits)
  next
    case False
    with r f have dl: "dl = 0" "0 < dh" by (auto simp: IDivFastPath_def Let_def p [symmetric] split: if_splits)
    show ?thesis
    proof (cases "0 \<le> nh")
      case True
      with r f dl n False fast_seconds [of dh nh nl] show ?thesis
        by (auto simp: IDivFastPath_def Let_def p [symmetric] smod_pos split: if_splits)
    next
      case neg: False
      define g where "g = (if nl \<noteq> 0 then nh + 1 else nh)"
      note s = fast_seconds_neg [OF dl(2) n(1) _ n(2,3) g_def]
      have "r = (g sdiv dh, MakeDuration (if nl \<noteq> 0 then g smod dh - 1 else g smod dh) nl)"
        using r f dl False neg s(1)
        by (simp add: IDivFastPath_def Let_def p [symmetric] flip: g_def)
      with s(2) neg dl show ?thesis by simp
    qed
  qed
  with n d show ?thesis by blast
qed

section \<open>The slow path\<close>

lemma dur_neg_test:
  assumes "dur_ok d"
  shows "dur_less d ZeroDuration \<longleftrightarrow> dval_neg_sign (dur_val d)"
  using assms by (cases "dur_val d") (simp_all add: dur_less_val dur_zero)

lemma mask_int64_max: "uint (w AND word_of_int int64_max :: 64 word) = uint w" if "uint w \<le> int64_max" for w
proof -
  have "w AND word_of_int int64_max = take_bit 63 w" by (simp add: take_bit_eq_mask mask_eq_exp_minus_1)
  then have "uint (w AND word_of_int int64_max) = take_bit 63 (uint w)" by (simp only: uint_take_bit)
  also have "\<dots> = uint w" using that by (simp add: take_bit_int_eq_self_iff)
  finally show ?thesis .
qed

text \<open>The two encodings of the returned quotient, for a magnitude that fits.\<close>

lemma quotient_encoding:
  assumes "u128_val x = q"
  shows "q \<le> int64_max \<Longrightarrow> uint (Uint128Low64 x AND word_of_int int64_max) = q"
    and "0 < q \<Longrightarrow> q \<le> 2 ^ 63 \<Longrightarrow>
      - sint (Uint128Low64 (uint128_sub x (uint128_of_u64 1)) AND word_of_int int64_max) - 1 = - q"
proof -
  show "uint (Uint128Low64 x AND word_of_int int64_max) = q" if "q \<le> int64_max"
    using low_half [of x] mask_int64_max [of "Uint128Low64 x"] assms that by simp
  assume q: "0 < q" "q \<le> 2 ^ 63"
  have "u128_val (uint128_sub x (uint128_of_u64 1)) = q - 1"
    using q assms by (subst u128_val_sub) (simp_all add: u128_val_u64)
  then have l: "uint (Uint128Low64 (uint128_sub x (uint128_of_u64 1))) = q - 1"
    using q by (subst low_half) simp_all
  then have "uint (Uint128Low64 (uint128_sub x (uint128_of_u64 1)) AND word_of_int int64_max) = q - 1"
    using q mask_int64_max [of "Uint128Low64 (uint128_sub x (uint128_of_u64 1))"] by simp
  with q show "- sint (Uint128Low64 (uint128_sub x (uint128_of_u64 1)) AND word_of_int int64_max) - 1 = - q"
    by (subst sint_eq_uint) simp_all
qed

text \<open>The magnitude the saturation leaves.\<close>

definition slow_quotient :: "bool \<Rightarrow> int \<Rightarrow> int \<Rightarrow> int" where
  "slow_quotient satq t u =
     (let q = \<bar>t\<bar> div \<bar>u\<bar> in
      if satq \<and> q > int64_max then if (t < 0) \<noteq> (u < 0) then 2 ^ 63 else int64_max else q)"

lemma slow_quotient_bounds:
  assumes "u \<noteq> 0"
  shows "0 \<le> slow_quotient satq t u" "slow_quotient satq t u * \<bar>u\<bar> \<le> \<bar>t\<bar>"
    "satq \<Longrightarrow> (t < 0) = (u < 0) \<Longrightarrow> slow_quotient satq t u \<le> int64_max"
    "satq \<Longrightarrow> slow_quotient satq t u \<le> 2 ^ 63"
proof -
  have q: "0 \<le> \<bar>t\<bar> div \<bar>u\<bar>" "\<bar>t\<bar> div \<bar>u\<bar> * \<bar>u\<bar> \<le> \<bar>t\<bar>"
    using assms by (simp_all add: pos_imp_zdiv_nonneg_iff minus_mod_eq_div_mult [symmetric])
  show "0 \<le> slow_quotient satq t u" using q by (simp add: slow_quotient_def Let_def)
  have "slow_quotient satq t u \<le> \<bar>t\<bar> div \<bar>u\<bar>" by (auto simp: slow_quotient_def Let_def)
  then have "slow_quotient satq t u * \<bar>u\<bar> \<le> \<bar>t\<bar> div \<bar>u\<bar> * \<bar>u\<bar>" by (rule mult_right_mono) simp
  with q(2) show "slow_quotient satq t u * \<bar>u\<bar> \<le> \<bar>t\<bar>" by simp
qed (simp_all add: slow_quotient_def Let_def)

lemma slow_quotient_clamp:
  assumes "u \<noteq> 0"
  shows "(if (t < 0) \<noteq> (u < 0) then - slow_quotient True t u else slow_quotient True t u) = clamp64 (t sdiv u)"
proof -
  define Q where "Q = \<bar>t\<bar> div \<bar>u\<bar>"
  have Q: "0 \<le> Q" using assms by (simp add: Q_def pos_imp_zdiv_nonneg_iff)
  have "t sdiv u = (if (t < 0) \<noteq> (u < 0) then - Q else Q)"
    using assms by (cases "t = 0") (auto simp: signed_divide_int_def sgn_if Q_def)
  with Q show ?thesis by (auto simp: slow_quotient_def clamp64_def simp flip: Q_def)
qed

lemma sat_Fin: "min_ticks \<le> t \<Longrightarrow> t \<le> max_ticks \<Longrightarrow> sat t = Fin t"
  by (simp add: sat_def)

lemma fin_ticks:
  assumes "dur_ok d" "dur_val d = Fin t"
  shows "\<not> IsInfiniteDuration d" "min_ticks \<le> t" "t \<le> max_ticks" "u128_val (MakeU128Ticks d) = \<bar>t\<bar>"
proof -
  have p: "\<not> IsInfiniteDuration d" "in_int64 (GetRepHi d)" "0 \<le> GetRepLo d" "GetRepLo d < 4000000000"
    "t = GetRepHi d * 4000000000 + GetRepLo d"
    using assms by (cases rule: dur_cases; simp)+
  show "\<not> IsInfiniteDuration d" by (rule p)
  show "min_ticks \<le> t" "t \<le> max_ticks" unfolding p(5) using ticks_range [OF p(2-4)] by simp_all
  show "u128_val (MakeU128Ticks d) = \<bar>t\<bar>" unfolding p(5) by (rule MakeU128Ticks_val [OF p(2,4)])
qed

lemma IDivSlowPath_val:
  assumes ok: "dur_ok num" "dur_ok den" and v: "dur_val num = Fin t" "dur_val den = Fin u" "u \<noteq> 0"
    and r: "r = IDivSlowPath satq num den" and q: "q = slow_quotient satq t u"
  shows "dur_ok (snd r) \<and> dur_val (snd r) = Fin (if t < 0 then - (\<bar>t\<bar> - q * \<bar>u\<bar>) else \<bar>t\<bar> - q * \<bar>u\<bar>) \<and>
    (satq \<longrightarrow> fst r = (if (t < 0) \<noteq> (u < 0) then - q else q))"
proof -
  note n = fin_ticks [OF ok(1) v(1)] and d = fin_ticks [OF ok(2) v(2)]
  note b = slow_quotient_bounds [OF v(3), of satq t, folded q]
  define x where "x = (let q = uint128_div (MakeU128Ticks num) (MakeU128Ticks den) in
    if satq \<and> uint128_greater q (uint128_of_u64 (word_of_int int64_max))
    then (if (t < 0) \<noteq> (u < 0) then uint128_of_u64 (word_of_int int64_min) else uint128_of_u64 (word_of_int int64_max))
    else q)"
  have x: "u128_val x = q"
    using v(3) by (auto simp: x_def q slow_quotient_def Let_def u128_val_compare u128_val_div n d u128_val_u64)
  define rem where "rem = uint128_sub (MakeU128Ticks num) (uint128_mul x (MakeU128Ticks den))"
  have "u128_val (uint128_mul x (MakeU128Ticks den)) = q * \<bar>u\<bar>"
    using u128_val_mul [of x "MakeU128Ticks den"] b(2) u128_val_range(2) [of "MakeU128Ticks num"] by (simp add: x n d)
  then have rem: "u128_val rem = \<bar>t\<bar> - q * \<bar>u\<bar>"
    using u128_val_sub [of "uint128_mul x (MakeU128Ticks den)" "MakeU128Ticks num"] b(2) by (simp add: rem_def n)
  have nz: "\<not> dur_eq den ZeroDuration" using dur_eq_iff(1) [OF ok(2) dur_zero(1)] v by (simp add: dur_zero)
  have z: "uint128_eq x (uint128_of_u64 0) \<longleftrightarrow> q = 0" by (simp add: u128_val_compare x u128_val_u64)
  have R: "r = (if (t < 0) = (u < 0) \<or> q = 0 then (uint (Uint128Low64 x AND word_of_int int64_max), MakeDurationFromU128 rem (t < 0))
     else (- sint (Uint128Low64 (uint128_sub x (uint128_of_u64 1)) AND word_of_int int64_max) - 1, MakeDurationFromU128 rem (t < 0)))"
    unfolding r IDivSlowPath_def dur_neg_test [OF ok(1)] dur_neg_test [OF ok(2)] v dval_neg_sign.simps Let_def
    using n(1) d(1) nz z by (simp add: x_def rem_def Let_def)
  have "sat (if t < 0 then - (\<bar>t\<bar> - q * \<bar>u\<bar>) else \<bar>t\<bar> - q * \<bar>u\<bar>) = Fin (if t < 0 then - (\<bar>t\<bar> - q * \<bar>u\<bar>) else \<bar>t\<bar> - q * \<bar>u\<bar>)"
  proof -
    have "0 \<le> q * \<bar>u\<bar>" using b(1) by simp
    then show ?thesis using n(2,3) b(2) by (intro sat_Fin) (auto simp: abs_if split: if_splits)
  qed
  moreover have s: "snd r = MakeDurationFromU128 rem (t < 0)" by (simp only: R split: if_splits) simp
  ultimately have "dur_ok (snd r) \<and> dur_val (snd r) = Fin (if t < 0 then - (\<bar>t\<bar> - q * \<bar>u\<bar>) else \<bar>t\<bar> - q * \<bar>u\<bar>)"
    using MakeDurationFromU128_val [of rem "t < 0"] unfolding rem s by simp
  moreover have "fst r = (if (t < 0) \<noteq> (u < 0) then - q else q)" if satq
  proof (cases "(t < 0) = (u < 0) \<or> q = 0")
    case True
    then have "q \<le> int64_max" using b(3) [OF that] by auto
    with True show ?thesis using quotient_encoding(1) [OF x] by (simp only: R) auto
  next
    case False
    then show ?thesis using quotient_encoding(2) [OF x] b(1) b(4) [OF that] by (simp only: R) auto
  qed
  ultimately show ?thesis by blast
qed

section \<open>Quotient, remainder and rounding\<close>

text \<open>The sticky cases, common to the saturating and the plain division.\<close>

lemma IDiv_special:
  assumes ok: "dur_ok num" "dur_ok den"
    and s: "\<not> (\<exists>t u. dur_val num = Fin t \<and> dur_val den = Fin u \<and> u \<noteq> 0)"
  shows "dur_ok (snd (IDivDurationImpl satq num den)) \<and>
    (fst (IDivDurationImpl satq num den), dur_val (snd (IDivDurationImpl satq num den))) =
      dval_idiv (dur_val num) (dur_val den)"
proof -
  have "IDivFastPath num den = None"
    using IDivFastPath_val [OF _ ok] s by (cases "IDivFastPath num den") blast+
  then have e: "IDivDurationImpl satq num den = IDivSlowPath satq num den" by (simp add: IDivDurationImpl_def)
  have z: "dur_eq den ZeroDuration \<longleftrightarrow> dur_val den = Fin 0"
    using dur_eq_iff(1) [OF ok(2) dur_zero(1)] by (simp add: dur_zero)
  have i: "IsInfiniteDuration d \<longleftrightarrow> dur_val d = NegInf \<or> dur_val d = PosInf" for d
    by (simp add: dur_val_def)
  show ?thesis
    unfolding e IDivSlowPath_def Let_def z i dur_neg_test [OF ok(1)] dur_neg_test [OF ok(2)]
    using s ok dur_inf by (cases "dur_val num"; cases "dur_val den") auto
qed

lemma IDivDuration_val:
  assumes ok: "dur_ok num" "dur_ok den"
  shows "dur_ok (snd (IDivDuration num den)) \<and>
    (fst (IDivDuration num den), dur_val (snd (IDivDuration num den))) = dval_idiv (dur_val num) (dur_val den)"
proof (cases "\<exists>t u. dur_val num = Fin t \<and> dur_val den = Fin u \<and> u \<noteq> 0")
  case False
  show ?thesis unfolding IDivDuration_def by (rule IDiv_special [OF ok False])
next
  case True
  then obtain t u where v: "dur_val num = Fin t" "dur_val den = Fin u" "u \<noteq> 0" by blast
  show ?thesis
  proof (cases "IDivFastPath num den")
    case None
    define r where "r = IDivSlowPath True num den"
    define Q where "Q = slow_quotient True t u"
    note R = IDivSlowPath_val [OF ok v r_def Q_def]
    have "fst r = (if (t < 0) \<noteq> (u < 0) then - Q else Q)" using R by blast
    also have "\<dots> = clamp64 (t sdiv u)" unfolding Q_def by (rule slow_quotient_clamp [OF v(3)])
    finally have c: "fst r = clamp64 (t sdiv u)" .
    have "(if t < 0 then - (\<bar>t\<bar> - Q * \<bar>u\<bar>) else \<bar>t\<bar> - Q * \<bar>u\<bar>) = t - fst r * u"
      using R by (cases "t < 0"; cases "u < 0") (simp_all add: algebra_simps)
    with R c None v show ?thesis by (simp add: IDivDuration_def IDivDurationImpl_def r_def [symmetric] Let_def)
  next
    case (Some r)
    then have f: "fast_ok t u r" using IDivFastPath_val [OF Some ok] v by auto
    then have "clamp64 (t sdiv u) = t sdiv u" by (simp add: fast_ok_def clamp64_def in_int64_def)
    with f v Some show ?thesis
      by (simp add: IDivDuration_def IDivDurationImpl_def fast_ok_def Let_def minus_sdiv_mult_eq_smod)
  qed
qed

lemma dur_mod_val:
  assumes ok: "dur_ok a" "dur_ok b"
  shows "dur_ok (dur_mod a b) \<and> dur_val (dur_mod a b) = dval_mod (dur_val a) (dur_val b)"
proof (cases "\<exists>t u. dur_val a = Fin t \<and> dur_val b = Fin u \<and> u \<noteq> 0")
  case False
  have "snd (dval_idiv (dur_val a) (dur_val b)) = dval_mod (dur_val a) (dur_val b)"
    using False by (cases "dur_val a"; cases "dur_val b") auto
  then show ?thesis
    using IDiv_special [OF ok False, of False] by (metis dur_mod_def snd_conv)
next
  case True
  then obtain t u where v: "dur_val a = Fin t" "dur_val b = Fin u" "u \<noteq> 0" by blast
  show ?thesis
  proof (cases "IDivFastPath a b")
    case None
    note R = IDivSlowPath_val [OF ok v refl refl, of False]
    have "(if t < 0 then - (\<bar>t\<bar> - slow_quotient False t u * \<bar>u\<bar>) else \<bar>t\<bar> - slow_quotient False t u * \<bar>u\<bar>)
      = t smod u"
      by (auto simp: slow_quotient_def Let_def signed_modulo_int_def minus_div_mult_eq_mod sgn_if)
    with R v None show ?thesis by (simp add: dur_mod_def IDivDurationImpl_def)
  next
    case (Some r)
    then show ?thesis
      using IDivFastPath_val [OF Some ok] v by (auto simp: dur_mod_def IDivDurationImpl_def fast_ok_def)
  qed
qed

lemma AbsDuration_val:
  assumes "dur_ok d" "dur_val d = Fin u" "u \<noteq> min_ticks"
  shows "dur_ok (AbsDuration d) \<and> dur_val (AbsDuration d) = Fin \<bar>u\<bar>"
proof -
  have "sat (- u) = Fin (- u)" if "u < 0"
    using that fin_ticks(2,3) [OF assms(1,2)] assms(3) by (intro sat_Fin) simp_all
  then show ?thesis
    using assms dur_neg_val [OF assms(1)] by (simp add: AbsDuration_def dur_neg_test)
qed

lemma Trunc_val:
  assumes ok: "dur_ok d" "dur_ok unit" and v: "dur_val d = Fin t" "dur_val unit = Fin u" "u \<noteq> 0"
  shows "dur_ok (Trunc d unit) \<and> dur_val (Trunc d unit) = Fin (t sdiv u * u)"
proof -
  have e: "t - t smod u = t sdiv u * u" by (rule minus_smod_eq_sdiv_mult)
  define M where "M = \<bar>t\<bar> mod \<bar>u\<bar>"
  have "M \<le> \<bar>t\<bar>" "0 \<le> M" using v(3) by (simp_all add: M_def zmod_le_nonneg_dividend)
  then have "sat (t - t smod u) = Fin (t - t smod u)"
    using fin_ticks(2,3) [OF ok(1) v(1)] unfolding signed_modulo_int_def M_def [symmetric]
    by (intro sat_Fin) (auto simp: sgn_if)
  then show ?thesis
    using dur_mod_val [OF ok] dur_sub_val [OF ok(1), of "dur_mod d unit"] v by (simp add: Trunc_def e)
qed

lemma trunc_vs_floor:
  fixes t u :: int
  assumes "u \<noteq> 0"
  shows "t sdiv u * u \<le> t \<Longrightarrow> t sdiv u * u = t div \<bar>u\<bar> * \<bar>u\<bar>"
    "\<not> t sdiv u * u \<le> t \<Longrightarrow> t sdiv u * u - \<bar>u\<bar> = t div \<bar>u\<bar> * \<bar>u\<bar>"
    "t \<le> t sdiv u * u \<Longrightarrow> t sdiv u * u = - ((- t) div \<bar>u\<bar>) * \<bar>u\<bar>"
    "\<not> t \<le> t sdiv u * u \<Longrightarrow> t sdiv u * u + \<bar>u\<bar> = - ((- t) div \<bar>u\<bar>) * \<bar>u\<bar>"
proof -
  define m r where "m = \<bar>u\<bar>" and "r = t mod \<bar>u\<bar>"
  have m: "0 < m" "0 \<le> r" "r < m" using assms by (simp_all add: m_def r_def)
  have n: "(- t) mod m = (if r = 0 then 0 else m - r)" unfolding m_def r_def by (rule zmod_zminus1_eq_if)
  have s: "t sdiv u * u = t - (if 0 \<le> t then r else - (if r = 0 then 0 else m - r))"
    unfolding minus_smod_eq_sdiv_mult [symmetric]
    using n by (cases "t = 0") (auto simp: signed_modulo_int_def sgn_if m_def r_def)
  have d: "t div \<bar>u\<bar> * \<bar>u\<bar> = t - r" "- ((- t) div \<bar>u\<bar>) * \<bar>u\<bar> = t + (if r = 0 then 0 else m - r)"
    using n minus_mod_eq_div_mult [of "- t" m] by (simp_all add: r_def m_def minus_mod_eq_div_mult [symmetric])
  show "t sdiv u * u \<le> t \<Longrightarrow> t sdiv u * u = t div \<bar>u\<bar> * \<bar>u\<bar>"
    "\<not> t sdiv u * u \<le> t \<Longrightarrow> t sdiv u * u - \<bar>u\<bar> = t div \<bar>u\<bar> * \<bar>u\<bar>"
    "t \<le> t sdiv u * u \<Longrightarrow> t sdiv u * u = - ((- t) div \<bar>u\<bar>) * \<bar>u\<bar>"
    "\<not> t \<le> t sdiv u * u \<Longrightarrow> t sdiv u * u + \<bar>u\<bar> = - ((- t) div \<bar>u\<bar>) * \<bar>u\<bar>"
    unfolding s d using m by (auto simp flip: m_def split: if_splits)
qed

lemma Floor_Ceil_val:
  assumes ok: "dur_ok d" "dur_ok unit" and v: "dur_val d = Fin t" "dur_val unit = Fin u" "u \<noteq> 0" "u \<noteq> min_ticks"
  shows "dur_ok (Floor d unit) \<and> dur_val (Floor d unit) = sat (t div \<bar>u\<bar> * \<bar>u\<bar>)"
    "dur_ok (Ceil d unit) \<and> dur_val (Ceil d unit) = sat (- ((- t) div \<bar>u\<bar>) * \<bar>u\<bar>)"
proof -
  note T = Trunc_val [OF ok v(1-3)]
  note A = AbsDuration_val [OF ok(2) v(2,4)]
  have r: "sat (t sdiv u * u) = Fin (t sdiv u * u)"
    using T fin_ticks(2,3) [of "Trunc d unit"] by (intro sat_Fin) auto
  have le: "dur_less_eq (Trunc d unit) d \<longleftrightarrow> t sdiv u * u \<le> t" "dur_greater_eq (Trunc d unit) d \<longleftrightarrow> t \<le> t sdiv u * u"
    using T ok v by (auto simp: dur_less_eq_def dur_greater_eq_def dur_less_val)
  show "dur_ok (Floor d unit) \<and> dur_val (Floor d unit) = sat (t div \<bar>u\<bar> * \<bar>u\<bar>)"
    using T A r trunc_vs_floor(1,2) [OF v(3), of t] dur_sub_val [of "Trunc d unit" "AbsDuration unit"]
    by (simp add: Floor_def Let_def le)
  show "dur_ok (Ceil d unit) \<and> dur_val (Ceil d unit) = sat (- ((- t) div \<bar>u\<bar>) * \<bar>u\<bar>)"
    using T A r trunc_vs_floor(3,4) [OF v(3), of t] dur_add_val [of "Trunc d unit" "AbsDuration unit"]
    by (simp add: Ceil_def Let_def le)
qed

section \<open>Properties of division\<close>

text \<open>
  C12: Integer division of durations: for every pair of valid durations \<^verbatim>\<open>IDivDuration\<close> returns
  the quotient truncated towards zero and clamped to 64 bits together with a valid remainder that
  makes up the numerator exactly (also when the quotient is clamped), and the documented values for a
  zero divisor and for infinities; \<^verbatim>\<open>operator%\<close> returns the exact truncated remainder even when the quotient
  does not fit. The fast paths agree with the 128-bit division.
\<close>

theorem duration_division:
  assumes "dur_ok a" "dur_ok b"
  shows "dur_ok (snd (IDivDuration a b)) \<and>
    (fst (IDivDuration a b), dur_val (snd (IDivDuration a b))) = dval_idiv (dur_val a) (dur_val b) \<and>
    dur_div a b = fst (dval_idiv (dur_val a) (dur_val b)) \<and>
    dur_ok (dur_mod a b) \<and> dur_val (dur_mod a b) = dval_mod (dur_val a) (dur_val b)"
proof -
  note i = IDivDuration_val [OF assms]
  then have "dur_div a b = fst (dval_idiv (dur_val a) (dur_val b))" by (metis dur_div_def fst_conv)
  with i dur_mod_val [OF assms] show ?thesis by blast
qed

theorem duration_division_witness:
  "dur_div (MakeDuration (- 8) 2000000000) (MakeDuration 2 0) = - 3 \<and>
   dur_val (dur_mod (MakeDuration (- 8) 2000000000) (MakeDuration 2 0)) = Fin (- 6000000000) \<and>
   dur_div (MakeDuration int64_max 0) (MakeDuration 0 4) = int64_max"
proof -
  have ok: "dur_ok (MakeDuration (- 8) 2000000000)" "dur_ok (MakeDuration 2 0)"
    "dur_ok (MakeDuration int64_max 0)" "dur_ok (MakeDuration 0 4)"
    by (auto intro!: dur_Make simp: in_int64_def)
  show ?thesis
    using duration_division [OF ok(1,2)] duration_division [OF ok(3,4)]
    by (simp add: dur_Make in_int64_def signed_divide_int_def signed_modulo_int_def clamp64_def Let_def)
qed

text \<open>
  C13: Rounding a finite duration to a non-zero finite unit: \<^verbatim>\<open>Trunc\<close> gives the multiple of the unit
  next to zero, \<^verbatim>\<open>Floor\<close> the largest multiple not above and \<^verbatim>\<open>Ceil\<close> the smallest multiple not below
  the duration, saturated to the infinities when that multiple is not representable (the unit is not
  the most negative duration, whose absolute value is infinite).
\<close>

theorem duration_rounding:
  assumes "dur_ok d" "dur_ok unit" "dur_val d = Fin t" "dur_val unit = Fin u" "u \<noteq> 0" "u \<noteq> min_ticks"
  shows "dur_val (Trunc d unit) = Fin (t sdiv u * u) \<and>
    dur_val (Floor d unit) = sat (t div \<bar>u\<bar> * \<bar>u\<bar>) \<and>
    dur_val (Ceil d unit) = sat (- ((- t) div \<bar>u\<bar>) * \<bar>u\<bar>) \<and>
    dur_ok (Trunc d unit) \<and> dur_ok (Floor d unit) \<and> dur_ok (Ceil d unit)"
  using Trunc_val [OF assms(1-5)] Floor_Ceil_val [OF assms] by blast

theorem duration_rounding_witness:
  "dur_val (Floor (MakeDuration (- 8) 2000000000) (MakeDuration 2 0)) = Fin (- 32000000000) \<and>
   dur_val (Ceil (MakeDuration (- 8) 2000000000) (MakeDuration 2 0)) = Fin (- 24000000000)"
proof -
  have ok: "dur_ok (MakeDuration (- 8) 2000000000)" "dur_ok (MakeDuration 2 0)"
    "dur_val (MakeDuration (- 8) 2000000000) = Fin (- 30000000000)" "dur_val (MakeDuration 2 0) = Fin 8000000000"
    by (auto simp: dur_Make in_int64_def)
  show ?thesis using duration_rounding [OF ok] by (simp add: sat_def)
qed

end
