(* ===== verification/Duration_Convert.thy ===== *)
theory Duration_Convert
  imports Duration_Div
begin

text \<open>
  Conversions between durations and integer counts of a unit, \<^verbatim>\<open>timespec\<close> and \<^verbatim>\<open>timeval\<close>
  (\<^verbatim>\<open>absl/time/time.h\<close>, \<^verbatim>\<open>absl/time/duration.cc\<close>). \<^verbatim>\<open>time_t\<close> is a 64-bit integer, so
  the narrowing branches of the two \<^verbatim>\<open>To\<close> functions are only taken for infinite durations.
\<close>

section \<open>From integers\<close>

text \<open>\<^verbatim>\<open>FromInt64(v, std::ratio<1, N>)\<close>.\<close>

definition FromInt64 :: "int \<Rightarrow> int \<Rightarrow> Duration" where
  "FromInt64 N v =
     MakeNormalizedDuration (v sdiv N) ((v smod N * kTicksPerNanosecond * 1000 * 1000 * 1000) sdiv N)"

text \<open>\<^verbatim>\<open>FromInt64(v, std::ratio<60>)\<close> and \<^verbatim>\<open>std::ratio<3600>\<close>.\<close>

definition FromInt64_ratio60 :: "int \<Rightarrow> Duration" where
  "FromInt64_ratio60 v =
     (if v \<le> int64_max sdiv 60 \<and> v \<ge> int64_min sdiv 60 then MakeDuration (v * 60) 0
      else if v > 0 then InfiniteDuration else dur_neg InfiniteDuration)"

definition FromInt64_ratio3600 :: "int \<Rightarrow> Duration" where
  "FromInt64_ratio3600 v =
     (if v \<le> int64_max sdiv 3600 \<and> v \<ge> int64_min sdiv 3600 then MakeDuration (v * 3600) 0
      else if v > 0 then InfiniteDuration else dur_neg InfiniteDuration)"

definition Nanoseconds :: "int \<Rightarrow> Duration" where
  "Nanoseconds n = FromInt64 1000000000 n"

definition Microseconds :: "int \<Rightarrow> Duration" where
  "Microseconds n = FromInt64 1000000 n"

definition Milliseconds :: "int \<Rightarrow> Duration" where
  "Milliseconds n = FromInt64 1000 n"

definition Seconds :: "int \<Rightarrow> Duration" where
  "Seconds n = FromInt64 1 n"

definition Minutes :: "int \<Rightarrow> Duration" where
  "Minutes n = FromInt64_ratio60 n"

definition Hours :: "int \<Rightarrow> Duration" where
  "Hours n = FromInt64_ratio3600 n"

section \<open>To integers\<close>

definition ToInt64Nanoseconds :: "Duration \<Rightarrow> int" where
  "ToInt64Nanoseconds d =
     (if GetRepHi d \<ge> 0 \<and> drop_bit 33 (GetRepHi d) = 0
      then GetRepHi d * 1000 * 1000 * 1000 + GetRepLo d sdiv kTicksPerNanosecond
      else dur_div d (Nanoseconds 1))"

definition ToInt64Microseconds :: "Duration \<Rightarrow> int" where
  "ToInt64Microseconds d =
     (if GetRepHi d \<ge> 0 \<and> drop_bit 43 (GetRepHi d) = 0
      then GetRepHi d * 1000 * 1000 + GetRepLo d sdiv (kTicksPerNanosecond * 1000)
      else dur_div d (Microseconds 1))"

definition ToInt64Milliseconds :: "Duration \<Rightarrow> int" where
  "ToInt64Milliseconds d =
     (if GetRepHi d \<ge> 0 \<and> drop_bit 53 (GetRepHi d) = 0
      then GetRepHi d * 1000 + GetRepLo d sdiv (kTicksPerNanosecond * 1000 * 1000)
      else dur_div d (Milliseconds 1))"

definition ToInt64Seconds :: "Duration \<Rightarrow> int" where
  "ToInt64Seconds d =
     (let hi = GetRepHi d in
      if IsInfiniteDuration d then hi
      else if hi < 0 \<and> GetRepLo d \<noteq> 0 then hi + 1 else hi)"

definition ToInt64Minutes :: "Duration \<Rightarrow> int" where
  "ToInt64Minutes d =
     (let hi = GetRepHi d in
      if IsInfiniteDuration d then hi
      else (if hi < 0 \<and> GetRepLo d \<noteq> 0 then hi + 1 else hi) sdiv 60)"

definition ToInt64Hours :: "Duration \<Rightarrow> int" where
  "ToInt64Hours d =
     (let hi = GetRepHi d in
      if IsInfiniteDuration d then hi
      else (if hi < 0 \<and> GetRepLo d \<noteq> 0 then hi + 1 else hi) sdiv (60 * 60))"

section \<open>C time structures\<close>

record timespec =
  tv_sec :: int
  tv_nsec :: int

record timeval =
  tvl_sec :: int
  tvl_usec :: int

definition DurationFromTimespec :: "timespec \<Rightarrow> Duration" where
  "DurationFromTimespec ts =
     (if uint (word_of_int (tv_nsec ts) :: 64 word) < 1000 * 1000 * 1000
      then MakeDuration (tv_sec ts) (tv_nsec ts * kTicksPerNanosecond)
      else dur_add (Seconds (tv_sec ts)) (Nanoseconds (tv_nsec ts)))"

definition DurationFromTimeval :: "timeval \<Rightarrow> Duration" where
  "DurationFromTimeval tv =
     (if uint (word_of_int (tvl_usec tv) :: 64 word) < 1000 * 1000
      then MakeDuration (tvl_sec tv) (tvl_usec tv * 1000 * kTicksPerNanosecond)
      else dur_add (Seconds (tvl_sec tv)) (Microseconds (tvl_usec tv)))"

definition ToTimespec :: "Duration \<Rightarrow> timespec" where
  "ToTimespec d =
     (if \<not> IsInfiniteDuration d then
        let rep_hi = GetRepHi d; rep_lo = GetRepLo d;
            (rep_hi, rep_lo) =
              (if rep_hi < 0 then
                 let rep_lo = (rep_lo + (kTicksPerNanosecond - 1)) mod 2 ^ 32 in
                 if rep_lo \<ge> kTicksPerSecond then (rep_hi + 1, rep_lo - kTicksPerSecond) else (rep_hi, rep_lo)
               else (rep_hi, rep_lo))
        in \<lparr>tv_sec = rep_hi, tv_nsec = rep_lo sdiv kTicksPerNanosecond\<rparr>
      else if dur_greater_eq d ZeroDuration then \<lparr>tv_sec = int64_max, tv_nsec = 1000 * 1000 * 1000 - 1\<rparr>
      else \<lparr>tv_sec = int64_min, tv_nsec = 0\<rparr>)"

definition ToTimeval :: "Duration \<Rightarrow> timeval" where
  "ToTimeval d =
     (let ts = ToTimespec d;
          ts = (if tv_sec ts < 0 then
                  let nsec = tv_nsec ts + (1000 - 1) in
                  if nsec \<ge> 1000 * 1000 * 1000
                  then \<lparr>tv_sec = tv_sec ts + 1, tv_nsec = nsec - 1000 * 1000 * 1000\<rparr>
                  else \<lparr>tv_sec = tv_sec ts, tv_nsec = nsec\<rparr>
                else ts)
      in \<lparr>tvl_sec = tv_sec ts, tvl_usec = tv_nsec ts sdiv 1000\<rparr>)"

section \<open>Units that divide the second\<close>

text \<open>
  The contract of a unit of \<open>k\<close> ticks of which \<open>n\<close> make a second: the construction from an integer and the
  truncating conversion back are proved once for all such units.
\<close>

lemma mult_sdiv_cancel: "0 < n \<Longrightarrow> (x * n) sdiv n = (x :: int)"
  by (cases "0 \<le> x * n") (simp_all add: sdiv_pos minus_mult_left del: mult_minus_left)

locale subsecond_unit =
  fixes n k :: int
  assumes nk: "n * k = 4000000000" and n: "0 < n" "n \<le> 1000000000" and k: "0 < k"
begin

lemma FromInt64_ticks:
  assumes "in_int64 v"
  shows "dur_ok (FromInt64 n v) \<and> dur_val (FromInt64 n v) = Fin (v * k)"
proof -
  have m: "(v smod n * kTicksPerNanosecond * 1000 * 1000 * 1000) sdiv n = v smod n * k"
  proof -
    have "v smod n * kTicksPerNanosecond * 1000 * 1000 * 1000 = (v smod n * k) * n"
      using nk by (simp add: tick_consts algebra_simps)
    then show ?thesis by (simp only: mult_sdiv_cancel [OF n(1)])
  qed
  have eq: "FromInt64 n v = MakeNormalizedDuration (v sdiv n) (v smod n * k)"
    by (simp only: FromInt64_def m)
  have e: "v * k = v sdiv n * 4000000000 + v smod n * k"
    using nk sdiv_mult_smod_eq [of v n] by (metis distrib_right mult.assoc)
  have b: "- n < v smod n" "v smod n < n" using n by (simp_all add: smod_pos_bounds)
  then have s: "- 4000000000 < v smod n * k" "v smod n * k < 4000000000"
    using mult_strict_right_mono [OF _ k] nk by (metis minus_mult_left)+
  have q2: "in_int64 (v sdiv n)"
    using sdiv_range [of "2 ^ 63" v n] assms n by (simp add: in_int64_def)
  have q1: "in_int64 (v sdiv n - 1)" if "v smod n < 0"
  proof -
    have "v < 0"
    proof (rule ccontr)
      assume "\<not> v < 0"
      then have "v smod n = v mod n" using n by (simp add: sdiv_nonneg)
      then show False using that pos_mod_sign [OF n(1), of v] by linarith
    qed
    then have "v sdiv n \<le> 0" using n by (simp add: sdiv_pos pos_imp_zdiv_nonneg_iff)
    then have "v sdiv n * n \<le> v sdiv n * 1" using n by (intro mult_left_mono_neg) simp_all
    then show ?thesis using sdiv_mult_smod_eq [of v n] that assms q2 by (simp add: in_int64_def)
  qed
  note q = q1 q2
  show ?thesis
  proof (cases "v smod n * k < 0")
    case True
    then have "v smod n < 0" using k by (simp add: mult_less_0_iff)
    with True show ?thesis
      using q(1) s dur_Make [of "v sdiv n - 1" "v smod n * k + 4000000000"]
      by (simp add: eq MakeNormalizedDuration_def e tick_consts)
  next
    case False
    then show ?thesis
      using q(2) s dur_Make [of "v sdiv n" "v smod n * k"]
      by (simp add: eq MakeNormalizedDuration_def e tick_consts)
  qed
qed

lemma unit_quotient:
  assumes "dur_ok d" "dur_val d = Fin t"
  shows "dur_div d (FromInt64 n 1) = clamp64 (t sdiv k)"
proof -
  have "dur_val (FromInt64 n 1) = Fin k" "dur_ok (FromInt64 n 1)"
    using FromInt64_ticks [of 1] by (simp_all add: in_int64_def)
  then show ?thesis
    using IDivDuration_val [OF assms(1), of "FromInt64 n 1"] assms(2) k by (simp add: dur_div_def Let_def)
qed

lemma unit_quotient_inf:
  assumes "dur_ok d" "IsInfiniteDuration d"
  shows "dur_div d (FromInt64 n 1) = GetRepHi d"
proof -
  have "dur_val (FromInt64 n 1) = Fin k" "dur_ok (FromInt64 n 1)"
    using FromInt64_ticks [of 1] by (simp_all add: in_int64_def)
  then show ?thesis
    using IDivDuration_val [OF assms(1), of "FromInt64 n 1"] k assms
    by (cases rule: dur_cases [OF assms(1)]) (simp_all add: dur_div_def)
qed

lemma fast_quotient:
  assumes "0 \<le> h" "h * n \<le> 9100000000000000000" "0 \<le> l" "l < 4000000000"
  shows "h * n + l sdiv k = clamp64 ((h * 4000000000 + l) sdiv k)"
proof -
  have "(h * 4000000000 + l) sdiv k = h * n + l div k"
    using assms k subsecond_div [OF nk k] by (simp add: sdiv_nonneg)
  moreover have "0 \<le> l div k" "l div k \<le> l"
    using assms k zdiv_mono2 [of l 1 k] by (simp_all add: pos_imp_zdiv_nonneg_iff)
  moreover have "0 \<le> h * n" using assms n by simp
  ultimately show ?thesis using assms k by (simp add: clamp64_def sdiv_nonneg)
qed

end

interpretation nano: subsecond_unit 1000000000 4 by unfold_locales simp_all

interpretation micro: subsecond_unit 1000000 4000 by unfold_locales simp_all

interpretation milli: subsecond_unit 1000 4000000 by unfold_locales simp_all

interpretation second: subsecond_unit 1 4000000000 by unfold_locales simp_all

text \<open>The guards \<^verbatim>\<open>hi >> s == 0\<close> bound the high part.\<close>

lemma drop_bit_guard: "0 \<le> h \<Longrightarrow> drop_bit s h = 0 \<Longrightarrow> h < 2 ^ s" for h :: int
  by (auto simp: drop_bit_eq_div zdiv_eq_0_iff)

lemma sdiv_sdiv:
  fixes a b c :: int
  assumes "0 < b" "0 < c"
  shows "a sdiv (b * c) = (a sdiv b) sdiv c"
proof (cases "0 \<le> a")
  case True
  then have "0 \<le> a div b" using assms by (simp add: pos_imp_zdiv_nonneg_iff)
  with True assms show ?thesis by (simp add: sdiv_nonneg zdiv_zmult2_eq)
next
  case False
  then have p: "0 \<le> (- a) div b" using assms by (simp add: pos_imp_zdiv_nonneg_iff)
  have "a sdiv (b * c) = - ((- a) div b div c)" using False assms by (simp add: sdiv_pos zdiv_zmult2_eq)
  moreover have "(a sdiv b) sdiv c = - ((- a) div b div c)"
    using False p assms by (cases "(- a) div b = 0") (simp_all add: sdiv_pos)
  ultimately show ?thesis by simp
qed

lemma div_parts: "0 \<le> y \<Longrightarrow> y < 4000000000 \<Longrightarrow> (x * 4000000000 + y) div 4000000000 = (x :: int)"
  by simp

lemma dur_parts:
  assumes "dur_ok d" "dur_val d = Fin t"
  shows "\<not> IsInfiniteDuration d" "in_int64 (GetRepHi d)" "0 \<le> GetRepLo d" "GetRepLo d < 4000000000"
    "t = GetRepHi d * 4000000000 + GetRepLo d"
  using assms by (cases rule: dur_cases; simp)+

lemma trunc_parts:
  fixes h l :: int
  assumes "0 \<le> l" "l < 4000000000"
  shows "(h * 4000000000 + l) sdiv 4000000000 = (if h < 0 \<and> l \<noteq> 0 then h + 1 else h)"
proof -
  consider "0 \<le> h" | "h < 0" "l = 0" | "h < 0" "l \<noteq> 0" by linarith
  then show ?thesis
  proof cases
    case 1
    then have "0 \<le> h * 4000000000 + l" using assms by simp
    then have "(h * 4000000000 + l) sdiv 4000000000 = h"
      by (simp only: sdiv_nonneg(1) zero_less_numeral div_parts [OF assms])
    then show ?thesis using 1 by simp
  next
    case 2
    then show ?thesis by (simp add: mult_sdiv_cancel)
  next
    case 3
    have n: "\<not> 0 \<le> h * 4000000000 + l" using 3 assms by linarith
    have e: "- (h * 4000000000 + l) = (- h - 1) * 4000000000 + (4000000000 - l)" by simp
    have "((- h - 1) * 4000000000 + (4000000000 - l)) div 4000000000 = - h - 1"
      by (rule div_parts) (use 3 assms in linarith)+
    then have "(h * 4000000000 + l) sdiv 4000000000 = - (- h - 1)"
      by (simp only: sdiv_pos [OF zero_less_numeral] if_not_P [OF n] e)
    then show ?thesis using 3 by simp
  qed
qed

lemma whole_seconds:
  assumes "dur_ok d" "dur_val d = Fin t"
  shows "ToInt64Seconds d = t sdiv 4000000000"
  using dur_parts [OF assms] trunc_parts [of "GetRepLo d" "GetRepHi d"]
  by (simp add: ToInt64Seconds_def Let_def)

lemma whole_minutes:
  assumes "dur_ok d" "dur_val d = Fin t"
  shows "ToInt64Minutes d = t sdiv (4000000000 * 60)" "ToInt64Hours d = t sdiv (4000000000 * 3600)"
proof -
  have "\<not> IsInfiniteDuration d" using fin_ticks(1) [OF assms] .
  then have "ToInt64Minutes d = ToInt64Seconds d sdiv 60" "ToInt64Hours d = ToInt64Seconds d sdiv 3600"
    by (simp_all add: ToInt64Minutes_def ToInt64Hours_def ToInt64Seconds_def Let_def)
  then show "ToInt64Minutes d = t sdiv (4000000000 * 60)" "ToInt64Hours d = t sdiv (4000000000 * 3600)"
    by (simp_all only: whole_seconds [OF assms] sdiv_sdiv zero_less_numeral)
qed

lemma Minutes_val:
  assumes "in_int64 v"
  shows "dur_ok (Minutes v) \<and> dur_val (Minutes v) = sat (v * 60 * 4000000000)"
    "dur_ok (Hours v) \<and> dur_val (Hours v) = sat (v * 3600 * 4000000000)"
proof -
  have c: "int64_max sdiv 60 = 153722867280912930" "int64_min sdiv 60 = - 153722867280912930"
    "int64_max sdiv 3600 = 2562047788015215" "int64_min sdiv 3600 = - 2562047788015215"
    by (simp_all add: signed_divide_int_def)
  show "dur_ok (Minutes v) \<and> dur_val (Minutes v) = sat (v * 60 * 4000000000)"
    using dur_Make [of "v * 60" 0] dur_inf sat_parts [of 0 "v * 60"]
    by (auto simp: Minutes_def FromInt64_ratio60_def c in_int64_def)
  show "dur_ok (Hours v) \<and> dur_val (Hours v) = sat (v * 3600 * 4000000000)"
    using dur_Make [of "v * 3600" 0] dur_inf sat_parts [of 0 "v * 3600"]
    by (auto simp: Hours_def FromInt64_ratio3600_def c in_int64_def)
qed

section \<open>Integer counts of a unit\<close>

lemma guarded_hi:
  assumes "0 \<le> h" "drop_bit s h = 0"
  shows "\<not> (h :: int) \<ge> 2 ^ s"
  using drop_bit_guard [OF assms] by simp

lemma ToInt64_fin:
  assumes "dur_ok d" "dur_val d = Fin t"
  shows "ToInt64Nanoseconds d = clamp64 (t sdiv 4)" "ToInt64Microseconds d = clamp64 (t sdiv 4000)"
    "ToInt64Milliseconds d = clamp64 (t sdiv 4000000)"
proof -
  note p = dur_parts [OF assms]
  show "ToInt64Nanoseconds d = clamp64 (t sdiv 4)"
  proof (cases "GetRepHi d \<ge> 0 \<and> drop_bit 33 (GetRepHi d) = 0")
    case True
    then show ?thesis
      using nano.fast_quotient [of "GetRepHi d" "GetRepLo d"] p drop_bit_guard [of "GetRepHi d" 33]
      by (simp add: ToInt64Nanoseconds_def tick_consts)
  next
    case False
    then show ?thesis
      unfolding ToInt64Nanoseconds_def if_not_P [OF False] Nanoseconds_def by (intro nano.unit_quotient assms)
  qed
  show "ToInt64Microseconds d = clamp64 (t sdiv 4000)"
  proof (cases "GetRepHi d \<ge> 0 \<and> drop_bit 43 (GetRepHi d) = 0")
    case True
    then show ?thesis
      using micro.fast_quotient [of "GetRepHi d" "GetRepLo d"] p drop_bit_guard [of "GetRepHi d" 43]
      by (simp add: ToInt64Microseconds_def tick_consts)
  next
    case False
    then show ?thesis
      unfolding ToInt64Microseconds_def if_not_P [OF False] Microseconds_def by (intro micro.unit_quotient assms)
  qed
  show "ToInt64Milliseconds d = clamp64 (t sdiv 4000000)"
  proof (cases "GetRepHi d \<ge> 0 \<and> drop_bit 53 (GetRepHi d) = 0")
    case True
    then show ?thesis
      using milli.fast_quotient [of "GetRepHi d" "GetRepLo d"] p drop_bit_guard [of "GetRepHi d" 53]
      by (simp add: ToInt64Milliseconds_def tick_consts)
  next
    case False
    then show ?thesis
      unfolding ToInt64Milliseconds_def if_not_P [OF False] Milliseconds_def by (intro milli.unit_quotient assms)
  qed
qed

lemma ToInt64_inf:
  assumes "dur_ok d" "IsInfiniteDuration d"
  shows "ToInt64Nanoseconds d = GetRepHi d" "ToInt64Microseconds d = GetRepHi d"
    "ToInt64Milliseconds d = GetRepHi d" "ToInt64Seconds d = GetRepHi d"
    "ToInt64Minutes d = GetRepHi d" "ToInt64Hours d = GetRepHi d"
proof -
  have h: "GetRepHi d = int64_min \<or> GetRepHi d = int64_max" using assms by (simp add: dur_ok_def)
  have g: "\<not> (GetRepHi d \<ge> 0 \<and> drop_bit s (GetRepHi d) = 0)" if "s \<le> 60" for s
  proof
    assume "GetRepHi d \<ge> 0 \<and> drop_bit s (GetRepHi d) = 0"
    then have "GetRepHi d < 2 ^ s" by (simp add: drop_bit_guard)
    also have "(2 :: int) ^ s \<le> 2 ^ 60" using that by (intro power_increasing) simp_all
    finally show False using h \<open>GetRepHi d \<ge> 0 \<and> drop_bit s (GetRepHi d) = 0\<close> by auto
  qed
  show "ToInt64Nanoseconds d = GetRepHi d" "ToInt64Microseconds d = GetRepHi d" "ToInt64Milliseconds d = GetRepHi d"
    using g [of 33] g [of 43] g [of 53] nano.unit_quotient_inf [OF assms] micro.unit_quotient_inf [OF assms]
      milli.unit_quotient_inf [OF assms]
    by (simp_all only: ToInt64Nanoseconds_def ToInt64Microseconds_def ToInt64Milliseconds_def Nanoseconds_def
        Microseconds_def Milliseconds_def if_False)
  show "ToInt64Seconds d = GetRepHi d" "ToInt64Minutes d = GetRepHi d" "ToInt64Hours d = GetRepHi d"
    using assms(2) by (simp_all add: ToInt64Seconds_def ToInt64Minutes_def ToInt64Hours_def Let_def)
qed

section \<open>Truncation of a seconds and subseconds pair\<close>

text \<open>The adjustment that makes unsigned division of the low part truncate towards zero.\<close>

definition trunc_adjust :: "int \<Rightarrow> int \<Rightarrow> int \<Rightarrow> int \<Rightarrow> int \<times> int" where
  "trunc_adjust K c s n =
     (if s < 0 then if n + (c - 1) \<ge> K then (s + 1, n + (c - 1) - K) else (s, n + (c - 1)) else (s, n))"

lemma sdiv_neg_ceil:
  fixes N c :: int
  assumes "N < 0" "0 < c"
  shows "N sdiv c = (N + (c - 1)) div c"
proof -
  define q r where "q = N div c" and "r = N mod c"
  have N: "N = q * c + r" and r: "0 \<le> r" "r < c" using assms by (simp_all add: q_def r_def)
  have "(- N) div c = (if r = 0 then - q else - q - 1)"
    unfolding q_def r_def by (rule zdiv_zminus1_eq_if) (use assms in simp)
  then have s: "N sdiv c = (if r = 0 then q else q + 1)" using assms by (simp add: sdiv_pos)
  have "(N + (c - 1)) div c = (if r = 0 then q else q + 1)"
  proof (cases "r = 0")
    case True
    have "(q * c + (c - 1)) div c = q" using assms by (subst add.commute) (simp add: div_pos_pos_trivial)
    then show ?thesis using True N by (simp add: algebra_simps)
  next
    case False
    have e: "N + (c - 1) = (r - 1) + (q + 1) * c" using N by (simp add: algebra_simps)
    show ?thesis unfolding e using False r assms by (simp add: div_pos_pos_trivial)
  qed
  with s show ?thesis by simp
qed

lemma trunc_adjust_correct:
  fixes K c m s n :: int
  assumes K: "K = m * c" "0 < c" "0 < m" and n: "0 \<le> n" "n < K" and a: "trunc_adjust K c s n = (s', n')"
  shows "s' * m + n' sdiv c = (s * K + n) sdiv c" "0 \<le> n' sdiv c" "n' sdiv c < m" "s \<le> s'" "s' \<le> max s 0"
proof -
  have cK: "c \<le> K" using K by simp
  have n': "0 \<le> n'" "n' < K" using a n K(2) cK by (auto simp: trunc_adjust_def split: if_splits)
  then have d: "n' sdiv c = n' div c" "0 \<le> n' div c" "n' div c < m"
    using K by (simp_all add: sdiv_nonneg pos_imp_zdiv_nonneg_iff div_less_iff)
  show "0 \<le> n' sdiv c" "n' sdiv c < m" using d by simp_all
  show "s \<le> s'" "s' \<le> max s 0" using a by (auto simp: trunc_adjust_def split: if_splits)
  have j: "s' * m + n' div c = (s' * K + n') div c" using K by (simp add: mult.assoc [symmetric] add.commute)
  show "s' * m + n' sdiv c = (s * K + n) sdiv c"
  proof (cases "s < 0")
    case True
    then have "(s + 1) * K \<le> 0" using K by (intro mult_nonpos_nonneg) simp_all
    then have neg: "s * K + n < 0" using n by (simp add: distrib_right)
    have "s' * K + n' = s * K + n + (c - 1)"
      using a True by (auto simp: trunc_adjust_def algebra_simps split: if_splits)
    then show ?thesis using sdiv_neg_ceil [OF neg K(2)] by (simp only: d j)
  next
    case False
    then have "0 \<le> s * K + n" using n K by simp
    then show ?thesis using False a K(2) by (simp add: trunc_adjust_def d j sdiv_nonneg)
  qed
qed

lemma ToTimespec_eq:
  assumes "dur_ok d" "dur_val d = Fin t"
  shows "ToTimespec d = (let (s, n) = trunc_adjust 4000000000 4 (GetRepHi d) (GetRepLo d)
    in \<lparr>tv_sec = s, tv_nsec = n sdiv 4\<rparr>)"
proof -
  note p = dur_parts [OF assms]
  have "(GetRepLo d + 3) mod 2 ^ 32 = GetRepLo d + 3" using p by simp
  then show ?thesis
    using p(1) by (auto simp: ToTimespec_def trunc_adjust_def tick_consts Let_def)
qed

lemma ToTimespec_val:
  assumes "dur_ok d" "dur_val d = Fin t"
  shows "tv_sec (ToTimespec d) * 1000000000 + tv_nsec (ToTimespec d) = t sdiv 4"
    "0 \<le> tv_nsec (ToTimespec d)" "tv_nsec (ToTimespec d) < 1000000000" "in_int64 (tv_sec (ToTimespec d))"
proof -
  note p = dur_parts [OF assms]
  obtain s n where a: "trunc_adjust 4000000000 4 (GetRepHi d) (GetRepLo d) = (s, n)" by fastforce
  have e: "tv_sec (ToTimespec d) = s" "tv_nsec (ToTimespec d) = n sdiv 4"
    by (simp_all add: ToTimespec_eq [OF assms] a)
  note r = trunc_adjust_correct [OF _ _ _ p(3,4) a, of 1000000000, simplified]
  show "tv_sec (ToTimespec d) * 1000000000 + tv_nsec (ToTimespec d) = t sdiv 4"
    "0 \<le> tv_nsec (ToTimespec d)" "tv_nsec (ToTimespec d) < 1000000000"
    using r by (simp_all add: e p(5))
  show "in_int64 (tv_sec (ToTimespec d))" using r(4,5) p(2) by (auto simp: e in_int64_def)
qed

lemma ToTimeval_val:
  assumes "dur_ok d" "dur_val d = Fin t"
  shows "tvl_sec (ToTimeval d) * 1000000 + tvl_usec (ToTimeval d) = t sdiv 4000"
    "0 \<le> tvl_usec (ToTimeval d)" "tvl_usec (ToTimeval d) < 1000000" "in_int64 (tvl_sec (ToTimeval d))"
proof -
  let ?ts = "ToTimespec d"
  note p = ToTimespec_val [OF assms]
  obtain s n where a: "trunc_adjust 1000000000 1000 (tv_sec ?ts) (tv_nsec ?ts) = (s, n)" by fastforce
  then have e: "tvl_sec (ToTimeval d) = s" "tvl_usec (ToTimeval d) = n sdiv 1000"
    by (auto simp: ToTimeval_def trunc_adjust_def Let_def split: if_splits)
  note r = trunc_adjust_correct [OF _ _ _ p(2,3) a, of 1000000, simplified]
  have "t sdiv (4 * 1000) = (tv_sec ?ts * 1000000000 + tv_nsec ?ts) sdiv 1000"
    unfolding p(1) by (rule sdiv_sdiv) simp_all
  then show "tvl_sec (ToTimeval d) * 1000000 + tvl_usec (ToTimeval d) = t sdiv 4000"
    using r(1) by (simp add: e)
  show "0 \<le> tvl_usec (ToTimeval d)" "tvl_usec (ToTimeval d) < 1000000" using r by (simp_all add: e)
  show "in_int64 (tvl_sec (ToTimeval d))" using r(4,5) p(4) by (auto simp: e in_int64_def)
qed

section \<open>From the C time structures\<close>

lemma uint_of_int64: "in_int64 v \<Longrightarrow> uint (word_of_int v :: 64 word) = (if v < 0 then v + 2 ^ 64 else v)"
proof (cases "v < 0")
  case True
  assume "in_int64 v"
  then have u: "uint (word_of_int (v + 2 ^ 64) :: 64 word) = v + 2 ^ 64"
    using True by (intro uint_64_of_int) (simp_all add: in_int64_def)
  have "(word_of_int v :: 64 word) = word_of_int (v + 2 ^ 64)" by simp
  then show ?thesis using True u by (simp only: if_True)
qed (simp add: uint_64_of_int in_int64_def)

lemma Seconds_val:
  assumes "in_int64 v"
  shows "dur_ok (Seconds v)" "dur_val (Seconds v) = Fin (v * 4000000000)"
    "dur_ok (Nanoseconds v)" "dur_val (Nanoseconds v) = Fin (v * 4)"
    "dur_ok (Microseconds v)" "dur_val (Microseconds v) = Fin (v * 4000)"
    "dur_ok (Milliseconds v)" "dur_val (Milliseconds v) = Fin (v * 4000000)"
  using second.FromInt64_ticks [OF assms] nano.FromInt64_ticks [OF assms] micro.FromInt64_ticks [OF assms]
    milli.FromInt64_ticks [OF assms]
  by (simp_all add: Seconds_def Nanoseconds_def Microseconds_def Milliseconds_def)

lemma DurationFromTimespec_val:
  assumes "in_int64 (tv_sec ts)" "in_int64 (tv_nsec ts)"
  shows "dur_ok (DurationFromTimespec ts) \<and>
    dur_val (DurationFromTimespec ts) = sat (tv_sec ts * 4000000000 + tv_nsec ts * 4)"
proof (cases "0 \<le> tv_nsec ts \<and> tv_nsec ts < 1000000000")
  case True
  then have "DurationFromTimespec ts = MakeDuration (tv_sec ts) (tv_nsec ts * 4)"
    using assms(2) by (simp add: DurationFromTimespec_def uint_of_int64 tick_consts)
  then show ?thesis
    using True assms(1) dur_Make [of "tv_sec ts" "tv_nsec ts * 4"] sat_parts [of "tv_nsec ts * 4" "tv_sec ts"]
    by (simp add: in_int64_def)
next
  case False
  then have "DurationFromTimespec ts = dur_add (Seconds (tv_sec ts)) (Nanoseconds (tv_nsec ts))"
    using assms(2) by (auto simp: DurationFromTimespec_def uint_of_int64 in_int64_def)
  then show ?thesis using dur_add_val Seconds_val [OF assms(1)] Seconds_val [OF assms(2)] by simp
qed

lemma DurationFromTimeval_val:
  assumes "in_int64 (tvl_sec tv)" "in_int64 (tvl_usec tv)"
  shows "dur_ok (DurationFromTimeval tv) \<and>
    dur_val (DurationFromTimeval tv) = sat (tvl_sec tv * 4000000000 + tvl_usec tv * 4000)"
proof (cases "0 \<le> tvl_usec tv \<and> tvl_usec tv < 1000000")
  case True
  then have "DurationFromTimeval tv = MakeDuration (tvl_sec tv) (tvl_usec tv * 4000)"
    using assms(2) by (simp add: DurationFromTimeval_def uint_of_int64 tick_consts mult.commute)
  then show ?thesis
    using True assms(1) dur_Make [of "tvl_sec tv" "tvl_usec tv * 4000"] sat_parts [of "tvl_usec tv * 4000" "tvl_sec tv"]
    by (simp add: in_int64_def)
next
  case False
  then have "DurationFromTimeval tv = dur_add (Seconds (tvl_sec tv)) (Microseconds (tvl_usec tv))"
    using assms(2) by (auto simp: DurationFromTimeval_def uint_of_int64 in_int64_def)
  then show ?thesis using dur_add_val Seconds_val [OF assms(1)] Seconds_val [OF assms(2)] by simp
qed

lemma sdiv_mult_range:
  assumes "min_ticks \<le> t" "t \<le> max_ticks" "0 < c"
  shows "sat (t sdiv c * c) = Fin (t sdiv c * c)"
proof -
  have "\<bar>t\<bar> div c * c \<le> \<bar>t\<bar>" "0 \<le> \<bar>t\<bar> div c * c"
    using assms(3) by (simp_all add: minus_mod_eq_div_mult [symmetric] zmod_le_nonneg_dividend)
  then show ?thesis using assms by (intro sat_Fin) (auto simp: sdiv_pos abs_if split: if_splits)
qed

section \<open>Properties\<close>

text \<open>
  C14: Converting a 64-bit count of hours down to nanoseconds to a duration is exact (saturating only
  for minutes and hours), and converting a finite duration back gives the count truncated towards
  zero, clamped to 64 bits where the count can overflow; the fast paths for small values agree with the
  general division. In all six units the positive infinite duration gives the greatest 64-bit integer and
  the negative one the least.
\<close>

theorem duration_unit_conversion:
  assumes "in_int64 v" "dur_ok d"
  shows "dur_val (Nanoseconds v) = Fin (v * 4) \<and> dur_val (Microseconds v) = Fin (v * 4000) \<and>
    dur_val (Milliseconds v) = Fin (v * 4000000) \<and> dur_val (Seconds v) = Fin (v * 4000000000) \<and>
    dur_val (Minutes v) = sat (v * 60 * 4000000000) \<and> dur_val (Hours v) = sat (v * 3600 * 4000000000) \<and>
    (\<forall>t. dur_val d = Fin t \<longrightarrow>
      ToInt64Nanoseconds d = clamp64 (t sdiv 4) \<and> ToInt64Microseconds d = clamp64 (t sdiv 4000) \<and>
      ToInt64Milliseconds d = clamp64 (t sdiv 4000000) \<and> ToInt64Seconds d = t sdiv 4000000000 \<and>
      ToInt64Minutes d = t sdiv (4000000000 * 60) \<and> ToInt64Hours d = t sdiv (4000000000 * 3600)) \<and>
    (dur_val d = PosInf \<longrightarrow>
      ToInt64Nanoseconds d = int64_max \<and> ToInt64Microseconds d = int64_max \<and> ToInt64Milliseconds d = int64_max \<and>
      ToInt64Seconds d = int64_max \<and> ToInt64Minutes d = int64_max \<and> ToInt64Hours d = int64_max) \<and>
    (dur_val d = NegInf \<longrightarrow>
      ToInt64Nanoseconds d = int64_min \<and> ToInt64Microseconds d = int64_min \<and> ToInt64Milliseconds d = int64_min \<and>
      ToInt64Seconds d = int64_min \<and> ToInt64Minutes d = int64_min \<and> ToInt64Hours d = int64_min)"
proof -
  have "dur_val d = PosInf \<Longrightarrow> IsInfiniteDuration d \<and> GetRepHi d = int64_max"
    "dur_val d = NegInf \<Longrightarrow> IsInfiniteDuration d \<and> GetRepHi d = int64_min"
    using assms(2) by (cases rule: dur_cases; simp)+
  then show ?thesis
    using Seconds_val [OF assms(1)] Minutes_val [OF assms(1)] ToInt64_fin [OF assms(2)] whole_seconds [OF assms(2)]
      whole_minutes [OF assms(2)] ToInt64_inf [OF assms(2)] by simp
qed

theorem duration_unit_conversion_witness:
  "dur_val (Nanoseconds (- 3)) = Fin (- 12) \<and> ToInt64Microseconds (MakeDuration (- 2) 1) = - 1999999 \<and>
   ToInt64Hours InfiniteDuration = int64_max"
proof -
  have v: "in_int64 (- 3)" by (simp add: in_int64_def)
  have d: "dur_ok (MakeDuration (- 2) 1)" "dur_val (MakeDuration (- 2) 1) = Fin (- 7999999999)"
    by (simp_all add: dur_Make in_int64_def)
  show ?thesis
    using duration_unit_conversion [OF v d(1)] duration_unit_conversion [OF v dur_inf(1)] d(2) dur_inf(2)
    by (simp add: clamp64_def signed_divide_int_def)
qed

text \<open>
  C15: \<^verbatim>\<open>ToTimespec\<close> and \<^verbatim>\<open>ToTimeval\<close> truncate a finite duration towards zero to a normalised
  pair (the subsecond part is never negative), the converse conversions are exact or saturate for
  arbitrary fields, and the round trip through a \<^verbatim>\<open>timespec\<close> loses exactly the part below a nanosecond.
\<close>

theorem duration_timespec_roundtrip:
  assumes "dur_ok d" "dur_val d = Fin t"
  shows "tv_sec (ToTimespec d) * 1000000000 + tv_nsec (ToTimespec d) = t sdiv 4 \<and>
    0 \<le> tv_nsec (ToTimespec d) \<and> tv_nsec (ToTimespec d) < 1000000000 \<and>
    tvl_sec (ToTimeval d) * 1000000 + tvl_usec (ToTimeval d) = t sdiv 4000 \<and>
    0 \<le> tvl_usec (ToTimeval d) \<and> tvl_usec (ToTimeval d) < 1000000 \<and>
    dur_val (DurationFromTimespec (ToTimespec d)) = Fin (t sdiv 4 * 4) \<and>
    dur_val (DurationFromTimeval (ToTimeval d)) = Fin (t sdiv 4000 * 4000)"
proof -
  note s = ToTimespec_val [OF assms] and v = ToTimeval_val [OF assms] and r = fin_ticks(2,3) [OF assms]
  have "tv_sec (ToTimespec d) * 4000000000 + tv_nsec (ToTimespec d) * 4 = t sdiv 4 * 4"
    unfolding s(1) [symmetric] by simp
  then have "dur_val (DurationFromTimespec (ToTimespec d)) = Fin (t sdiv 4 * 4)"
    using DurationFromTimespec_val [of "ToTimespec d"] s(2-4) sdiv_mult_range [OF r, of 4] by (simp add: in_int64_def)
  moreover have "tvl_sec (ToTimeval d) * 4000000000 + tvl_usec (ToTimeval d) * 4000 = t sdiv 4000 * 4000"
    unfolding v(1) [symmetric] by simp
  then have "dur_val (DurationFromTimeval (ToTimeval d)) = Fin (t sdiv 4000 * 4000)"
    using DurationFromTimeval_val [of "ToTimeval d"] v(2-4) sdiv_mult_range [OF r, of 4000] by (simp add: in_int64_def)
  ultimately show ?thesis using s v by blast
qed

theorem duration_timespec_roundtrip_witness:
  "dur_val (DurationFromTimespec (ToTimespec (MakeDuration (- 2) 1))) = Fin (- 7999999996)"
proof -
  have d: "dur_ok (MakeDuration (- 2) 1)" "dur_val (MakeDuration (- 2) 1) = Fin (- 7999999999)"
    by (simp_all add: dur_Make in_int64_def)
  show ?thesis using duration_timespec_roundtrip [OF d] by (simp add: signed_divide_int_def)
qed

end
