(* ===== verification/Int128_Format.thy ===== *)
theory Int128_Format
  imports Int128
begin

text \<open>
  Printing of 128-bit integers (\<^verbatim>\<open>absl/numeric/int128.cc\<close>): \<^verbatim>\<open>Uint128ToFormattedString\<close>, the two
  \<^verbatim>\<open>ToString\<close> methods and the two stream operators. The stream's own printing of a 64-bit value
  (\<^verbatim>\<open>os << uint64_t\<close> under its flags, width and fill) is modelled by \<open>put_unsigned\<close>.
\<close>

section \<open>Stream flags and the printing of one unsigned value\<close>

datatype basefield = base_dec | base_hex | base_oct | base_none

datatype adjustfield = adjust_left | adjust_internal | adjust_right | adjust_none

record fmtflags =
  basefield_of :: basefield
  adjustfield_of :: adjustfield
  showbase :: bool
  uppercase :: bool
  showpos :: bool

text \<open>A base field that is neither hexadecimal nor octal prints in decimal.\<close>

definition radix :: "basefield \<Rightarrow> nat" where
  "radix b = (case b of base_hex \<Rightarrow> 16 | base_oct \<Rightarrow> 8 | _ \<Rightarrow> 10)"

definition digit_char :: "bool \<Rightarrow> nat \<Rightarrow> char" where
  "digit_char upper d =
     (if d < 10 then char_of (48 + d) else if upper then char_of (55 + d) else char_of (87 + d))"

text \<open>The digits of a number, most significant first.\<close>

fun digits :: "nat \<Rightarrow> nat \<Rightarrow> nat list" where
  "digits b n = (if b < 2 \<or> n < b then [n] else digits b (n div b) @ [n mod b])"

declare digits.simps [simp del]

definition base_prefix :: "fmtflags \<Rightarrow> nat \<Rightarrow> string" where
  "base_prefix flags n =
     (if showbase flags \<and> n \<noteq> 0 then
        (case basefield_of flags of base_hex \<Rightarrow> (if uppercase flags then ''0X'' else ''0x'')
         | base_oct \<Rightarrow> ''0'' | _ \<Rightarrow> [])
      else [])"

definition digit_string :: "fmtflags \<Rightarrow> nat \<Rightarrow> string" where
  "digit_string flags n = map (digit_char (uppercase flags)) (digits (radix (basefield_of flags)) n)"

definition put_unsigned :: "fmtflags \<Rightarrow> nat \<Rightarrow> char \<Rightarrow> nat \<Rightarrow> string" where
  "put_unsigned flags width fill n =
     (let rep = base_prefix flags n @ digit_string flags n
      in replicate (width - length rep) fill @ rep)"

section \<open>The code\<close>

definition div_of_base :: "basefield \<Rightarrow> 64 word" where
  "div_of_base b = (case b of base_hex \<Rightarrow> 0x1000000000000000
     | base_oct \<Rightarrow> 9223372036854775808 | _ \<Rightarrow> 10000000000000000000)"

definition div_base_log :: "basefield \<Rightarrow> nat" where
  "div_base_log b = (case b of base_hex \<Rightarrow> 15 | base_oct \<Rightarrow> 21 | _ \<Rightarrow> 19)"

definition Uint128ToFormattedString :: "uint128 \<Rightarrow> fmtflags \<Rightarrow> string" where
  "Uint128ToFormattedString v flags =
     (let dv = uint128_of_u64 (div_of_base (basefield_of flags));
          div_log = div_base_log (basefield_of flags);
          noshow = flags\<lparr>showbase := False\<rparr>;
          (high, low) = DivModImpl v dv;
          (high, mid) = DivModImpl high dv
      in if Uint128Low64 high \<noteq> 0 then
           put_unsigned flags 0 CHR '' '' (unat (Uint128Low64 high)) @
           put_unsigned noshow div_log CHR ''0'' (unat (Uint128Low64 mid)) @
           put_unsigned noshow div_log CHR ''0'' (unat (Uint128Low64 low))
         else if Uint128Low64 mid \<noteq> 0 then
           put_unsigned flags 0 CHR '' '' (unat (Uint128Low64 mid)) @
           put_unsigned noshow div_log CHR ''0'' (unat (Uint128Low64 low))
         else put_unsigned flags 0 CHR '' '' (unat (Uint128Low64 low)))"

definition dec_flags :: fmtflags where
  "dec_flags = \<lparr>basefield_of = base_dec, adjustfield_of = adjust_none, showbase = False,
     uppercase = False, showpos = False\<rparr>"

definition uint128_ToString :: "uint128 \<Rightarrow> string" where
  "uint128_ToString v = Uint128ToFormattedString v dec_flags"

definition insert_fill :: "nat \<Rightarrow> nat \<Rightarrow> char \<Rightarrow> string \<Rightarrow> string" where
  "insert_fill pos count fill rep = take pos rep @ replicate count fill @ drop pos rep"

text \<open>\<^verbatim>\<open>operator<<\<close>: the text sent to the stream, given its flags, width and fill character.\<close>

definition put_uint128 :: "fmtflags \<Rightarrow> nat \<Rightarrow> char \<Rightarrow> uint128 \<Rightarrow> string" where
  "put_uint128 flags width fill v =
     (let rep = Uint128ToFormattedString v flags in
      if width > length rep then
        let count = width - length rep in
        if adjustfield_of flags = adjust_left then rep @ replicate count fill
        else if adjustfield_of flags = adjust_internal \<and> showbase flags \<and>
            basefield_of flags = base_hex \<and> \<not> uint128_is_zero v then insert_fill 2 count fill rep
        else insert_fill 0 count fill rep
      else rep)"

definition int128_ToString :: "int128 \<Rightarrow> string" where
  "int128_ToString v =
     (if Int128High64 v < 0 then ''-'' else []) @
     Uint128ToFormattedString (UnsignedAbsoluteValue v) dec_flags"

definition put_int128 :: "fmtflags \<Rightarrow> nat \<Rightarrow> char \<Rightarrow> int128 \<Rightarrow> string" where
  "put_int128 flags width fill v =
     (let print_as_decimal = (basefield_of flags = base_dec \<or> basefield_of flags = base_none);
          sign = (if print_as_decimal then
                    if Int128High64 v < 0 then ''-'' else if showpos flags then ''+'' else []
                  else []);
          rep = sign @ Uint128ToFormattedString
            (if print_as_decimal then UnsignedAbsoluteValue v else uint128_of_int128 v) flags
      in if width > length rep then
           let count = width - length rep in
           case adjustfield_of flags of
             adjust_left \<Rightarrow> rep @ replicate count fill
           | adjust_internal \<Rightarrow>
               (if print_as_decimal \<and> (take 1 rep = ''+'' \<or> take 1 rep = ''-'')
                then insert_fill 1 count fill rep
                else if basefield_of flags = base_hex \<and> showbase flags \<and>
                    (Int128High64 v \<noteq> 0 \<or> Int128Low64 v \<noteq> 0) then insert_fill 2 count fill rep
                else insert_fill 0 count fill rep)
           | _ \<Rightarrow> insert_fill 0 count fill rep
         else rep)"

section \<open>Splitting a number into chunks of digits\<close>

lemma digits_small [simp]: "n < b \<Longrightarrow> digits b n = [n]"
  by (simp add: digits.simps)

text \<open>The low chunk printed with leading zeros to \<open>k\<close> digits.\<close>

definition padded :: "nat \<Rightarrow> nat list \<Rightarrow> nat list" where
  "padded k ds = replicate (k - length ds) 0 @ ds"

lemma digits_length:
  assumes "2 \<le> b" "0 < k" "n < b ^ k"
  shows "length (digits b n) \<le> k"
  using assms
proof (induction b n arbitrary: k rule: digits.induct)
  case (1 b n)
  show ?case
  proof (cases "n < b")
    case False
    with 1(4) have "k \<noteq> 1" by auto
    with 1(3) obtain j where k: "k = Suc j" "0 < j" by (cases k) auto
    have "n div b < b ^ j" using 1(2,4) k by (simp add: less_mult_imp_div_less mult.commute)
    then have "length (digits b (n div b)) \<le> j" using 1 False k by simp
    then show ?thesis using False 1(2) k by (simp add: digits.simps [of b n])
  qed (use 1 in simp)
qed

lemma digits_chunk:
  assumes "2 \<le> b" "0 < h" "0 < k" "l < b ^ k"
  shows "digits b (h * b ^ k + l) = digits b h @ padded k (digits b l)"
  using assms(3,4)
proof (induction k arbitrary: l)
  case (Suc k)
  let ?n = "h * b ^ Suc k + l"
  have big: "\<not> ?n < b"
  proof -
    have "1 * b \<le> (h * b ^ k) * b" using assms(1,2) by (intro mult_right_mono) auto
    then have "b \<le> h * b ^ Suc k" by (simp only: mult_1_left power_Suc ac_simps)
    then show ?thesis by linarith
  qed
  have div: "?n div b = h * b ^ k + l div b" "?n mod b = l mod b"
    using assms(1) by (simp_all add: algebra_simps)
  have l: "l div b < b ^ k" using Suc.prems(2) assms(1) by (simp add: less_mult_imp_div_less mult.commute)
  have unf: "digits b ?n = digits b (h * b ^ k + l div b) @ [l mod b]"
    using big assms(1) by (subst digits.simps) (simp add: div del: power_Suc)
  show ?case
  proof (cases "k = 0")
    case True
    with Suc.prems unf l show ?thesis by (simp add: padded_def)
  next
    case False
    with Suc.IH [of "l div b"] l
    have ih: "digits b (h * b ^ k + l div b) = digits b h @ padded k (digits b (l div b))" by simp
    have "padded k (digits b (l div b)) @ [l mod b] = padded (Suc k) (digits b l)"
      using assms(1) False
      by (cases "l < b"; cases k) (simp_all add: padded_def digits.simps [of b l] replicate_append_same)
    then show ?thesis by (simp only: unf ih append_assoc)
  qed
qed simp

text \<open>The chunks are those of a correct division: the contract of the division the printer calls.\<close>

locale divmod_contract =
  fixes val :: "'a \<Rightarrow> int" and divmod :: "'a \<Rightarrow> 'a \<Rightarrow> 'a \<times> 'a"
  assumes divmod_val: "val b \<noteq> 0 \<Longrightarrow> divmod a b = (q, r) \<Longrightarrow> val q = val a div val b \<and> val r = val a mod val b"
    and val_nonneg: "0 \<le> val a"
begin

lemma three_chunks:
  assumes d: "val d \<noteq> 0" and 1: "divmod v d = (q, low)" and 2: "divmod q d = (high, mid)"
  shows "val v = (val high * val d + val mid) * val d + val low" "val low < val d" "val mid < val d"
    "val high = val v div (val d * val d)"
proof -
  have pos: "0 < val d" using d val_nonneg [of d] by simp
  note q = divmod_val [OF d 1] divmod_val [OF d 2]
  have "val q * val d + val low = val v" "val high * val d + val mid = val q"
    using q by (metis div_mult_mod_eq)+
  then show "val v = (val high * val d + val mid) * val d + val low" by simp
  show "val low < val d" "val mid < val d" using q pos by (metis pos_mod_bound)+
  show "val high = val v div (val d * val d)" using q pos by (metis zdiv_zmult2_eq less_imp_le)
qed

end

interpretation shift_subtract: divmod_contract u128_val DivModImpl
proof
  show "u128_val b \<noteq> 0 \<Longrightarrow> DivModImpl a b = (q, r) \<Longrightarrow>
      u128_val q = u128_val a div u128_val b \<and> u128_val r = u128_val a mod u128_val b" for a b q r
    using DivModImpl_correct [of b a] by simp
qed (rule u128_val_range)

lemma digit_char_0: "digit_char u 0 = CHR ''0''"
  by (cases u) code_simp+

lemma put_padded:
  "\<not> showbase flags \<Longrightarrow> put_unsigned flags k CHR ''0'' n =
     map (digit_char (uppercase flags)) (padded k (digits (radix (basefield_of flags)) n))"
  by (simp add: put_unsigned_def base_prefix_def digit_string_def padded_def digit_char_0)

lemma put_plain: "put_unsigned flags 0 c n = base_prefix flags n @ digit_string flags n"
  by (simp add: put_unsigned_def)

lemma base_div: "uint (div_of_base b) = int (radix b) ^ div_base_log b" "2 \<le> radix b" "0 < div_base_log b"
  "2 ^ 128 \<le> uint (div_of_base b) * uint (div_of_base b) * 2 ^ 64"
  by (cases b; simp add: div_of_base_def radix_def div_base_log_def)+

lemma low_half_small: "u128_val a < 2 ^ 64 \<Longrightarrow> u128_val a = int (unat (Uint128Low64 a))"
  by (simp add: low_half)

text \<open>The printed text: base prefix, then the digits of the value.\<close>

lemma Uint128ToFormattedString_eq:
  "Uint128ToFormattedString v flags =
     base_prefix flags (nat (u128_val v)) @ digit_string flags (nat (u128_val v))"
proof -
  let ?b = "basefield_of flags"
  let ?d = "uint128_of_u64 (div_of_base ?b)" and ?k = "div_base_log ?b"
  obtain q low where 1: "DivModImpl v ?d = (q, low)" by (cases "DivModImpl v ?d")
  obtain high mid where 2: "DivModImpl q ?d = (high, mid)" by (cases "DivModImpl q ?d")
  define B where "B = radix ?b ^ ?k"
  have d: "u128_val ?d = int B" "0 < B" "int B < 2 ^ 64"
    using base_div [of ?b] uint_lt2p [of "div_of_base ?b"] by (simp_all add: u128_val_u64 B_def)
  note chunk = shift_subtract.three_chunks [OF _ 1 2, unfolded d(1)]
  have "u128_val v < int B * int B * 2 ^ 64"
    using u128_val_range(2) [of v] base_div [of ?b] by (simp add: B_def)
  moreover have "u128_val high * (int B * int B) \<le> u128_val v"
    using chunk(4) d(2) by (simp add: minus_mod_eq_div_mult [symmetric])
  ultimately have "u128_val high < 2 ^ 64"
    by (smt (verit) mult.commute mult_less_cancel_right mult_nonneg_nonneg of_nat_0_le_iff)
  then obtain h m l where n: "u128_val high = int h" "u128_val mid = int m" "u128_val low = int l"
    "unat (Uint128Low64 high) = h" "unat (Uint128Low64 mid) = m" "unat (Uint128Low64 low) = l"
    using low_half_small chunk(2,3) d by (metis order.strict_trans of_nat_0_less_iff less_irrefl)
  have v: "nat (u128_val v) = (h * B + m) * B + l" "m < B" "l < B"
    using chunk(1,2,3) d(2) by (simp_all add: n nat_int_add flip: of_nat_mult of_nat_add)
  have k: "2 \<le> radix ?b" "0 < ?k" "m < radix ?b ^ ?k" "l < radix ?b ^ ?k"
    using base_div [of ?b] v by (simp_all add: B_def)
  note ck = digits_chunk [OF k(1) _ k(2,3)] digits_chunk [OF k(1) _ k(2,4)]
  have zero: "Uint128Low64 high \<noteq> 0 \<longleftrightarrow> h \<noteq> 0" "Uint128Low64 mid \<noteq> 0 \<longleftrightarrow> m \<noteq> 0"
    using n by (auto simp: unat_gt_0)
  have pre: "base_prefix flags x = base_prefix flags y" if "x \<noteq> 0" "y \<noteq> 0" for x y
    using that by (simp add: base_prefix_def)
  have pos: "0 < B" by (rule d)
  show ?thesis
    unfolding Uint128ToFormattedString_def Let_def 1 2 prod.case zero n v put_plain
    using pre [of h "(h * B + m) * B + l"] pre [of m "m * B + l"] pos ck
    by (auto simp: put_padded digit_string_def B_def)
qed

section \<open>Reading the digits back\<close>

definition digits_value :: "nat \<Rightarrow> nat list \<Rightarrow> nat" where
  "digits_value b ds = foldl (\<lambda>a d. a * b + d) 0 ds"

lemma digits_value_digits: "2 \<le> b \<Longrightarrow> digits_value b (digits b n) = n"
proof (induction b n rule: digits.induct)
  case (1 b n)
  then show ?case
    by (cases "n < b") (simp_all add: digits_value_def digits.simps [of b n])
qed

lemma digits_below: "2 \<le> b \<Longrightarrow> list_all (\<lambda>d. d < b) (digits b n)"
  by (induction b n rule: digits.induct) (simp add: digits.simps)

lemma digits_no_leading_zero: "2 \<le> b \<Longrightarrow> 0 < n \<Longrightarrow> digits b n \<noteq> [] \<and> 0 < hd (digits b n)"
proof (induction b n rule: digits.induct)
  case (1 b n)
  then show ?case
    by (cases "n < b") (auto simp: digits.simps [of b n] div_greater_zero_iff)
qed

lemma digit_char_not_sign: "d < 10 \<Longrightarrow> digit_char u d \<noteq> CHR ''+'' \<and> digit_char u d \<noteq> CHR ''-''"
proof -
  assume "d < 10"
  then have "of_char (digit_char u d) = 48 + d" by (simp add: digit_char_def)
  then show ?thesis by (cases "digit_char u d = CHR ''+''"; cases "digit_char u d = CHR ''-''") simp_all
qed

lemma digit_string_head:
  "radix (basefield_of flags) = 10 \<Longrightarrow> take (Suc 0) (digit_string flags n) \<noteq> ''+'' \<and> take (Suc 0) (digit_string flags n) \<noteq> ''-''"
  using digits_below [of 10 n] digit_char_not_sign [of "hd (digits 10 n)" "uppercase flags"]
  by (cases "digits 10 n") (auto simp: digit_string_def)

section \<open>Properties\<close>

text \<open>
  C38: For every value and every combination of stream flags the three-chunk printer writes the base
  prefix and then exactly the digits of the value in the selected base: every digit is below the
  base, there is no leading zero, and reading the digits back gives the value.
\<close>

theorem uint128_prints_digits:
  "let n = nat (u128_val v); b = radix (basefield_of flags); ds = digits b n in
   Uint128ToFormattedString v flags = base_prefix flags n @ map (digit_char (uppercase flags)) ds \<and>
   list_all (\<lambda>d. d < b) ds \<and> digits_value b ds = n \<and>
   (if n = 0 then ds = [0] else 0 < hd ds)"
  using base_div(2) [of "basefield_of flags"]
    digits_no_leading_zero [of "radix (basefield_of flags)" "nat (u128_val v)"]
  by (auto simp: Let_def Uint128ToFormattedString_eq digit_string_def digits_below digits_value_digits)

text \<open>
  C39: A signed 128-bit value prints in decimal as its sign followed by the digits of its absolute
  value (the smallest value included); a stream field wider than the text is filled after it, between
  sign and digits, or before it, as the adjustment flag says, so that the field width is reached.
\<close>

theorem int128_prints_decimal:
  "let ds = digit_string dec_flags (nat \<bar>i128_val v\<bar>);
       sign = (if i128_val v < 0 then ''-'' else if pos then ''+'' else []);
       fl = dec_flags\<lparr>showpos := pos\<rparr>;
       gap = replicate (width - (length sign + length ds)) fill
   in int128_ToString v = (if i128_val v < 0 then ''-'' else []) @ ds \<and>
      put_int128 (fl\<lparr>adjustfield_of := adjust_left\<rparr>) width fill v = sign @ ds @ gap \<and>
      put_int128 (fl\<lparr>adjustfield_of := adjust_internal\<rparr>) width fill v = sign @ gap @ ds \<and>
      put_int128 (fl\<lparr>adjustfield_of := adjust_right\<rparr>) width fill v = gap @ sign @ ds"
proof -
  have eq: "Uint128ToFormattedString (UnsignedAbsoluteValue v) f = digit_string dec_flags (nat \<bar>i128_val v\<bar>)"
    if "basefield_of f = base_dec" "\<not> uppercase f" for f
    using that by (simp add: Uint128ToFormattedString_eq UnsignedAbsoluteValue_val base_prefix_def
        digit_string_def dec_flags_def)
  have head: "take (Suc 0) (digit_string dec_flags n) \<noteq> ''+''" "take (Suc 0) (digit_string dec_flags n) \<noteq> ''-''" for n
    using digit_string_head [of dec_flags n] by (simp_all add: dec_flags_def radix_def)
  have sel: "basefield_of dec_flags = base_dec" "\<not> uppercase dec_flags" by (simp_all add: dec_flags_def)
  show ?thesis
    using head by (simp add: Let_def int128_ToString_def put_int128_def eq sel i128_val_neg_iff insert_fill_def)
qed

end
