(* ===== verification/Duration_Text.thy ===== *)
theory Duration_Text
  imports Duration_Convert Int128_Format
begin

text \<open>
  Durations as text (\<^verbatim>\<open>absl/time/duration.cc\<close>): \<^verbatim>\<open>ParseDuration\<close> with its number and unit scanners,
  and the printing of an integer count with its unit (\<^verbatim>\<open>Format64\<close>, \<^verbatim>\<open>AppendNumberUnit\<close>). Scanners take
  the remaining characters and return the value and what is left; \<open>None\<close> is the result \<^verbatim>\<open>false\<close>. The
  fractional branch of \<^verbatim>\<open>FormatDuration\<close> goes through \<^verbatim>\<open>double\<close> and is not modelled.
\<close>

section \<open>Scanning\<close>

definition digit_of :: "char \<Rightarrow> int" where
  "digit_of c = int (of_char c) - 48"

definition is_digit :: "char \<Rightarrow> bool" where
  "is_digit c \<longleftrightarrow> \<not> (digit_of c < 0 \<or> 10 \<le> digit_of c)"

text \<open>The integer digits: \<open>None\<close> on overflow of 64 bits.\<close>

fun consume_int :: "int \<Rightarrow> string \<Rightarrow> (int \<times> string) option" where
  "consume_int int_part [] = Some (int_part, [])"
| "consume_int int_part (c # s) =
     (if \<not> is_digit c then Some (int_part, c # s)
      else if int_part > int64_max sdiv 10 then None
      else let int_part = int_part * 10 in
        if int_part > int64_max - digit_of c then None else consume_int (int_part + digit_of c) s)"

text \<open>The digits after the point; digits beyond the precision of 64 bits are skipped.\<close>

fun consume_frac :: "int \<Rightarrow> int \<Rightarrow> string \<Rightarrow> int \<times> int \<times> string" where
  "consume_frac frac_part frac_scale [] = (frac_part, frac_scale, [])"
| "consume_frac frac_part frac_scale (c # s) =
     (if \<not> is_digit c then (frac_part, frac_scale, c # s)
      else if frac_scale \<le> int64_max sdiv 10
      then consume_frac (frac_part * 10 + digit_of c) (frac_scale * 10) s
      else consume_frac frac_part frac_scale s)"

definition ConsumeDurationNumber :: "string \<Rightarrow> (int \<times> int \<times> int \<times> string) option" where
  "ConsumeDurationNumber s =
     (case consume_int 0 s of
        None \<Rightarrow> None
      | Some (int_part, r) \<Rightarrow>
          let int_part_empty = (length r = length s) in
          case r of
            [] \<Rightarrow> if int_part_empty then None else Some (int_part, 0, 1, r)
          | c # r' \<Rightarrow>
              if c \<noteq> CHR ''.'' then if int_part_empty then None else Some (int_part, 0, 1, r)
              else
                let (frac_part, frac_scale, r'') = consume_frac 0 1 r'
                in if \<not> int_part_empty \<or> frac_scale \<noteq> 1 then Some (int_part, frac_part, frac_scale, r'')
                   else None)"

definition consume_unit1 :: "string \<Rightarrow> (Duration \<times> string) option" where
  "consume_unit1 s =
     (case s of
        [] \<Rightarrow> None
      | c # r \<Rightarrow>
          if c = CHR ''s'' then Some (Seconds 1, r)
          else if c = CHR ''m'' then Some (Minutes 1, r)
          else if c = CHR ''h'' then Some (Hours 1, r)
          else None)"

definition ConsumeDurationUnit :: "string \<Rightarrow> (Duration \<times> string) option" where
  "ConsumeDurationUnit s =
     (case s of
        [] \<Rightarrow> None
      | [c] \<Rightarrow> consume_unit1 s
      | c # c' # r \<Rightarrow>
          if c = CHR ''n'' \<and> c' = CHR ''s'' then Some (Nanoseconds 1, r)
          else if c = CHR ''u'' \<and> c' = CHR ''s'' then Some (Microseconds 1, r)
          else if c = CHR ''m'' \<and> c' = CHR ''s'' then Some (Milliseconds 1, r)
          else consume_unit1 s)"

lemma consume_int_length: "consume_int n s = Some (v, r) \<Longrightarrow> length r \<le> length s"
  by (induction n s rule: consume_int.induct) (auto simp: Let_def split: if_splits)

lemma consume_frac_length: "consume_frac p q s = (v, w, r) \<Longrightarrow> length r \<le> length s"
  by (induction p q s rule: consume_frac.induct) (auto split: if_splits)

lemma ConsumeDurationNumber_length:
  assumes "ConsumeDurationNumber s = Some (i, f, q, r)"
  shows "length r \<le> length s"
proof -
  obtain r0 where c: "consume_int 0 s = Some (i, r0)" and
    "r = r0 \<or> (\<exists>c r' p. r0 = c # r' \<and> consume_frac 0 1 r' = (f, q, r))"
    using assms unfolding ConsumeDurationNumber_def Let_def
    by (auto split: option.splits list.splits if_splits prod.splits)
  then show ?thesis using consume_int_length [OF c] by (auto dest: consume_frac_length)
qed

lemma ConsumeDurationUnit_length: "ConsumeDurationUnit s = Some (u, r) \<Longrightarrow> length r < length s"
  by (auto simp: ConsumeDurationUnit_def consume_unit1_def split: list.splits if_splits)

section \<open>Parsing\<close>

definition add_item :: "int \<Rightarrow> Duration \<Rightarrow> int \<Rightarrow> int \<Rightarrow> int \<Rightarrow> Duration \<Rightarrow> Duration" where
  "add_item sign unit int_part frac_part frac_scale dur =
     (let dur = (if int_part \<noteq> 0 then dur_add dur (dur_mul unit (sign * int_part)) else dur)
      in if frac_part \<noteq> 0
         then dur_add dur (dur_div_int (dur_mul unit (sign * frac_part)) frac_scale) else dur)"

function parse_items :: "int \<Rightarrow> string \<Rightarrow> Duration \<Rightarrow> Duration option" where
  "parse_items sign s dur =
     (if s = [] then Some dur
      else
        case ConsumeDurationNumber s of
          None \<Rightarrow> None
        | Some (int_part, frac_part, frac_scale, r) \<Rightarrow>
            (case ConsumeDurationUnit r of
               None \<Rightarrow> None
             | Some (unit, r') \<Rightarrow>
                 parse_items sign r' (add_item sign unit int_part frac_part frac_scale dur)))"
  by pat_completeness auto
termination
  by (relation "measure (\<lambda>(sign, s, dur). length s)")
    (auto dest!: ConsumeDurationNumber_length ConsumeDurationUnit_length)

declare parse_items.simps [simp del]

definition ParseDuration :: "string \<Rightarrow> Duration option" where
  "ParseDuration dur_sv =
     (let (sign, s) =
        (case dur_sv of
           [] \<Rightarrow> (1, [])
         | c # r \<Rightarrow> if c = CHR ''-'' then (- 1, r) else if c = CHR ''+'' then (1, r) else (1, dur_sv))
      in if s = [] then None
         else if s = ''0'' then Some ZeroDuration
         else if s = ''inf'' then Some (dur_mul InfiniteDuration sign)
         else parse_items sign s (MakeDuration 0 0))"

section \<open>Printing an integer count\<close>

function format64_digits :: "int \<Rightarrow> int \<Rightarrow> string \<Rightarrow> int \<times> string" where
  "format64_digits width v out =
     (let width = width - 1;
          out = char_of (nat (48 + v smod 10)) # out;
          v = v sdiv 10
      in if v \<noteq> 0 then format64_digits width v out else (width, out))"
  by pat_completeness auto
termination
  by (relation "measure (\<lambda>(width, v, out). nat \<bar>v\<bar>)") (auto simp: signed_divide_int_def abs_mult sgn_if)

declare format64_digits.simps [simp del]

definition Format64 :: "int \<Rightarrow> int \<Rightarrow> string" where
  "Format64 width v =
     (let (width, out) = format64_digits width v []
      in replicate (nat width) CHR ''0'' @ out)"

text \<open>\<^verbatim>\<open>AppendNumberUnit\<close> for an integer number: nothing for zero.\<close>

definition AppendNumberUnit :: "string \<Rightarrow> int \<Rightarrow> string \<Rightarrow> string" where
  "AppendNumberUnit out n abbr =
     (let b = Format64 0 n in if b \<noteq> ''0'' then out @ b @ abbr else out)"

section \<open>Bounds of the scanned numbers\<close>

lemma max_div_10: "int64_max sdiv 10 = 922337203685477580"
  by (simp add: signed_divide_int_def)

lemma digit_of_range: "is_digit c \<Longrightarrow> 0 \<le> digit_of c \<and> digit_of c \<le> 9"
  by (auto simp: is_digit_def)

lemma consume_int_range:
  "consume_int n s = Some (v, r) \<Longrightarrow> 0 \<le> n \<Longrightarrow> n \<le> int64_max \<Longrightarrow> 0 \<le> v \<and> v \<le> int64_max"
  by (induction n s rule: consume_int.induct) (auto simp: Let_def dest: digit_of_range split: if_splits)

text \<open>The fraction stays below its scale, and both fit into 64 bits.\<close>

lemma consume_frac_range:
  "consume_frac p q s = (v, w, r) \<Longrightarrow> 0 \<le> p \<Longrightarrow> p < q \<Longrightarrow> q \<le> int64_max \<Longrightarrow>
    0 \<le> v \<and> v < w \<and> w \<le> int64_max"
proof (induction p q s rule: consume_frac.induct)
  case (2 p q c s)
  show ?case
  proof (cases "is_digit c \<and> q \<le> int64_max sdiv 10")
    case True
    then have "p * 10 + digit_of c < q * 10" "0 \<le> p * 10 + digit_of c" "q * 10 \<le> int64_max"
      using 2(5) digit_of_range [of c] 2(4) by (auto simp: max_div_10)
    then show ?thesis using 2 True by simp
  qed (use 2 in \<open>auto split: if_splits\<close>)
qed auto

lemma ConsumeDurationNumber_range:
  assumes "ConsumeDurationNumber s = Some (i, f, q, r)"
  shows "0 \<le> i \<and> i \<le> int64_max \<and> 0 \<le> f \<and> f < q \<and> q \<le> int64_max"
proof -
  obtain r0 where c: "consume_int 0 s = Some (i, r0)" and
    "(f = 0 \<and> q = 1) \<or> (\<exists>r'. consume_frac 0 1 r' = (f, q, r))"
    using assms unfolding ConsumeDurationNumber_def Let_def
    by (auto split: option.splits list.splits if_splits prod.splits)
  then show ?thesis using consume_int_range [OF c] by (auto dest: consume_frac_range)
qed

lemma unit_duration_ok:
  assumes "ConsumeDurationUnit s = Some (u, r)"
  shows "dur_ok u"
proof -
  have "in_int64 1" by (simp add: in_int64_def)
  note Seconds_val [OF this] Minutes_val [OF this]
  then show ?thesis using assms
    by (auto simp: ConsumeDurationUnit_def consume_unit1_def split: list.splits if_splits)
qed

lemma parse_items_ok:
  "parse_items sign s dur = Some d \<Longrightarrow> \<bar>sign\<bar> = 1 \<Longrightarrow> dur_ok dur \<Longrightarrow> dur_ok d"
proof (induction sign s dur rule: parse_items.induct)
  case (1 sign s dur)
  show ?case
  proof (cases "s = []")
    case True
    with 1(2,4) show ?thesis by (simp add: parse_items.simps)
  next
    case False
    with 1(2) obtain i f q r u r' where n: "ConsumeDurationNumber s = Some (i, f, q, r)"
      and u: "ConsumeDurationUnit r = Some (u, r')"
      by (subst (asm) parse_items.simps) (auto split: option.splits)
    note b = ConsumeDurationNumber_range [OF n] and uo = unit_duration_ok [OF u]
    have s: "in_int64 (sign * i)" "in_int64 (sign * f)" "in_int64 q" "q \<noteq> 0"
      using b 1(3) by (auto simp: in_int64_def abs_if split: if_splits)
    have "dur_ok (add_item sign u i f q dur)"
      using 1(4) dur_add_val dur_mul_val [OF uo s(1)] dur_mul_val [OF uo s(2)] dur_div_int_val [OF _ s(3,4)]
      by (simp add: add_item_def Let_def)
    moreover have "parse_items sign r' (add_item sign u i f q dur) = Some d"
      using 1(2) False n u by (subst (asm) parse_items.simps) simp
    ultimately show ?thesis using 1(1) [OF False n _ _ _ u] 1(3) by auto
  qed
qed

section \<open>Printed numbers scan back\<close>

lemma digit_char_digit:
  assumes "d < 10"
  shows "is_digit (digit_char u d)" "digit_of (digit_char u d) = int d"
  using assms by (simp_all add: is_digit_def digit_of_def digit_char_def)

definition no_digit_start :: "string \<Rightarrow> bool" where
  "no_digit_start r = (case r of [] \<Rightarrow> True | c # _ \<Rightarrow> \<not> is_digit c)"

lemma foldl_digits_mono: "(a :: nat) \<le> foldl (\<lambda>a d. a * 10 + d) a ds"
proof (induction ds arbitrary: a)
  case (Cons d ds)
  have "a \<le> a * 10 + d" by simp
  also have "\<dots> \<le> foldl (\<lambda>a d. a * 10 + d) (a * 10 + d) ds" by (rule Cons.IH)
  finally show ?case by simp
qed simp

lemma consume_int_digits:
  assumes "list_all (\<lambda>d. d < 10) ds" "int (foldl (\<lambda>a d. a * 10 + d) a ds) \<le> int64_max" "no_digit_start r"
  shows "consume_int (int a) (map (digit_char u) ds @ r) = Some (int (foldl (\<lambda>a d. a * 10 + d) a ds), r)"
  using assms
proof (induction ds arbitrary: a)
  case Nil
  then show ?case by (cases r) (simp_all add: no_digit_start_def)
next
  case (Cons d ds)
  have "int (a * 10 + d) \<le> int64_max"
    using foldl_digits_mono [of "a * 10 + d" ds] Cons.prems(2) by simp
  moreover have "consume_int (int (a * 10 + d)) (map (digit_char u) ds @ r) =
      Some (int (foldl (\<lambda>a d. a * 10 + d) (a * 10 + d) ds), r)"
    by (rule Cons.IH) (use Cons.prems in simp_all)
  ultimately show ?case
    using Cons.prems(1) by (simp add: digit_char_digit max_div_10 Let_def)
qed

lemma format64_digits_eq:
  "0 \<le> v \<Longrightarrow> snd (format64_digits w v out) = map (digit_char False) (digits 10 (nat v)) @ out"
proof (induction w v out rule: format64_digits.induct)
  case (1 w v out)
  have c: "char_of (nat (48 + v smod 10)) = digit_char False (nat v mod 10)"
    using 1(2) by (simp add: sdiv_nonneg digit_char_def nat_mod_distrib nat_add_distrib)
  show ?case
  proof (cases "v < 10")
    case True
    then show ?thesis using 1(2) c by (subst format64_digits.simps) (simp add: sdiv_nonneg)
  next
    case False
    then have "v sdiv 10 \<noteq> 0" "0 \<le> v sdiv 10" "nat (v sdiv 10) = nat v div 10"
      using 1(2) by (simp_all add: sdiv_nonneg nat_div_distrib pos_imp_zdiv_nonneg_iff zdiv_eq_0_iff)
    then show ?thesis
      using False 1(2) c 1(1) [OF refl refl refl]
      by (subst format64_digits.simps) (simp add: digits.simps [of 10 "nat v"])
  qed
qed

lemma Format64_0_eq: "0 \<le> v \<Longrightarrow> Format64 0 v = map (digit_char False) (digits 10 (nat v))"
proof -
  have "fst (format64_digits w v out) < w" for w v out
    by (induction w v out rule: format64_digits.induct)
      (subst format64_digits.simps, fastforce simp: Let_def)
  then have "nat (fst (format64_digits 0 v [])) = 0" by (metis less_imp_le nat_eq_iff2 nat_le_0)
  moreover assume "0 \<le> v"
  ultimately show ?thesis
    using format64_digits_eq [of v 0 "[]"] by (simp add: Format64_def split_beta)
qed

lemma consume_int_Format64:
  assumes "0 \<le> v" "v \<le> int64_max" "no_digit_start r"
  shows "consume_int 0 (Format64 0 v @ r) = Some (v, r)"
  using consume_int_digits [OF digits_below [of 10 "nat v"], of 0 r False] assms
    digits_value_digits [of 10 "nat v"]
  by (simp add: Format64_0_eq digits_value_def)

text \<open>The unit designators.\<close>

definition unit_table :: "(string \<times> int) list" where
  "unit_table = [(''ns'', 4), (''us'', 4000), (''ms'', 4000000), (''s'', 4000000000),
     (''m'', 240000000000), (''h'', 14400000000000)]"

definition digit_start :: "string \<Rightarrow> bool" where
  "digit_start r = (case r of [] \<Rightarrow> True | c # _ \<Rightarrow> is_digit c)"

lemma unit_values:
  "dur_ok (Nanoseconds 1)" "dur_val (Nanoseconds 1) = Fin 4"
  "dur_ok (Microseconds 1)" "dur_val (Microseconds 1) = Fin 4000"
  "dur_ok (Milliseconds 1)" "dur_val (Milliseconds 1) = Fin 4000000"
  "dur_ok (Seconds 1)" "dur_val (Seconds 1) = Fin 4000000000"
  "dur_ok (Minutes 1)" "dur_val (Minutes 1) = Fin 240000000000"
  "dur_ok (Hours 1)" "dur_val (Hours 1) = Fin 14400000000000"
  using Seconds_val [of 1] Minutes_val [of 1] by (simp_all add: in_int64_def sat_def)

lemma unit_scan:
  assumes "digit_start r"
  shows "ConsumeDurationUnit (''ns'' @ r) = Some (Nanoseconds 1, r)"
    "ConsumeDurationUnit (''us'' @ r) = Some (Microseconds 1, r)"
    "ConsumeDurationUnit (''ms'' @ r) = Some (Milliseconds 1, r)"
    "ConsumeDurationUnit (''s'' @ r) = Some (Seconds 1, r)"
    "ConsumeDurationUnit (''m'' @ r) = Some (Minutes 1, r)"
    "ConsumeDurationUnit (''h'' @ r) = Some (Hours 1, r)"
proof -
  have "\<not> is_digit CHR ''s''" by (simp add: is_digit_def digit_of_def)
  then have "r = [] \<or> (\<exists>c r'. r = c # r' \<and> c \<noteq> CHR ''s'')"
    using assms by (cases r) (auto simp: digit_start_def)
  then show "ConsumeDurationUnit (''ns'' @ r) = Some (Nanoseconds 1, r)"
    "ConsumeDurationUnit (''us'' @ r) = Some (Microseconds 1, r)"
    "ConsumeDurationUnit (''ms'' @ r) = Some (Milliseconds 1, r)"
    "ConsumeDurationUnit (''s'' @ r) = Some (Seconds 1, r)"
    "ConsumeDurationUnit (''m'' @ r) = Some (Minutes 1, r)"
    "ConsumeDurationUnit (''h'' @ r) = Some (Hours 1, r)"
    by (elim disjE exE conjE; simp add: ConsumeDurationUnit_def consume_unit1_def)+
qed

lemma unit_text:
  assumes "(abbr, k) \<in> set unit_table" "digit_start r"
  obtains u where "ConsumeDurationUnit (abbr @ r) = Some (u, r)" "dur_ok u" "dur_val u = Fin k"
    "no_digit_start (abbr @ r)" "abbr \<noteq> []" "hd abbr \<noteq> CHR ''.''"
proof -
  have nd: "\<not> is_digit CHR ''n''" "\<not> is_digit CHR ''u''" "\<not> is_digit CHR ''m''" "\<not> is_digit CHR ''s''"
    "\<not> is_digit CHR ''h''" by (simp_all add: is_digit_def digit_of_def)
  consider "abbr = ''ns''" "k = 4" | "abbr = ''us''" "k = 4000" | "abbr = ''ms''" "k = 4000000"
    | "abbr = ''s''" "k = 4000000000" | "abbr = ''m''" "k = 240000000000" | "abbr = ''h''" "k = 14400000000000"
    using assms(1) unfolding unit_table_def by force
  then show thesis
    using unit_scan [OF assms(2)] unit_values nd
    by cases (rule that; simp add: no_digit_start_def)+
qed

lemma Format64_start: "0 \<le> v \<Longrightarrow> Format64 0 v \<noteq> [] \<and> is_digit (hd (Format64 0 v))"
  using digits_below [of 10 "nat v"] digit_char_digit
  by (cases "digits 10 (nat v)") (auto simp: Format64_0_eq digits.simps [of 10 "nat v"] split: if_splits)

text \<open>One printed count with its unit is one turn of the parsing loop.\<close>

lemma parse_item:
  assumes "(abbr, k) \<in> set unit_table" "0 \<le> v" "v \<le> int64_max" "digit_start r" "\<bar>sign\<bar> = 1" "dur_ok dur"
  obtains d where "parse_items sign (Format64 0 v @ abbr @ r) dur = parse_items sign r d" "dur_ok d"
    "dur_val d = (if v = 0 then dur_val dur else dval_add (dur_val dur) (sat (k * (sign * v))))"
proof -
  obtain u where u: "ConsumeDurationUnit (abbr @ r) = Some (u, r)" "dur_ok u" "dur_val u = Fin k"
    "no_digit_start (abbr @ r)" "abbr \<noteq> []" "hd abbr \<noteq> CHR ''.''"
    using unit_text [OF assms(1,4)] .
  have n: "ConsumeDurationNumber (Format64 0 v @ abbr @ r) = Some (v, 0, 1, abbr @ r)"
    using consume_int_Format64 [OF assms(2,3) u(4)] Format64_start [OF assms(2)] u(5,6)
    by (cases abbr) (auto simp: ConsumeDurationNumber_def)
  define d where "d = add_item sign u v 0 1 dur"
  have "in_int64 (sign * v)" using assms(2,3,5) by (auto simp: in_int64_def abs_if split: if_splits)
  then have "dur_ok d" "dur_val d = (if v = 0 then dur_val dur else dval_add (dur_val dur) (sat (k * (sign * v))))"
    using dur_mul_val [OF u(2)] dur_add_val [OF assms(6)] u(3) assms(6) by (auto simp: d_def add_item_def)
  moreover have "parse_items sign (Format64 0 v @ abbr @ r) dur = parse_items sign r d"
    using Format64_start [OF assms(2)] by (subst parse_items.simps) (simp add: n u(1) d_def)
  ultimately show thesis using that by blast
qed

section \<open>Texts made of printed counts\<close>

type_synonym item = "int \<times> string \<times> int"

definition item_ok :: "item \<Rightarrow> bool" where
  "item_ok it = (case it of (v, abbr, k) \<Rightarrow> 0 \<le> v \<and> v \<le> int64_max \<and> (abbr, k) \<in> set unit_table)"

fun items_text :: "item list \<Rightarrow> string" where
  "items_text [] = []"
| "items_text ((v, abbr, k) # xs) = Format64 0 v @ abbr @ items_text xs"

fun items_val :: "int \<Rightarrow> dval \<Rightarrow> item list \<Rightarrow> dval" where
  "items_val sign acc [] = acc"
| "items_val sign acc ((v, abbr, k) # xs) =
     items_val sign (if v = 0 then acc else dval_add acc (sat (k * (sign * v)))) xs"

lemma items_text_start: "list_all item_ok xs \<Longrightarrow> digit_start (items_text xs)"
proof (cases xs)
  case (Cons it ys)
  assume "list_all item_ok xs"
  then show ?thesis
    using Format64_start [of "fst it"] Cons
    by (cases it; cases "Format64 0 (fst it)") (auto simp: item_ok_def digit_start_def)
qed (simp add: digit_start_def)

lemma parse_items_text:
  assumes "list_all item_ok xs" "\<bar>sign\<bar> = 1" "dur_ok dur"
  shows "\<exists>d. parse_items sign (items_text xs) dur = Some d \<and> dur_ok d \<and> dur_val d = items_val sign (dur_val dur) xs"
  using assms(1,3)
proof (induction xs arbitrary: dur)
  case Nil
  then show ?case by (simp add: parse_items.simps)
next
  case (Cons it xs)
  obtain v abbr k where it: "it = (v, abbr, k)" by (cases it)
  have xs: "list_all item_ok xs" and "item_ok it" using Cons.prems by simp_all
  then have i: "0 \<le> v" "v \<le> int64_max" "(abbr, k) \<in> set unit_table" by (simp_all add: it item_ok_def)
  obtain d where d: "parse_items sign (Format64 0 v @ abbr @ items_text xs) dur = parse_items sign (items_text xs) d"
    "dur_ok d" "dur_val d = (if v = 0 then dur_val dur else dval_add (dur_val dur) (sat (k * (sign * v))))"
    using parse_item [OF i(3,1,2) items_text_start [OF xs] assms(2) Cons.prems(2)] .
  show ?case using Cons.IH [OF xs d(2)] d(1,3) by (simp add: it)
qed

text \<open>A text of counts is none of the special texts: it starts with a digit and is longer than one digit.\<close>

lemma items_text_plain:
  assumes "list_all item_ok xs" "xs \<noteq> []"
  shows "items_text xs \<noteq> []" "items_text xs \<noteq> ''0''" "items_text xs \<noteq> ''inf''" "is_digit (hd (items_text xs))"
proof -
  obtain v abbr k ys where xs: "xs = (v, abbr, k) # ys" using assms(2) by (cases xs) auto
  then have v: "0 \<le> v" and a: "abbr \<noteq> []" using assms(1) by (auto simp: item_ok_def unit_table_def)
  obtain c cs where f: "Format64 0 v = c # cs" "is_digit c" using Format64_start [OF v] by (cases "Format64 0 v") auto
  have "\<not> is_digit CHR ''i''" by (simp add: is_digit_def digit_of_def)
  then show "items_text xs \<noteq> []" "items_text xs \<noteq> ''0''" "items_text xs \<noteq> ''inf''" "is_digit (hd (items_text xs))"
    using f a by (auto simp: xs)
qed

section \<open>Properties\<close>

text \<open>
  C16: \<^verbatim>\<open>ParseDuration\<close> reads back what the printer of counts writes: a text of printed integer counts,
  each followed by one of the six unit designators, with an optional sign, is accepted and denotes the
  saturating sum of the counts in the order they appear.
\<close>

theorem parse_duration_counts:
  assumes "list_all item_ok xs" "xs \<noteq> []"
    and "(pre, sign) = ('''', 1) \<or> (pre, sign) = (''+'', 1) \<or> (pre, sign) = (''-'', - 1)"
  shows "\<exists>d. ParseDuration (pre @ items_text xs) = Some d \<and> dur_ok d \<and> dur_val d = items_val sign (Fin 0) xs"
proof -
  note p = items_text_plain [OF assms(1,2)]
  have nd: "\<not> is_digit CHR ''-''" "\<not> is_digit CHR ''+''" by (simp_all add: is_digit_def digit_of_def)
  obtain c cs where c: "items_text xs = c # cs" "is_digit c" using p(1,4) by (cases "items_text xs") auto
  have "ParseDuration (pre @ items_text xs) = parse_items sign (items_text xs) (MakeDuration 0 0)"
    using assms(3) p(1-3) c nd by (auto simp: ParseDuration_def)
  then show ?thesis
    using parse_items_text [OF assms(1), of sign "MakeDuration 0 0"] assms(3) dur_Make [of 0 0]
    by (auto simp: in_int64_def)
qed

theorem parse_duration_counts_witness:
  "\<exists>d. ParseDuration (''-'' @ items_text [(2, ''h'', 14400000000000), (3, ''ms'', 4000000)]) = Some d \<and>
     dur_ok d \<and> dur_val d = Fin (- 28800012000000)"
proof -
  have "list_all item_ok [(2, ''h'', 14400000000000), (3, ''ms'', 4000000)]"
    by (simp add: item_ok_def unit_table_def)
  from parse_duration_counts [OF this, of "''-''" "- 1"] show ?thesis by (simp add: sat_def)
qed

text \<open>
  C17: Whatever text \<^verbatim>\<open>ParseDuration\<close> accepts, the result is a valid duration; the scanned integer and
  fraction fit into 64 bits and the fraction stays below its scale. The parsing loop ends on every input.
\<close>

theorem parse_duration_valid:
  assumes "ParseDuration s = Some d"
  shows "dur_ok d \<and> (\<forall>t i f q r. ConsumeDurationNumber t = Some (i, f, q, r) \<longrightarrow>
    in_int64 i \<and> 0 \<le> i \<and> 0 \<le> f \<and> f < q \<and> in_int64 q)"
proof -
  have one: "in_int64 1" "in_int64 (- 1)" by (simp_all add: in_int64_def)
  have "dur_ok d"
    using assms dur_zero(1) dur_mul_val [OF dur_inf(1) one(1)] dur_mul_val [OF dur_inf(1) one(2)]
      parse_items_ok [of 1 _ "MakeDuration 0 0" d] parse_items_ok [of "- 1" _ "MakeDuration 0 0" d] dur_Make(1) [of 0 0]
    by (auto simp: ParseDuration_def in_int64_def split: list.splits if_splits)
  then show ?thesis using ConsumeDurationNumber_range by (fastforce simp: in_int64_def)
qed

theorem parse_duration_valid_witness:
  "ParseDuration ''0'' = Some ZeroDuration \<and> dur_ok ZeroDuration"
proof -
  have "ParseDuration ''0'' = Some ZeroDuration" by (simp add: ParseDuration_def)
  with parse_duration_valid [OF this] show ?thesis by blast
qed

text \<open>
  C18: A long decimal fraction of an hour overflows while it is scaled: half an hour written with sixteen
  fraction digits is accepted but parses to the infinite duration, while the same value with one digit
  parses to thirty minutes.
\<close>

theorem parse_duration_long_fraction:
  "(\<exists>d. ParseDuration ''0.5h'' = Some d \<and> dur_val d = Fin (30 * 60 * 4000000000)) \<and>
   (\<exists>d. ParseDuration ''0.5000000000000000h'' = Some d \<and> dur_val d = PosInf)"
proof -
  have scan: "ConsumeDurationNumber ''0.5h'' = Some (0, 5, 10, ''h'')"
    "ConsumeDurationNumber ''0.5000000000000000h'' = Some (0, 5000000000000000, 10000000000000000, ''h'')"
    by (simp_all add: ConsumeDurationNumber_def max_div_10 is_digit_def digit_of_def)
  have h: "ConsumeDurationUnit ''h'' = Some (Hours 1, [])" by (simp add: ConsumeDurationUnit_def consume_unit1_def)
  have z: "dur_ok (MakeDuration 0 0)" "dur_val (MakeDuration 0 0) = Fin 0" by (simp_all add: dur_Make in_int64_def)
  have item: "dur_val (add_item 1 (Hours 1) 0 f q (MakeDuration 0 0)) =
      dval_add (Fin 0) (dval_scale (sdiv) (dval_scale (*) (Fin 14400000000000) f) q)"
    if "in_int64 f" "in_int64 q" "f \<noteq> 0" "q \<noteq> 0" for f q
    using that dur_mul_val [OF unit_values(11) that(1)] dur_div_int_val [OF _ that(2,4), of "dur_mul (Hours 1) f"]
      dur_add_val [OF z(1), of "dur_div_int (dur_mul (Hours 1) f) q"] z(2) unit_values(12)
    by (simp add: add_item_def)
  have eq: "ParseDuration ''0.5h'' = Some (add_item 1 (Hours 1) 0 5 10 (MakeDuration 0 0))"
    "ParseDuration ''0.5000000000000000h'' =
      Some (add_item 1 (Hours 1) 0 5000000000000000 10000000000000000 (MakeDuration 0 0))"
    by (simp_all add: ParseDuration_def parse_items.simps scan h)
  show ?thesis unfolding eq by (simp add: item in_int64_def sat_def signed_divide_int_def)
qed

end
