(* ===== verification/Time_Zone_Fixed.thy ===== *)
theory Time_Zone_Fixed
  imports Abseil_Prelude
begin

text \<open>
  Names of the time zones with a fixed offset from UTC (\<^verbatim>\<open>cctz/src/time_zone_fixed.cc\<close>): the name
  and abbreviation of an offset in seconds, and the offset of a name. A character pointer into a
  string is the list of characters from there on.
\<close>

section \<open>Two-digit fields\<close>

definition kFixedZonePrefix :: string where
  "kFixedZonePrefix = ''Fixed/UTC''"

definition kDigits :: string where
  "kDigits = ''0123456789''"

definition Format02d :: "int \<Rightarrow> string" where
  "Format02d v = [kDigits ! nat ((v sdiv 10) smod 10), kDigits ! nat (v smod 10)]"

text \<open>The position of a character in a string, as \<^verbatim>\<open>std::strchr\<close> finds it; the terminating zero of
  \<^verbatim>\<open>kDigits\<close> counts as position 10.\<close>

fun strchr :: "string \<Rightarrow> char \<Rightarrow> nat option" where
  "strchr [] ch = (if ch = CHR 0x00 then Some 0 else None)"
| "strchr (c # s) ch = (if c = ch then Some 0 else map_option Suc (strchr s ch))"

definition ParseDigit :: "char \<Rightarrow> int" where
  "ParseDigit ch =
     (case strchr kDigits ch of None \<Rightarrow> - 1 | Some i \<Rightarrow> if i = length kDigits then - 1 else int i)"

definition Parse02d :: "string \<Rightarrow> int" where
  "Parse02d p =
     (let hi = ParseDigit (p ! 0) in
      if hi \<ge> 0 then let lo = ParseDigit (p ! 1) in if lo \<ge> 0 then hi * 10 + lo else - 1
      else - 1)"

section \<open>Names\<close>

definition FixedOffsetFromName :: "string \<Rightarrow> int option" where
  "FixedOffsetFromName name =
     (if name = ''UTC'' \<or> name = ''UTC0'' then Some 0
      else
        let prefix_len = length kFixedZonePrefix in
        if length name \<noteq> prefix_len + 9 then None
        else if take prefix_len name \<noteq> kFixedZonePrefix then None
        else
          let np = drop prefix_len name in
          if np ! 0 \<noteq> CHR ''+'' \<and> np ! 0 \<noteq> CHR ''-'' then None
          else if np ! 3 \<noteq> CHR '':'' \<or> np ! 6 \<noteq> CHR '':'' then None
          else
            let hours = Parse02d (drop 1 np) in
            if hours = - 1 then None
            else
              let mins = Parse02d (drop 4 np) in
              if mins = - 1 then None
              else
                let secs = Parse02d (drop 7 np) in
                if secs = - 1 then None
                else
                  let secs = secs + (hours * 60 + mins) * 60 in
                  if secs > 24 * 60 * 60 then None
                  else Some (secs * (if np ! 0 = CHR ''-'' then - 1 else 1)))"

definition FixedOffsetToName :: "int \<Rightarrow> string" where
  "FixedOffsetToName offset =
     (if offset = 0 then ''UTC''
      else if offset < - 24 * 3600 \<or> offset > 24 * 3600 then ''UTC''
      else
        let offset_seconds = offset;
            sign = (if offset_seconds < 0 then CHR ''-'' else CHR ''+'');
            offset_minutes = offset_seconds sdiv 60;
            offset_seconds = offset_seconds smod 60;
            (offset_seconds, offset_minutes) =
              (if sign = CHR ''-'' then
                 let (offset_seconds, offset_minutes) =
                   (if offset_seconds > 0 then (offset_seconds - 60, offset_minutes + 1)
                    else (offset_seconds, offset_minutes))
                 in (- offset_seconds, - offset_minutes)
               else (offset_seconds, offset_minutes));
            offset_hours = offset_minutes sdiv 60;
            offset_minutes = offset_minutes smod 60
        in kFixedZonePrefix @ [sign] @ Format02d offset_hours @ '':'' @ Format02d offset_minutes @ '':'' @
           Format02d offset_seconds)"

definition erase :: "nat \<Rightarrow> nat \<Rightarrow> string \<Rightarrow> string" where
  "erase pos count s = take pos s @ drop (pos + count) s"

definition FixedOffsetToAbbr :: "int \<Rightarrow> string" where
  "FixedOffsetToAbbr offset =
     (let abbr = FixedOffsetToName offset;
          prefix_len = length kFixedZonePrefix
      in if length abbr = prefix_len + 9 then
           let abbr = erase 3 1 (erase 6 1 (erase 0 prefix_len abbr)) in
           if abbr ! 5 = CHR ''0'' \<and> abbr ! 6 = CHR ''0'' then
             let abbr = erase 5 2 abbr in
             if abbr ! 3 = CHR ''0'' \<and> abbr ! 4 = CHR ''0'' then erase 3 2 abbr else abbr
           else abbr
         else abbr)"

section \<open>Two digits round trip\<close>

lemma digit_table:
  assumes "d < 10"
  shows "ParseDigit (kDigits ! d) = int d" "kDigits ! d = CHR ''0'' \<longleftrightarrow> d = 0"
  using assms by (auto simp: eval_nat_numeral less_Suc_eq ParseDigit_def kDigits_def)

lemma ParseDigit_range: "- 1 \<le> ParseDigit c \<and> ParseDigit c \<le> 9"
proof -
  have "strchr s c = Some i \<Longrightarrow> i \<le> length s" for s i
    by (induction s arbitrary: i) (auto split: if_splits)
  from this [of kDigits] show ?thesis
    by (auto simp: ParseDigit_def kDigits_def split: option.splits if_splits)
qed

lemma Format02d_eq:
  assumes "0 \<le> v" "v < 100"
  shows "Format02d v = [kDigits ! nat (v div 10), kDigits ! nat (v mod 10)]"
proof -
  have "0 \<le> v div 10" "v div 10 < 10" using assms by (simp_all add: pos_imp_zdiv_nonneg_iff)
  then show ?thesis using assms by (simp add: Format02d_def sdiv_nonneg)
qed

lemma Parse02d_Format02d:
  assumes "0 \<le> v" "v < 100"
  shows "Parse02d (Format02d v @ r) = v"
proof -
  have "nat (v div 10) < 10" "nat (v mod 10) < 10" using assms by simp_all
  then have "ParseDigit (kDigits ! nat (v div 10)) = v div 10" "ParseDigit (kDigits ! nat (v mod 10)) = v mod 10"
    using digit_table assms by (simp_all add: pos_imp_zdiv_nonneg_iff)
  then show ?thesis using assms by (simp add: Format02d_eq Parse02d_def pos_imp_zdiv_nonneg_iff)
qed

text \<open>The text of an offset of \<open>h\<close> hours, \<open>m\<close> minutes and \<open>s\<close> seconds.\<close>

definition offset_text :: "char \<Rightarrow> int \<Rightarrow> int \<Rightarrow> int \<Rightarrow> string" where
  "offset_text sign h m s =
     kFixedZonePrefix @ [sign] @ Format02d h @ '':'' @ Format02d m @ '':'' @ Format02d s"

lemma FixedOffsetFromName_text:
  assumes "sign = CHR ''+'' \<or> sign = CHR ''-''" "0 \<le> h" "h < 100" "0 \<le> m" "m < 100" "0 \<le> s" "s < 100"
    "s + (h * 60 + m) * 60 \<le> 86400"
  shows "FixedOffsetFromName (offset_text sign h m s) =
    Some ((s + (h * 60 + m) * 60) * (if sign = CHR ''-'' then - 1 else 1))"
proof -
  have len: "length (Format02d v) = 2" for v by (simp add: Format02d_def)
  obtain a b where h: "Format02d h = [a, b]" by (simp add: Format02d_def)
  obtain c d where m: "Format02d m = [c, d]" by (simp add: Format02d_def)
  obtain e f where s: "Format02d s = [e, f]" by (simp add: Format02d_def)
  have p: "Parse02d (a # b # r) = h" "Parse02d (c # d # r) = m" "Parse02d (e # f # r) = s" for r
    using Parse02d_Format02d [OF assms(2,3), of r] Parse02d_Format02d [OF assms(4,5), of r]
      Parse02d_Format02d [OF assms(6,7), of r] by (simp_all add: h m s)
  show ?thesis
    using assms p by (auto simp: FixedOffsetFromName_def offset_text_def kFixedZonePrefix_def h m s Let_def)
qed

lemma FixedOffsetToName_text:
  assumes "\<bar>off\<bar> \<le> 86400" "off \<noteq> 0"
  shows "FixedOffsetToName off = offset_text (if off < 0 then CHR ''-'' else CHR ''+'')
    (\<bar>off\<bar> div 60 div 60) (\<bar>off\<bar> div 60 mod 60) (\<bar>off\<bar> mod 60)"
proof -
  define M S where "M = \<bar>off\<bar> div 60" and "S = \<bar>off\<bar> mod 60"
  have M: "0 \<le> M" by (simp add: M_def pos_imp_zdiv_nonneg_iff)
  have "off < 0 \<Longrightarrow> off sdiv 60 = - M" "off < 0 \<Longrightarrow> off smod 60 = - S"
    "\<not> off < 0 \<Longrightarrow> off sdiv 60 = M" "\<not> off < 0 \<Longrightarrow> off smod 60 = S"
    by (simp_all add: M_def S_def trunc_simps)
  moreover have "\<not> - S > 0" by (simp add: S_def not_less)
  moreover have "\<not> off < - 86400" "\<not> 86400 < off" using assms(1) by (auto simp: abs_le_iff)
  ultimately show ?thesis
    using assms M by (simp add: FixedOffsetToName_def Let_def offset_text_def sdiv_nonneg flip: M_def S_def)
qed
lemma offset_parts:
  fixes n :: int
  assumes "0 \<le> n" "n \<le> 86400"
  shows "0 \<le> n div 60 div 60" "n div 60 div 60 < 100" "0 \<le> n div 60 mod 60" "n div 60 mod 60 < 60"
    "0 \<le> n mod 60" "n mod 60 < 60" "n mod 60 + (n div 60 div 60 * 60 + n div 60 mod 60) * 60 = n"
proof -
  have "n div 60 \<le> 1440" using zdiv_mono1 [OF assms(2), of 60] by simp
  then show "n div 60 div 60 < 100" using zdiv_mono1 [of "n div 60" 1440 60] by simp
  have "n div 60 div 60 * 60 + n div 60 mod 60 = n div 60" by (rule div_mult_mod_eq)
  then show "n mod 60 + (n div 60 div 60 * 60 + n div 60 mod 60) * 60 = n" by simp
qed (use assms in \<open>simp_all add: pos_imp_zdiv_nonneg_iff\<close>)

text \<open>The zero test on a two-digit field.\<close>

lemma Format02d_zero:
  assumes "0 \<le> v" "v < 100" "Format02d v = [a, b]"
  shows "a = CHR ''0'' \<and> b = CHR ''0'' \<longleftrightarrow> v = 0"
proof -
  have "nat (v div 10) < 10" "nat (v mod 10) < 10" using assms by simp_all
  then have "a = CHR ''0'' \<longleftrightarrow> nat (v div 10) = 0" "b = CHR ''0'' \<longleftrightarrow> nat (v mod 10) = 0"
    using assms by (auto simp: Format02d_eq digit_table(2))
  moreover have "0 \<le> v div 10" "0 \<le> v mod 10" using assms by (simp_all add: pos_imp_zdiv_nonneg_iff)
  ultimately have "a = CHR ''0'' \<and> b = CHR ''0'' \<longleftrightarrow> v div 10 = 0 \<and> v mod 10 = 0" by simp
  also have "\<dots> \<longleftrightarrow> v = 0" using div_mult_mod_eq [of v 10] by auto
  finally show ?thesis .
qed

lemma offset_sum:
  fixes n :: int
  assumes "0 \<le> n" "n \<le> 86400"
  shows "n div 60 mod 60 < 100" "n mod 60 < 100" "n = n div 60 div 60 * 3600 + n div 60 mod 60 * 60 + n mod 60"
proof -
  have *: "h * 3600 + m * 60 + s = s + (h * 60 + m) * 60" for h m s :: int by simp
  show "n div 60 mod 60 < 100" using offset_parts(4) [OF assms] by (rule less_trans) simp
  show "n mod 60 < 100" using offset_parts(6) [OF assms] by (rule less_trans) simp
  show "n = n div 60 div 60 * 3600 + n div 60 mod 60 * 60 + n mod 60"
    unfolding * by (rule offset_parts(7) [OF assms, symmetric])
qed

lemma FixedOffsetToAbbr_text:
  assumes "FixedOffsetToName off = offset_text sign h m s" "0 \<le> m" "m < 100" "0 \<le> s" "s < 100"
  shows "FixedOffsetToAbbr off = [sign] @ Format02d h @
    (if m = 0 \<and> s = 0 then [] else Format02d m @ (if s = 0 then [] else Format02d s))"
proof -
  obtain a b where h: "Format02d h = [a, b]" by (simp add: Format02d_def)
  obtain c d where m: "Format02d m = [c, d]" by (simp add: Format02d_def)
  obtain e f where s: "Format02d s = [e, f]" by (simp add: Format02d_def)
  note zm = Format02d_zero [OF assms(2,3) m] and zs = Format02d_zero [OF assms(4,5) s]
  have e: "erase 3 1 (erase 6 1 (erase 0 (length kFixedZonePrefix) (offset_text sign h m s))) = [sign, a, b, c, d, e, f]"
    by (simp add: offset_text_def kFixedZonePrefix_def h m s erase_def)
  have l: "length (offset_text sign h m s) = length kFixedZonePrefix + 9"
    by (simp add: offset_text_def h m s)
  have "FixedOffsetToAbbr off =
    (if e = CHR ''0'' \<and> f = CHR ''0'' then if c = CHR ''0'' \<and> d = CHR ''0'' then [sign, a, b] else [sign, a, b, c, d]
     else [sign, a, b, c, d, e, f])"
    unfolding FixedOffsetToAbbr_def assms(1) Let_def e l by (simp add: erase_def)
  then show ?thesis unfolding zm zs h m s by simp
qed

lemma Parse02d_nonneg: "Parse02d p \<noteq> - 1 \<Longrightarrow> 0 \<le> Parse02d p"
  by (auto simp: Parse02d_def Let_def split: if_splits)

lemma FixedOffsetFromName_range:
  assumes "FixedOffsetFromName name = Some v"
  shows "\<bar>v\<bar> \<le> 86400"
proof (cases "name = ''UTC'' \<or> name = ''UTC0''")
  case True
  then show ?thesis using assms by (simp add: FixedOffsetFromName_def)
next
  case False
  then obtain np :: string where "Parse02d (drop 7 np) \<noteq> - 1" "Parse02d (drop 1 np) \<noteq> - 1" "Parse02d (drop 4 np) \<noteq> - 1"
    "Parse02d (drop 7 np) + (Parse02d (drop 1 np) * 60 + Parse02d (drop 4 np)) * 60 \<le> 86400"
    "v = (Parse02d (drop 7 np) + (Parse02d (drop 1 np) * 60 + Parse02d (drop 4 np)) * 60) *
      (if np ! 0 = CHR ''-'' then - 1 else 1)"
    using assms unfolding FixedOffsetFromName_def if_not_P [OF False] Let_def
    by (fastforce simp: not_less simp del: drop_drop split: if_split_asm)
  moreover from this have "0 \<le> Parse02d (drop 7 np)" "0 \<le> Parse02d (drop 1 np)" "0 \<le> Parse02d (drop 4 np)"
    by (simp_all only: Parse02d_nonneg not_False_eq_True)
  ultimately show ?thesis by (simp only: abs_mult) simp
qed

section \<open>Properties\<close>

text \<open>
  C31: The name of a fixed offset of at most 24 hours either way parses back to that offset (to the
  second, also for negative offsets that are not whole minutes), larger offsets are named and parsed
  as UTC, and every name that is accepted denotes an offset of at most 24 hours.
\<close>

theorem fixed_offset_roundtrip:
  "FixedOffsetFromName (FixedOffsetToName off) = Some (if \<bar>off\<bar> \<le> 86400 then off else 0) \<and>
   (case FixedOffsetFromName name of None \<Rightarrow> True | Some v \<Rightarrow> \<bar>v\<bar> \<le> 86400)"
proof
  show "FixedOffsetFromName (FixedOffsetToName off) = Some (if \<bar>off\<bar> \<le> 86400 then off else 0)"
  proof (cases "\<bar>off\<bar> \<le> 86400 \<and> off \<noteq> 0")
    case True
    define n where "n = \<bar>off\<bar>"
    have "0 \<le> n" "n \<le> 86400" using True by (simp_all add: n_def)
    note o = offset_parts [OF this]
    have "m < 100 \<Longrightarrow> s < 100 \<Longrightarrow> s + (h * 60 + m) * 60 = n \<Longrightarrow> 0 \<le> h \<Longrightarrow> h < 100 \<Longrightarrow> 0 \<le> m \<Longrightarrow> 0 \<le> s \<Longrightarrow>
      FixedOffsetFromName (offset_text (if off < 0 then CHR ''-'' else CHR ''+'') h m s) =
        Some (n * (if off < 0 then - 1 else 1))" for h m s
      using FixedOffsetFromName_text [of "if off < 0 then CHR ''-'' else CHR ''+''" h m s] \<open>n \<le> 86400\<close>
      by (simp split: if_splits)
    from this [OF _ _ o(7,1,2,3,5)] o(4,6)
    have "FixedOffsetFromName (offset_text (if off < 0 then CHR ''-'' else CHR ''+'')
        (n div 60 div 60) (n div 60 mod 60) (n mod 60)) = Some (n * (if off < 0 then - 1 else 1))"
      by linarith
    moreover have "n * (if off < 0 then - 1 else 1) = off" by (simp add: n_def)
    moreover have "FixedOffsetToName off = offset_text (if off < 0 then CHR ''-'' else CHR ''+'')
        (n div 60 div 60) (n div 60 mod 60) (n mod 60)"
      using FixedOffsetToName_text [of off] True unfolding n_def by blast
    ultimately show ?thesis using True by (simp only: if_True)
  next
    case False
    then have "FixedOffsetToName off = ''UTC''" by (auto simp: FixedOffsetToName_def abs_if split: if_splits)
    moreover have "(if \<bar>off\<bar> \<le> 86400 then off else 0) = 0" using False by auto
    ultimately show ?thesis by (simp only: FixedOffsetFromName_def) simp
  qed
  show "case FixedOffsetFromName name of None \<Rightarrow> True | Some v \<Rightarrow> \<bar>v\<bar> \<le> 86400"
    using FixedOffsetFromName_range by (simp split: option.split)
qed

text \<open>
  The abbreviation of an offset is its sign, two-digit hours and, only as far as needed to be exact,
  minutes and seconds.
\<close>

theorem fixed_offset_abbr:
  assumes "\<bar>off\<bar> \<le> 86400" "off \<noteq> 0"
  shows "let h = \<bar>off\<bar> div 60 div 60; m = \<bar>off\<bar> div 60 mod 60; s = \<bar>off\<bar> mod 60 in
    FixedOffsetToAbbr off = [if off < 0 then CHR ''-'' else CHR ''+''] @ Format02d h @
      (if m = 0 \<and> s = 0 then [] else Format02d m @ (if s = 0 then [] else Format02d s)) \<and>
    \<bar>off\<bar> = h * 3600 + m * 60 + s"
proof -
  have n: "0 \<le> \<bar>off\<bar>" by simp
  note o = offset_parts [OF n assms(1)] and lt = offset_sum [OF n assms(1)]
  show ?thesis unfolding Let_def
    by (rule conjI [OF FixedOffsetToAbbr_text [OF FixedOffsetToName_text [OF assms] o(3) lt(1) o(5) lt(2)] lt(3)])
qed

theorem fixed_offset_abbr_witness: "FixedOffsetToAbbr (- 19800) = ''-0530''"
  using fixed_offset_abbr [of "- 19800"] by (simp add: Format02d_eq kDigits_def Let_def)

end
