(* ===== verification/Ascii.thy ===== *)
theory Ascii
  imports Abseil_Prelude
begin

text \<open>
  ASCII characters: the property and case tables of \<^verbatim>\<open>strings/ascii.cc\<close> with the predicates of
  \<^verbatim>\<open>strings/ascii.h\<close> on them, case conversion of strings, and the whitespace functions. A C++
  \<^verbatim>\<open>char\<close> is a \<^typ>\<open>char\<close>; its value as an \<^verbatim>\<open>unsigned char\<close> is \<open>uc\<close>, and \<open>chr\<close> is the cast back,
  which keeps the low eight bits.
\<close>

unbundle bit_operations_syntax

section \<open>Bytes\<close>

definition uc :: "char \<Rightarrow> int" where
  "uc c = of_char c"

definition chr :: "int \<Rightarrow> char" where
  "chr i = char_of i"

lemma uc_mod: "uc c mod 256 = uc c"
  by (simp add: uc_def)

lemma uc_nonneg [simp]: "0 \<le> uc c"
  using pos_mod_sign [of 256 "uc c"] uc_mod [of c] by linarith

lemma uc_less [simp]: "uc c < 256"
  using pos_mod_bound [of 256 "uc c"] uc_mod [of c] by linarith

lemma chr_uc [simp]: "chr (uc c) = c"
  by (simp add: chr_def uc_def)

lemma uc_chr: "uc (chr i) = i mod 256"
  by (simp add: chr_def uc_def)

lemma uc_inject [simp]: "uc c = uc d \<longleftrightarrow> c = d"
  by (metis chr_uc)

lemma nat_uc_less [simp]: "nat (uc c) < 256"
  using uc_less [of c] by linarith

text \<open>A property of every byte is checked on the 256 values.\<close>

lemma byte_all:
  assumes "list_all P [0..255]"
  shows "P (uc c)"
proof -
  have "uc c \<in> set [0..255]" using uc_less [of c] by (simp del: uc_less)
  then show ?thesis using assms by (simp only: list_all_iff)
qed

lemma byte_table:
  assumes "t = map f [0..255]"
  shows "t ! nat (uc c) = f (uc c)"
proof -
  have "uc c \<le> 255" using uc_less [of c] by linarith
  then have "[0..255 :: int] ! nat (uc c) = uc c" by (subst nth_upto) simp_all
  moreover have "nat (uc c) < length [0..255 :: int]" by simp
  ultimately show ?thesis unfolding assms by (simp only: nth_map)
qed

text \<open>
  Bytes written into a buffer at a position; None is a write outside it.
\<close>

definition buffer_write :: "nat \<Rightarrow> string \<Rightarrow> string \<Rightarrow> string option" where
  "buffer_write d w buf =
    (if d + length w \<le> length buf then Some (take d buf @ w @ drop (d + length w) buf) else None)"

section \<open>The tables\<close>

definition kPropertyBits :: "int list" where
  "kPropertyBits =
    [64, 64, 64, 64, 64, 64, 64, 64,
    64, 104, 72, 72, 72, 72, 64, 64,
    64, 64, 64, 64, 64, 64, 64, 64,
    64, 64, 64, 64, 64, 64, 64, 64,
    40, 16, 16, 16, 16, 16, 16, 16,
    16, 16, 16, 16, 16, 16, 16, 16,
    132, 132, 132, 132, 132, 132, 132, 132,
    132, 132, 16, 16, 16, 16, 16, 16,
    16, 133, 133, 133, 133, 133, 133, 5,
    5, 5, 5, 5, 5, 5, 5, 5,
    5, 5, 5, 5, 5, 5, 5, 5,
    5, 5, 5, 16, 16, 16, 16, 16,
    16, 133, 133, 133, 133, 133, 133, 5,
    5, 5, 5, 5, 5, 5, 5, 5,
    5, 5, 5, 5, 5, 5, 5, 5,
    5, 5, 5, 16, 16, 16, 16, 64] @
    replicate 128 0"

definition kToLower :: "int list" where
  "kToLower =
    [0, 1, 2, 3, 4, 5, 6, 7, 8, 9, 10, 11, 12, 13, 14, 15,
    16, 17, 18, 19, 20, 21, 22, 23, 24, 25, 26, 27, 28, 29, 30, 31,
    32, 33, 34, 35, 36, 37, 38, 39, 40, 41, 42, 43, 44, 45, 46, 47,
    48, 49, 50, 51, 52, 53, 54, 55, 56, 57, 58, 59, 60, 61, 62, 63,
    64, 97, 98, 99, 100, 101, 102, 103, 104, 105, 106, 107, 108, 109, 110, 111,
    112, 113, 114, 115, 116, 117, 118, 119, 120, 121, 122, 91, 92, 93, 94, 95,
    96, 97, 98, 99, 100, 101, 102, 103, 104, 105, 106, 107, 108, 109, 110, 111,
    112, 113, 114, 115, 116, 117, 118, 119, 120, 121, 122, 123, 124, 125, 126, 127,
    128, 129, 130, 131, 132, 133, 134, 135, 136, 137, 138, 139, 140, 141, 142, 143,
    144, 145, 146, 147, 148, 149, 150, 151, 152, 153, 154, 155, 156, 157, 158, 159,
    160, 161, 162, 163, 164, 165, 166, 167, 168, 169, 170, 171, 172, 173, 174, 175,
    176, 177, 178, 179, 180, 181, 182, 183, 184, 185, 186, 187, 188, 189, 190, 191,
    192, 193, 194, 195, 196, 197, 198, 199, 200, 201, 202, 203, 204, 205, 206, 207,
    208, 209, 210, 211, 212, 213, 214, 215, 216, 217, 218, 219, 220, 221, 222, 223,
    224, 225, 226, 227, 228, 229, 230, 231, 232, 233, 234, 235, 236, 237, 238, 239,
    240, 241, 242, 243, 244, 245, 246, 247, 248, 249, 250, 251, 252, 253, 254, 255]"

definition kToUpper :: "int list" where
  "kToUpper =
    [0, 1, 2, 3, 4, 5, 6, 7, 8, 9, 10, 11, 12, 13, 14, 15,
    16, 17, 18, 19, 20, 21, 22, 23, 24, 25, 26, 27, 28, 29, 30, 31,
    32, 33, 34, 35, 36, 37, 38, 39, 40, 41, 42, 43, 44, 45, 46, 47,
    48, 49, 50, 51, 52, 53, 54, 55, 56, 57, 58, 59, 60, 61, 62, 63,
    64, 65, 66, 67, 68, 69, 70, 71, 72, 73, 74, 75, 76, 77, 78, 79,
    80, 81, 82, 83, 84, 85, 86, 87, 88, 89, 90, 91, 92, 93, 94, 95,
    96, 65, 66, 67, 68, 69, 70, 71, 72, 73, 74, 75, 76, 77, 78, 79,
    80, 81, 82, 83, 84, 85, 86, 87, 88, 89, 90, 123, 124, 125, 126, 127,
    128, 129, 130, 131, 132, 133, 134, 135, 136, 137, 138, 139, 140, 141, 142, 143,
    144, 145, 146, 147, 148, 149, 150, 151, 152, 153, 154, 155, 156, 157, 158, 159,
    160, 161, 162, 163, 164, 165, 166, 167, 168, 169, 170, 171, 172, 173, 174, 175,
    176, 177, 178, 179, 180, 181, 182, 183, 184, 185, 186, 187, 188, 189, 190, 191,
    192, 193, 194, 195, 196, 197, 198, 199, 200, 201, 202, 203, 204, 205, 206, 207,
    208, 209, 210, 211, 212, 213, 214, 215, 216, 217, 218, 219, 220, 221, 222, 223,
    224, 225, 226, 227, 228, 229, 230, 231, 232, 233, 234, 235, 236, 237, 238, 239,
    240, 241, 242, 243, 244, 245, 246, 247, 248, 249, 250, 251, 252, 253, 254, 255]"

section \<open>Character classes\<close>

definition ascii_isalpha :: "char \<Rightarrow> bool" where
  "ascii_isalpha c = (kPropertyBits ! nat (uc c) AND 0x01 \<noteq> 0)"

definition ascii_isalnum :: "char \<Rightarrow> bool" where
  "ascii_isalnum c = (kPropertyBits ! nat (uc c) AND 0x04 \<noteq> 0)"

definition ascii_isspace :: "char \<Rightarrow> bool" where
  "ascii_isspace c = (kPropertyBits ! nat (uc c) AND 0x08 \<noteq> 0)"

definition ascii_ispunct :: "char \<Rightarrow> bool" where
  "ascii_ispunct c = (kPropertyBits ! nat (uc c) AND 0x10 \<noteq> 0)"

definition ascii_isblank :: "char \<Rightarrow> bool" where
  "ascii_isblank c = (kPropertyBits ! nat (uc c) AND 0x20 \<noteq> 0)"

definition ascii_iscntrl :: "char \<Rightarrow> bool" where
  "ascii_iscntrl c = (kPropertyBits ! nat (uc c) AND 0x40 \<noteq> 0)"

definition ascii_isxdigit :: "char \<Rightarrow> bool" where
  "ascii_isxdigit c = (kPropertyBits ! nat (uc c) AND 0x80 \<noteq> 0)"

definition ascii_isdigit :: "char \<Rightarrow> bool" where
  "ascii_isdigit c = (uc c \<ge> uc CHR ''0'' \<and> uc c \<le> uc CHR ''9'')"

definition ascii_isprint :: "char \<Rightarrow> bool" where
  "ascii_isprint c = (uc c \<ge> 32 \<and> uc c < 127)"

definition ascii_isgraph :: "char \<Rightarrow> bool" where
  "ascii_isgraph c = (uc c > 32 \<and> uc c < 127)"

definition ascii_isupper :: "char \<Rightarrow> bool" where
  "ascii_isupper c = (uc c \<ge> uc CHR ''A'' \<and> uc c \<le> uc CHR ''Z'')"

definition ascii_islower :: "char \<Rightarrow> bool" where
  "ascii_islower c = (uc c \<ge> uc CHR ''a'' \<and> uc c \<le> uc CHR ''z'')"

definition ascii_isascii :: "char \<Rightarrow> bool" where
  "ascii_isascii c = (uc c < 128)"

definition ascii_tolower :: "char \<Rightarrow> char" where
  "ascii_tolower c = chr (kToLower ! nat (uc c))"

definition ascii_toupper :: "char \<Rightarrow> char" where
  "ascii_toupper c = chr (kToUpper ! nat (uc c))"

section \<open>Case conversion of strings\<close>

text \<open>The value of an \<^verbatim>\<open>unsigned char\<close> read as a \<^verbatim>\<open>signed char\<close>.\<close>

definition signed_char :: "int \<Rightarrow> int" where
  "signed_char u = (u + 128) mod 256 - 128"

definition AsciiInAZRange :: "bool \<Rightarrow> int \<Rightarrow> bool" where
  "AsciiInAZRange ToUpper c =
    (let sub = ((if ToUpper then 97 else 65) - (- 128)) mod 256;
         threshold = - 128 + 26;
         u = (c - sub) mod 256
     in signed_char u < threshold)"

definition AsciiInAZRangeNaive :: "bool \<Rightarrow> int \<Rightarrow> bool" where
  "AsciiInAZRangeNaive ToUpper c =
    (let a = if ToUpper then 97 else 65; z = if ToUpper then 122 else 90 in a \<le> c \<and> c \<le> z)"

definition kAsciiCaseBitFlip :: int where
  "kAsciiCaseBitFlip = 97 XOR 65"

primrec AsciiStrCaseFoldImpl :: "bool \<Rightarrow> bool \<Rightarrow> string \<Rightarrow> string" where
  "AsciiStrCaseFoldImpl ToUpper Naive [] = []"
| "AsciiStrCaseFoldImpl ToUpper Naive (c # src) =
    (let v = uc c;
         v = v XOR (if (if Naive then AsciiInAZRangeNaive ToUpper v else AsciiInAZRange ToUpper v)
                    then kAsciiCaseBitFlip else 0)
     in chr v # AsciiStrCaseFoldImpl ToUpper Naive src)"

definition AsciiStrCaseFold :: "bool \<Rightarrow> string \<Rightarrow> string" where
  "AsciiStrCaseFold ToUpper src =
    (if length src < 16 then AsciiStrCaseFoldImpl ToUpper True src
     else AsciiStrCaseFoldImpl ToUpper False src)"

definition AsciiStrToLower :: "string \<Rightarrow> string" where
  "AsciiStrToLower s = AsciiStrCaseFold False s"

definition AsciiStrToUpper :: "string \<Rightarrow> string" where
  "AsciiStrToUpper s = AsciiStrCaseFold True s"

section \<open>Whitespace\<close>

definition StripLeadingAsciiWhitespace :: "string \<Rightarrow> string" where
  "StripLeadingAsciiWhitespace str = dropWhile ascii_isspace str"

text \<open>
  The reverse iterator points at the last character that is no space; \<^verbatim>\<open>rend - it\<close> is how many
  characters are left.
\<close>

definition StripTrailingAsciiWhitespace :: "string \<Rightarrow> string" where
  "StripTrailingAsciiWhitespace str = take (length (dropWhile ascii_isspace (rev str))) str"

definition StripAsciiWhitespace :: "string \<Rightarrow> string" where
  "StripAsciiWhitespace str = StripTrailingAsciiWhitespace (StripLeadingAsciiWhitespace str)"

text \<open>
  The loop of \<^verbatim>\<open>RemoveExtraAsciiWhitespace\<close>. Input and output iterator point into the same buffer:
  the stripped view is a part of the string that is being overwritten.
\<close>

function whitespace_loop :: "string \<Rightarrow> nat \<Rightarrow> nat \<Rightarrow> nat \<Rightarrow> bool \<Rightarrow> string \<times> nat" where
  "whitespace_loop str input_it input_end output_it is_ws =
    (if input_it < input_end then
       let ws = ascii_isspace (str ! input_it);
           out = if is_ws \<and> ws then output_it - 1 else output_it
       in whitespace_loop (str[out := str ! input_it]) (input_it + 1) input_end (out + 1) ws
     else (str, output_it))"
  by auto
termination by (relation "measure (\<lambda>(str, i, e, out, ws). e - i)") auto

declare whitespace_loop.simps [simp del]

definition RemoveExtraAsciiWhitespace :: "string \<Rightarrow> string" where
  "RemoveExtraAsciiWhitespace str =
    (let stripped = StripAsciiWhitespace str;
         start = length str - length (StripLeadingAsciiWhitespace str)
     in if stripped = [] then []
        else let (str', output_it) = whitespace_loop str start (start + length stripped) 0 False
             in take output_it str')"

section \<open>The tables as functions of the byte\<close>

definition property_bits_of :: "int \<Rightarrow> int" where
  "property_bits_of b =
    (if b < 32 then if b = 9 then 0x68 else if 10 \<le> b \<and> b \<le> 13 then 0x48 else 0x40
     else if b = 32 then 0x28 else if b < 48 then 0x10 else if b < 58 then 0x84
     else if b < 65 then 0x10 else if b < 71 then 0x85 else if b < 91 then 0x05
     else if b < 97 then 0x10 else if b < 103 then 0x85 else if b < 123 then 0x05
     else if b < 127 then 0x10 else if b = 127 then 0x40 else 0)"

definition lower_of :: "int \<Rightarrow> int" where
  "lower_of b = (if 65 \<le> b \<and> b \<le> 90 then b + 32 else b)"

definition upper_of :: "int \<Rightarrow> int" where
  "upper_of b = (if 97 \<le> b \<and> b \<le> 122 then b - 32 else b)"

lemma kPropertyBits_map: "kPropertyBits = map property_bits_of [0..255]"
  by code_simp

lemma kToLower_map: "kToLower = map lower_of [0..255]"
  by code_simp

lemma kToUpper_map: "kToUpper = map upper_of [0..255]"
  by code_simp

lemmas byte_tables =
  byte_table [OF kPropertyBits_map] byte_table [OF kToLower_map] byte_table [OF kToUpper_map]

lemma property_bits_bits:
  "(property_bits_of (uc c) AND 0x01 \<noteq> 0) = (65 \<le> uc c \<and> uc c \<le> 90 \<or> 97 \<le> uc c \<and> uc c \<le> 122)"
  "(property_bits_of (uc c) AND 0x04 \<noteq> 0) =
    (48 \<le> uc c \<and> uc c \<le> 57 \<or> 65 \<le> uc c \<and> uc c \<le> 90 \<or> 97 \<le> uc c \<and> uc c \<le> 122)"
  "(property_bits_of (uc c) AND 0x08 \<noteq> 0) = (9 \<le> uc c \<and> uc c \<le> 13 \<or> uc c = 32)"
  "(property_bits_of (uc c) AND 0x10 \<noteq> 0) =
    (33 \<le> uc c \<and> uc c \<le> 126 \<and> \<not> (48 \<le> uc c \<and> uc c \<le> 57 \<or> 65 \<le> uc c \<and> uc c \<le> 90 \<or> 97 \<le> uc c \<and> uc c \<le> 122))"
  "(property_bits_of (uc c) AND 0x20 \<noteq> 0) = (uc c = 9 \<or> uc c = 32)"
  "(property_bits_of (uc c) AND 0x40 \<noteq> 0) = (uc c < 32 \<or> uc c = 127)"
  "(property_bits_of (uc c) AND 0x80 \<noteq> 0) =
    (48 \<le> uc c \<and> uc c \<le> 57 \<or> 65 \<le> uc c \<and> uc c \<le> 70 \<or> 97 \<le> uc c \<and> uc c \<le> 102)"
  by (rule byte_all, code_simp)+

lemma uc_Char [simp]: "uc (Char b0 b1 b2 b3 b4 b5 b6 b7) = of_char (Char b0 b1 b2 b3 b4 b5 b6 b7)"
  by (simp only: uc_def)

lemma char_eq_uc: "c = d \<longleftrightarrow> uc c = uc d"
  by simp

lemma ascii_isspace_iff: "ascii_isspace c \<longleftrightarrow> 9 \<le> uc c \<and> uc c \<le> 13 \<or> uc c = 32"
  unfolding ascii_isspace_def byte_tables property_bits_bits by simp

lemma ascii_isxdigit_iff:
  "ascii_isxdigit c \<longleftrightarrow> 48 \<le> uc c \<and> uc c \<le> 57 \<or> 65 \<le> uc c \<and> uc c \<le> 70 \<or> 97 \<le> uc c \<and> uc c \<le> 102"
  unfolding ascii_isxdigit_def byte_tables property_bits_bits by simp

lemma uc_ascii_tolower: "uc (ascii_tolower c) = lower_of (uc c)"
  unfolding ascii_tolower_def byte_tables uc_chr
  by (rule byte_all, code_simp)

lemma uc_ascii_toupper: "uc (ascii_toupper c) = upper_of (uc c)"
  unfolding ascii_toupper_def byte_tables uc_chr
  by (rule byte_all, code_simp)

lemma ascii_tolower_chr: "ascii_tolower c = chr (lower_of (uc c))"
  by (metis chr_uc uc_ascii_tolower)

lemma ascii_toupper_chr: "ascii_toupper c = chr (upper_of (uc c))"
  by (metis chr_uc uc_ascii_toupper)

section \<open>Case folding\<close>

lemma fold_byte:
  "(uc c XOR (if AsciiInAZRangeNaive False (uc c) then kAsciiCaseBitFlip else 0)) = lower_of (uc c)"
  "(uc c XOR (if AsciiInAZRange False (uc c) then kAsciiCaseBitFlip else 0)) = lower_of (uc c)"
  "(uc c XOR (if AsciiInAZRangeNaive True (uc c) then kAsciiCaseBitFlip else 0)) = upper_of (uc c)"
  "(uc c XOR (if AsciiInAZRange True (uc c) then kAsciiCaseBitFlip else 0)) = upper_of (uc c)"
  by (rule byte_all, code_simp)+

lemma AsciiStrCaseFoldImpl_map:
  "AsciiStrCaseFoldImpl ToUpper Naive src = map (if ToUpper then ascii_toupper else ascii_tolower) src"
  by (induction src) (cases ToUpper; cases Naive; simp add: Let_def fold_byte ascii_tolower_chr ascii_toupper_chr)+

section \<open>Collapsing whitespace\<close>

text \<open>The effect on a string: of every run of spaces only the last one stays.\<close>

fun squeeze :: "string \<Rightarrow> string" where
  "squeeze (c # d # cs) = (if ascii_isspace c \<and> ascii_isspace d then squeeze (d # cs) else c # squeeze (d # cs))"
| "squeeze cs = cs"

text \<open>The same with the output so far, as the loop builds it.\<close>

fun squeeze_onto :: "string \<Rightarrow> bool \<Rightarrow> string \<Rightarrow> string" where
  "squeeze_onto out ws [] = out"
| "squeeze_onto out ws (c # cs) =
    squeeze_onto ((if ws \<and> ascii_isspace c then butlast out else out) @ [c]) (ascii_isspace c) cs"

lemma squeeze_onto_append:
  "squeeze_onto (out @ [d]) (ascii_isspace d) cs = out @ squeeze (d # cs)"
proof (induction cs arbitrary: out d)
  case (Cons c cs)
  show ?case using Cons [of out c] Cons [of "out @ [d]" c] by (cases "ascii_isspace c") simp_all
qed simp

lemma squeeze_onto_Nil: "squeeze_onto [] False cs = squeeze cs"
  using squeeze_onto_append [of "[]"] by (cases cs) simp_all

lemma whitespace_loop_squeeze:
  assumes "out \<le> i" "i \<le> e" "e \<le> length str" "ws \<longrightarrow> 0 < out"
  shows "case whitespace_loop str i e out ws of (str', out') \<Rightarrow>
    take out' str' = squeeze_onto (take out str) ws (take (e - i) (drop i str))"
  using assms
proof (induction str i e out ws rule: whitespace_loop.induct)
  case (1 str i e out ws)
  show ?case
  proof (cases "i < e")
    case True
    define ws' where "ws' = ascii_isspace (str ! i)"
    define out' where "out' = (if ws \<and> ws' then out - 1 else out)"
    have le: "out' \<le> i" "out' < length str" "i < length str" using 1(2-4) True by (auto simp: out'_def)
    have next_part: "take (e - i) (drop i str) = str ! i # take (e - (i + 1)) (drop (i + 1) str)"
      using True le by (simp add: Cons_nth_drop_Suc [symmetric] take_Cons' Suc_diff_Suc)
    have "take (out' + 1) (str[out' := str ! i]) =
        (if ws \<and> ws' then butlast (take out str) else take out str) @ [str ! i]"
      using le 1(2-5) by (auto simp: out'_def take_Suc_conv_app_nth butlast_take)
    moreover have "drop (i + 1) (str[out' := str ! i]) = drop (i + 1) str" using le by simp
    ultimately show ?thesis
      using 1(1) [OF True ws'_def out'_def] 1(2-5) le True next_part
      by (subst whitespace_loop.simps) (simp add: Let_def ws'_def [symmetric] out'_def [symmetric])
  next
    case False
    then show ?thesis by (subst whitespace_loop.simps) simp
  qed
qed

lemma StripTrailing_rev: "StripTrailingAsciiWhitespace s = rev (dropWhile ascii_isspace (rev s))"
proof -
  have "rev s = takeWhile ascii_isspace (rev s) @ dropWhile ascii_isspace (rev s)" by simp
  then have "s = rev (dropWhile ascii_isspace (rev s)) @ rev (takeWhile ascii_isspace (rev s))"
    by (metis rev_append rev_rev_ident)
  then show ?thesis unfolding StripTrailingAsciiWhitespace_def by (metis append_eq_conv_conj length_rev)
qed

lemma stripped_part:
  "take (length (StripAsciiWhitespace s)) (drop (length s - length (StripLeadingAsciiWhitespace s)) s) = StripAsciiWhitespace s"
proof -
  define t where "t = StripLeadingAsciiWhitespace s"
  have "drop (length s - length t) s = t"
    unfolding t_def StripLeadingAsciiWhitespace_def
    by (metis append_eq_conv_conj length_append add_diff_cancel_right' takeWhile_dropWhile_id)
  then show ?thesis
    by (simp add: StripAsciiWhitespace_def StripTrailingAsciiWhitespace_def min_def flip: t_def)
qed

lemma RemoveExtraAsciiWhitespace_squeeze: "RemoveExtraAsciiWhitespace s = squeeze (StripAsciiWhitespace s)"
proof (cases "StripAsciiWhitespace s = []")
  case False
  define start where "start = length s - length (StripLeadingAsciiWhitespace s)"
  have l: "start + length (StripAsciiWhitespace s) \<le> length s"
    using arg_cong [OF stripped_part [of s], of length] False by (simp add: start_def min_def split: if_splits)
  have "case whitespace_loop s start (start + length (StripAsciiWhitespace s)) 0 False of (str', out') \<Rightarrow>
      take out' str' = squeeze (StripAsciiWhitespace s)"
    using whitespace_loop_squeeze [of 0 start "start + length (StripAsciiWhitespace s)" s False] l
      stripped_part [of s, folded start_def]
    by (simp add: squeeze_onto_Nil)
  then show ?thesis using False
    by (simp add: RemoveExtraAsciiWhitespace_def Let_def split_beta flip: start_def)
qed (simp add: RemoveExtraAsciiWhitespace_def)

text \<open>The words of a string: its maximal runs of characters that are no spaces.\<close>

fun segments :: "string \<Rightarrow> string list" where
  "segments [] = [[]]"
| "segments (c # cs) =
    (if ascii_isspace c then [] # segments cs else (c # hd (segments cs)) # tl (segments cs))"

definition words_of :: "string \<Rightarrow> string list" where
  "words_of s = filter (\<lambda>w. w \<noteq> []) (segments s)"

lemma segments_not_Nil [simp]: "segments s \<noteq> []"
  by (cases s) auto

lemma segments_snoc: "ascii_isspace c \<Longrightarrow> segments (s @ [c]) = segments s @ [[]]"
  by (induction s) auto

lemma words_of_split: "words_of s = (if hd (segments s) = [] then [] else [hd (segments s)]) @ filter (\<lambda>w. w \<noteq> []) (tl (segments s))"
  unfolding words_of_def by (cases "segments s") (use segments_not_Nil [of s] in auto)

lemma segments_squeeze:
  "hd (segments (squeeze s)) = hd (segments s) \<and>
   filter (\<lambda>w. w \<noteq> []) (tl (segments (squeeze s))) = filter (\<lambda>w. w \<noteq> []) (tl (segments s))"
proof (induction s rule: squeeze.induct)
  case (1 c d cs)
  then show ?case using words_of_split [unfolded words_of_def] by (auto split: if_splits)
qed auto

lemma words_of_squeeze: "words_of (squeeze s) = words_of s"
  using segments_squeeze [of s] by (simp add: words_of_split)

lemma words_of_spaces: "\<forall>c \<in> set sp. ascii_isspace c \<Longrightarrow> words_of (s @ sp) = words_of s"
  by (induction sp rule: rev_induct) (simp_all add: words_of_def segments_snoc flip: append_assoc)

lemma words_of_leading: "words_of (dropWhile ascii_isspace s) = words_of s"
  by (induction s) (simp_all add: words_of_def)

lemma words_of_strip: "words_of (StripAsciiWhitespace s) = words_of s"
proof -
  define t where "t = StripLeadingAsciiWhitespace s"
  have "rev t = takeWhile ascii_isspace (rev t) @ dropWhile ascii_isspace (rev t)" by simp
  then have "t = rev (dropWhile ascii_isspace (rev t)) @ rev (takeWhile ascii_isspace (rev t))"
    by (metis rev_append rev_rev_ident)
  then have "words_of t = words_of (rev (dropWhile ascii_isspace (rev t)))"
    using words_of_spaces [of "rev (takeWhile ascii_isspace (rev t))"] by (metis set_rev set_takeWhileD)
  moreover have "words_of t = words_of s"
    by (simp add: t_def StripLeadingAsciiWhitespace_def words_of_leading)
  ultimately show ?thesis by (simp add: StripAsciiWhitespace_def StripTrailing_rev flip: t_def)
qed

lemma squeeze_successive: "successively (\<lambda>c d. \<not> (ascii_isspace c \<and> ascii_isspace d)) (squeeze s)"
proof (induction s rule: squeeze.induct)
  case (1 c d cs)
  have "squeeze (d # cs) \<noteq> [] \<and> (ascii_isspace (hd (squeeze (d # cs))) \<longrightarrow> ascii_isspace d)" for d cs
    by (induction "d # cs" arbitrary: d cs rule: squeeze.induct) auto
  from this [of d cs] show ?case using 1 by (cases "squeeze (d # cs)") (auto simp: successively_Cons)
qed auto

lemma squeeze_ends: "s \<noteq> [] \<Longrightarrow> squeeze s \<noteq> [] \<and> last (squeeze s) = last s \<and> (\<not> ascii_isspace (hd s) \<longrightarrow> hd (squeeze s) = hd s)"
  by (induction s rule: squeeze.induct) auto

lemma strip_ends:
  "StripAsciiWhitespace s = [] \<or>
   \<not> ascii_isspace (hd (StripAsciiWhitespace s)) \<and> \<not> ascii_isspace (last (StripAsciiWhitespace s))"
proof -
  define t where "t = StripLeadingAsciiWhitespace s"
  have hd: "t = [] \<or> \<not> ascii_isspace (hd t)"
    unfolding t_def StripLeadingAsciiWhitespace_def by (metis hd_dropWhile)
  define u where "u = dropWhile ascii_isspace (rev t)"
  have eq: "StripAsciiWhitespace s = rev u"
    by (simp add: StripAsciiWhitespace_def StripTrailing_rev u_def flip: t_def)
  have "u = [] \<or> \<not> ascii_isspace (hd u)" unfolding u_def by (metis hd_dropWhile)
  moreover have "u = [] \<or> last u = hd t"
    unfolding u_def by (metis last_append last_rev takeWhile_dropWhile_id)
  moreover have "u = [] \<or> t \<noteq> []" by (auto simp: u_def)
  ultimately show ?thesis using hd by (auto simp: eq hd_rev last_rev)
qed

section \<open>Properties\<close>

lemma ascii_isspace_set:
  "ascii_isspace c = (c \<in> set [CHR 0x09, CHR 0x0A, CHR 0x0B, CHR 0x0C, CHR 0x0D, CHR '' ''])"
  unfolding ascii_isspace_iff by (simp add: char_eq_uc del: uc_inject) arith

text \<open>
  The bits of the property table are the character classes: letters, letters and digits, white
  space, punctuation (the graphic characters that are no letters or digits), blanks, control characters
  and hexadecimal digits, for all 256 byte values.
\<close>

theorem ascii_classes:
  "ascii_isalpha c = (ascii_isupper c \<or> ascii_islower c) \<and>
   ascii_isalnum c = (ascii_isalpha c \<or> ascii_isdigit c) \<and>
   ascii_isspace c = (c \<in> set [CHR 0x09, CHR 0x0A, CHR 0x0B, CHR 0x0C, CHR 0x0D, CHR '' '']) \<and>
   ascii_ispunct c = (ascii_isgraph c \<and> \<not> ascii_isalnum c) \<and>
   ascii_isblank c = (c = CHR 0x09 \<or> c = CHR '' '') \<and>
   ascii_iscntrl c = (ascii_isascii c \<and> \<not> ascii_isprint c) \<and>
   ascii_isxdigit c = (c \<in> set ''0123456789ABCDEFabcdef'')"
proof (intro conjI)
  show "ascii_isspace c = (c \<in> set [CHR 0x09, CHR 0x0A, CHR 0x0B, CHR 0x0C, CHR 0x0D, CHR '' ''])"
    by (rule ascii_isspace_set)
  show "ascii_isxdigit c = (c \<in> set ''0123456789ABCDEFabcdef'')"
    unfolding ascii_isxdigit_iff by (simp add: char_eq_uc del: uc_inject) arith
  show "ascii_isblank c = (c = CHR 0x09 \<or> c = CHR '' '')"
    unfolding ascii_isblank_def byte_tables property_bits_bits by (simp add: char_eq_uc del: uc_inject)
qed (unfold ascii_isalpha_def ascii_isalnum_def ascii_ispunct_def ascii_iscntrl_def byte_tables property_bits_bits
  ascii_isupper_def ascii_islower_def ascii_isdigit_def ascii_isgraph_def ascii_isprint_def ascii_isascii_def, auto)

text \<open>
  Both implementations of case conversion (the one for short strings and the branch-free one for
  long strings) agree with the character tables, which change exactly the letters of the other case
  and by the distance of the two alphabets.
\<close>

theorem ascii_case_conversion:
  "AsciiStrToLower s = map ascii_tolower s \<and> AsciiStrToUpper s = map ascii_toupper s \<and>
   uc (ascii_tolower c) = (if ascii_isupper c then uc c + 32 else uc c) \<and>
   uc (ascii_toupper c) = (if ascii_islower c then uc c - 32 else uc c)"
  by (simp add: AsciiStrToLower_def AsciiStrToUpper_def AsciiStrCaseFold_def AsciiStrCaseFoldImpl_map
      uc_ascii_tolower uc_ascii_toupper lower_of_def upper_of_def ascii_isupper_def ascii_islower_def)

text \<open>
  C29: Overwriting the string in place, RemoveExtraAsciiWhitespace leaves the words of the string, in
  order, with one whitespace character between neighbours, and neither the first nor the last character of the result is
  whitespace. Whitespace is a tab, a newline, a vertical tab, a form feed, a carriage return or a space.
\<close>

theorem remove_extra_whitespace:
  "let r = RemoveExtraAsciiWhitespace s in
    words_of r = words_of s \<and>
    successively (\<lambda>c d. \<not> (ascii_isspace c \<and> ascii_isspace d)) r \<and>
    (r = [] \<or> \<not> ascii_isspace (hd r) \<and> \<not> ascii_isspace (last r)) \<and>
    ascii_isspace c = (c \<in> set [CHR 0x09, CHR 0x0A, CHR 0x0B, CHR 0x0C, CHR 0x0D, CHR '' ''])"
proof -
  define t where "t = StripAsciiWhitespace s"
  have "squeeze t = [] \<or> \<not> ascii_isspace (hd (squeeze t)) \<and> \<not> ascii_isspace (last (squeeze t))"
    using strip_ends [of s] squeeze_ends [of t] unfolding t_def [symmetric] by (cases "t = []") auto
  then show ?thesis
    unfolding Let_def RemoveExtraAsciiWhitespace_squeeze t_def [symmetric]
    using squeeze_successive [of t] words_of_strip [of s] ascii_isspace_set [of c]
    by (simp only: words_of_squeeze t_def simp_thms)
qed

theorem remove_extra_whitespace_witness:
  "words_of (RemoveExtraAsciiWhitespace '' a  b '') = [''a'', ''b''] \<and>
   \<not> ascii_isspace (last (''x'' @ RemoveExtraAsciiWhitespace '' a  b ''))"
proof -
  have "words_of '' a  b '' = [''a'', ''b'']"
    by (simp add: words_of_def ascii_isspace_set)
  with remove_extra_whitespace [of "'' a  b ''" "CHR ''x''"] show ?thesis
    by (auto simp: Let_def last_append ascii_isspace_set [of "CHR ''x''"])
qed

end
