(* ===== verification/Char_Set.thy ===== *)
theory Char_Set
  imports Ascii
begin

text \<open>
  The character sets of \<^verbatim>\<open>strings/charset.h\<close>: 256 bits in four 64-bit words, with the set operations
  word by word and ranges built from masks. The abstraction is the set of the characters that
  \<^verbatim>\<open>contains\<close> accepts.
\<close>

section \<open>The class\<close>

datatype CharSet = CharSet (m: "64 word list")

definition CharSet_empty :: CharSet where
  "CharSet_empty = CharSet [0, 0, 0, 0]"

text \<open>The byte value as an array index.\<close>

abbreviation ix :: "char \<Rightarrow> nat" where
  "ix c \<equiv> nat (uc c)"

definition SetChar :: "char \<Rightarrow> CharSet \<Rightarrow> CharSet" where
  "SetChar c s = CharSet ((m s)[ix c div 64 := m s ! (ix c div 64) OR push_bit (ix c mod 64) 1])"

definition CharSet_of_string :: "string \<Rightarrow> CharSet" where
  "CharSet_of_string str = fold SetChar str CharSet_empty"

definition contains :: "CharSet \<Rightarrow> char \<Rightarrow> bool" where
  "contains s c = (drop_bit (ix c mod 64) (m s ! (ix c div 64)) AND 0x1 = 0x1)"

primrec all_zero :: "64 word list \<Rightarrow> bool" where
  "all_zero [] = True"
| "all_zero (c # ws) = (if c \<noteq> 0 then False else all_zero ws)"

definition CharSet_is_empty :: "CharSet \<Rightarrow> bool" where
  "CharSet_is_empty s = all_zero (m s)"

definition CharMaskForWord :: "char \<Rightarrow> nat \<Rightarrow> 64 word" where
  "CharMaskForWord x w = (if ix x div 64 = w then push_bit (ix x mod 64) 1 else 0)"

definition OpenRangeFromZeroForWord :: "nat \<Rightarrow> nat \<Rightarrow> 64 word" where
  "OpenRangeFromZeroForWord upper w =
    (if upper \<le> 64 * w then 0
     else if upper \<ge> 64 * (w + 1) then NOT 0
     else drop_bit (64 - upper mod 64) (NOT 0))"

definition RangeForWord :: "char \<Rightarrow> char \<Rightarrow> nat \<Rightarrow> 64 word" where
  "RangeForWord lo hi w = OpenRangeFromZeroForWord (ix hi + 1) w AND NOT (OpenRangeFromZeroForWord (ix lo) w)"

definition Char_single :: "char \<Rightarrow> CharSet" where
  "Char_single x = CharSet [CharMaskForWord x 0, CharMaskForWord x 1, CharMaskForWord x 2, CharMaskForWord x 3]"

definition Range :: "char \<Rightarrow> char \<Rightarrow> CharSet" where
  "Range lo hi = CharSet [RangeForWord lo hi 0, RangeForWord lo hi 1, RangeForWord lo hi 2, RangeForWord lo hi 3]"

definition CharSet_and :: "CharSet \<Rightarrow> CharSet \<Rightarrow> CharSet" where
  "CharSet_and a b = CharSet [m a ! 0 AND m b ! 0, m a ! 1 AND m b ! 1, m a ! 2 AND m b ! 2, m a ! 3 AND m b ! 3]"

definition CharSet_or :: "CharSet \<Rightarrow> CharSet \<Rightarrow> CharSet" where
  "CharSet_or a b = CharSet [m a ! 0 OR m b ! 0, m a ! 1 OR m b ! 1, m a ! 2 OR m b ! 2, m a ! 3 OR m b ! 3]"

definition CharSet_not :: "CharSet \<Rightarrow> CharSet" where
  "CharSet_not a = CharSet [NOT (m a ! 0), NOT (m a ! 1), NOT (m a ! 2), NOT (m a ! 3)]"

definition AsciiUppercase :: CharSet where
  "AsciiUppercase = Range CHR ''A'' CHR ''Z''"

definition AsciiLowercase :: CharSet where
  "AsciiLowercase = Range CHR ''a'' CHR ''z''"

definition AsciiDigits :: CharSet where
  "AsciiDigits = Range CHR ''0'' CHR ''9''"

definition AsciiAlphabet :: CharSet where
  "AsciiAlphabet = CharSet_or AsciiLowercase AsciiUppercase"

definition AsciiAlphanumerics :: CharSet where
  "AsciiAlphanumerics = CharSet_or AsciiDigits AsciiAlphabet"

definition AsciiHexDigits :: CharSet where
  "AsciiHexDigits = CharSet_or (CharSet_or AsciiDigits (Range CHR ''A'' CHR ''F'')) (Range CHR ''a'' CHR ''f'')"

definition AsciiPrintable :: CharSet where
  "AsciiPrintable = Range CHR 0x20 CHR 0x7E"

definition AsciiWhitespace :: CharSet where
  "AsciiWhitespace = CharSet_of_string [CHR 0x09, CHR 0x0A, CHR 0x0B, CHR 0x0C, CHR 0x0D, CHR '' '']"

definition AsciiPunctuation :: CharSet where
  "AsciiPunctuation = CharSet_and (CharSet_and AsciiPrintable (CharSet_not AsciiWhitespace)) (CharSet_not AsciiAlphanumerics)"

section \<open>Abstraction to sets\<close>

definition charset_ok :: "CharSet \<Rightarrow> bool" where
  "charset_ok s \<longleftrightarrow> length (m s) = 4"

definition chars_of :: "CharSet \<Rightarrow> char set" where
  "chars_of s = {c. contains s c}"

lemma contains_bit: "contains s c = bit (m s ! (ix c div 64)) (ix c mod 64)"
  unfolding contains_def and_one_eq bit_iff_odd_drop_bit by (simp add: odd_iff_mod_2_eq_one)

lemma ix_div: "ix c div 64 < 4"
  using nat_uc_less [of c] by (simp only: div_less_iff_less_mult zero_less_numeral mult.commute)

lemma less_4_cases:
  assumes "w < 4" "P 0" "P 1" "P 2" "P (3::nat)"
  shows "P w"
  using assms by (auto simp: numeral_eq_Suc less_Suc_eq)

lemmas word_cases = less_4_cases [OF ix_div]

lemma ix_inject: "ix c div 64 = ix d div 64 \<and> ix c mod 64 = ix d mod 64 \<longleftrightarrow> c = d"
proof
  assume "ix c div 64 = ix d div 64 \<and> ix c mod 64 = ix d mod 64"
  then have "ix c = ix d" using div_mult_mod_eq [of "ix c" 64] div_mult_mod_eq [of "ix d" 64] by argo
  then show "c = d" by (simp only: eq_nat_nat_iff uc_nonneg uc_inject)
qed simp

lemma bit_OpenRange:
  assumes "k < 64"
  shows "bit (OpenRangeFromZeroForWord upper w) k \<longleftrightarrow> 64 * w + k < upper"
proof -
  consider "upper \<le> 64 * w" | "upper \<ge> 64 * (w + 1)" | "64 * w < upper" "upper < 64 * w + 64"
    by fastforce
  then show ?thesis
  proof cases
    case 3
    define r where "r = upper - 64 * w"
    have r: "0 < r" "r < 64" "upper = 64 * w + r" using 3 by (auto simp: r_def)
    have "bit (drop_bit (64 - r) (- 1 :: 64 word)) k \<longleftrightarrow> k < r"
      using r(1,2) by (simp add: bit_mask_iff possible_bit_word) linarith
    moreover have "(64 * w + r) mod 64 = r" using r(2) by simp
    ultimately show ?thesis using r by (simp add: OpenRangeFromZeroForWord_def)
  qed (use assms in \<open>auto simp: OpenRangeFromZeroForWord_def\<close>)
qed

lemma bit_RangeForWord:
  "bit (RangeForWord lo hi (ix c div 64)) (ix c mod 64) \<longleftrightarrow> uc lo \<le> uc c \<and> uc c \<le> uc hi"
proof -
  have "bit (RangeForWord lo hi (ix c div 64)) (ix c mod 64) \<longleftrightarrow> ix c < ix hi + 1 \<and> \<not> ix c < ix lo"
    unfolding RangeForWord_def bit_and_iff bit_not_iff_eq
      bit_OpenRange [OF mod_less_divisor [OF zero_less_numeral]] mult_div_mod_eq
    by (simp add: possible_bit_word not_le)
  then show ?thesis using uc_nonneg [of c] uc_nonneg [of hi] uc_nonneg [of lo] by linarith
qed

text \<open>What each constructor contains; the words of the array are read at a variable index.\<close>

lemma contains_Range: "contains (Range lo hi) c \<longleftrightarrow> uc lo \<le> uc c \<and> uc c \<le> uc hi"
proof -
  have "m (Range lo hi) ! w = RangeForWord lo hi w" if "w < 4" for w
    using that by (auto simp: Range_def numeral_eq_Suc less_Suc_eq)
  then show ?thesis by (simp only: contains_bit ix_div bit_RangeForWord)
qed

lemma contains_Char: "contains (Char_single x) c \<longleftrightarrow> c = x"
proof -
  have "m (Char_single x) ! w = CharMaskForWord x w" if "w < 4" for w
    using that by (auto simp: Char_single_def numeral_eq_Suc less_Suc_eq)
  then have "contains (Char_single x) c \<longleftrightarrow> bit (CharMaskForWord x (ix c div 64)) (ix c mod 64)"
    by (simp only: contains_bit ix_div)
  also have "\<dots> \<longleftrightarrow> ix c div 64 = ix x div 64 \<and> ix c mod 64 = ix x mod 64"
    by (auto simp: CharMaskForWord_def bit_simps)
  finally show ?thesis by (simp only: ix_inject)
qed

lemma contains_SetChar:
  assumes "charset_ok s"
  shows "charset_ok (SetChar x s)" "contains (SetChar x s) c \<longleftrightarrow> contains s c \<or> c = x"
proof -
  show "charset_ok (SetChar x s)" using assms by (simp add: charset_ok_def SetChar_def)
  have "contains (SetChar x s) c \<longleftrightarrow> contains s c \<or> ix c div 64 = ix x div 64 \<and> ix c mod 64 = ix x mod 64"
    using assms ix_div [of x] by (auto simp: contains_bit SetChar_def nth_list_update charset_ok_def bit_simps)
  then show "contains (SetChar x s) c \<longleftrightarrow> contains s c \<or> c = x" by (simp only: ix_inject)
qed

lemma contains_fold_SetChar:
  "charset_ok s \<Longrightarrow> charset_ok (fold SetChar str s) \<and> (contains (fold SetChar str s) c \<longleftrightarrow> contains s c \<or> c \<in> set str)"
  by (induction str arbitrary: s) (auto simp: contains_SetChar)

lemma charset_ok_empty: "charset_ok CharSet_empty" "contains CharSet_empty c = False"
proof -
  show "charset_ok CharSet_empty" by (simp add: charset_ok_def CharSet_empty_def)
  show "contains CharSet_empty c = False"
    unfolding contains_bit by (rule word_cases) (simp_all add: CharSet_empty_def)
qed

lemma contains_of_string: "contains (CharSet_of_string str) c \<longleftrightarrow> c \<in> set str"
  using contains_fold_SetChar [OF charset_ok_empty(1)] charset_ok_empty(2)
  by (simp add: CharSet_of_string_def)

lemma contains_and: "contains (CharSet_and a b) c \<longleftrightarrow> contains a c \<and> contains b c"
proof -
  have "m (CharSet_and a b) ! w = m a ! w AND m b ! w" if "w < 4" for w
    using that by (auto simp: CharSet_and_def numeral_eq_Suc less_Suc_eq)
  then show ?thesis by (simp add: contains_bit ix_div bit_and_iff)
qed

lemma contains_or: "contains (CharSet_or a b) c \<longleftrightarrow> contains a c \<or> contains b c"
proof -
  have "m (CharSet_or a b) ! w = m a ! w OR m b ! w" if "w < 4" for w
    using that by (auto simp: CharSet_or_def numeral_eq_Suc less_Suc_eq)
  then show ?thesis by (simp add: contains_bit ix_div bit_or_iff)
qed

lemma contains_not: "contains (CharSet_not a) c \<longleftrightarrow> \<not> contains a c"
proof -
  have "m (CharSet_not a) ! w = NOT (m a ! w)" if "w < 4" for w
    using that by (auto simp: CharSet_not_def numeral_eq_Suc less_Suc_eq)
  then show ?thesis by (simp add: contains_bit ix_div bit_not_iff)
qed

lemmas contains_simps = contains_Range contains_Char contains_of_string contains_and contains_or contains_not

lemma all_zero_iff: "all_zero ws \<longleftrightarrow> (\<forall>w \<in> set ws. w = 0)"
  by (induction ws) auto

lemma CharSet_is_empty_iff:
  assumes "charset_ok s"
  shows "CharSet_is_empty s \<longleftrightarrow> chars_of s = {}"
proof
  assume "CharSet_is_empty s"
  then have "m s ! (ix c div 64) = 0" for c
    using assms ix_div [of c] by (simp add: CharSet_is_empty_def all_zero_iff charset_ok_def)
  then show "chars_of s = {}" by (simp add: chars_of_def contains_bit)
next
  assume e: "chars_of s = {}"
  have "m s ! w = 0" if w: "w < 4" for w
  proof (rule bit_eqI)
    fix n assume n: "possible_bit TYPE(64 word) n"
    then have lt: "64 * w + n < 256" "n < 64" using w by (auto simp: possible_bit_word)
    define c where "c = chr (int (64 * w + n))"
    have "ix c = 64 * w + n" using lt by (simp only: c_def uc_chr) (simp add: nat_mod_distrib)
    then have "ix c div 64 = w" "ix c mod 64 = n" using lt by simp_all
    moreover have "\<not> contains s c" using e by (auto simp: chars_of_def)
    ultimately show "bit (m s ! w) n = bit 0 n" by (simp add: contains_bit)
  qed
  then show "CharSet_is_empty s"
    using assms by (auto simp: CharSet_is_empty_def all_zero_iff charset_ok_def in_set_conv_nth)
qed

section \<open>Properties\<close>

text \<open>
  C30: Character sets refine sets of characters: the constructors (from a string, of one character, of
  a closed range) and the operators denote the set operations, and all nine named sets are the character classes of
  \<^verbatim>\<open>ascii.h\<close> and the property table in \<^verbatim>\<open>ascii.cc\<close>.
\<close>

theorem charset_refines_sets:
  "chars_of CharSet_empty = {} \<and> chars_of (CharSet_of_string str) = set str \<and> chars_of (Char_single x) = {x} \<and>
   chars_of (Range lo hi) = {c. uc lo \<le> uc c \<and> uc c \<le> uc hi} \<and>
   chars_of (CharSet_and a b) = chars_of a \<inter> chars_of b \<and>
   chars_of (CharSet_or a b) = chars_of a \<union> chars_of b \<and> chars_of (CharSet_not a) = - chars_of a \<and>
   chars_of AsciiUppercase = Collect ascii_isupper \<and> chars_of AsciiLowercase = Collect ascii_islower \<and>
   chars_of AsciiDigits = Collect ascii_isdigit \<and> chars_of AsciiAlphabet = Collect ascii_isalpha \<and>
   chars_of AsciiAlphanumerics = Collect ascii_isalnum \<and> chars_of AsciiHexDigits = Collect ascii_isxdigit \<and>
   chars_of AsciiWhitespace = Collect ascii_isspace \<and> chars_of AsciiPrintable = Collect ascii_isprint \<and>
   chars_of AsciiPunctuation = Collect ascii_ispunct \<and> CharSet_is_empty (CharSet_of_string str) = (str = [])"
proof -
  have "charset_ok (CharSet_of_string str)"
    using contains_fold_SetChar [OF charset_ok_empty(1)] by (simp add: CharSet_of_string_def)
  note empty = CharSet_is_empty_iff [OF this]
  have parts: "contains AsciiUppercase c = ascii_isupper c" "contains AsciiLowercase c = ascii_islower c"
    "contains AsciiDigits c = ascii_isdigit c" for c
    unfolding AsciiDigits_def AsciiUppercase_def AsciiLowercase_def contains_simps
      ascii_isupper_def ascii_islower_def ascii_isdigit_def by auto
  have alpha: "contains AsciiAlphabet c = ascii_isalpha c" for c
    unfolding AsciiAlphabet_def AsciiUppercase_def AsciiLowercase_def
      contains_simps ascii_isalpha_def byte_tables property_bits_bits by auto
  have alnum: "contains AsciiAlphanumerics c = ascii_isalnum c" for c
    unfolding AsciiAlphanumerics_def AsciiAlphabet_def AsciiDigits_def AsciiUppercase_def AsciiLowercase_def
      contains_simps ascii_isalnum_def byte_tables property_bits_bits by auto
  have hex: "contains AsciiHexDigits c = ascii_isxdigit c" for c
    unfolding AsciiHexDigits_def AsciiDigits_def contains_simps ascii_isxdigit_iff by simp
  have space: "contains AsciiWhitespace c = ascii_isspace c" for c
    unfolding AsciiWhitespace_def contains_simps ascii_isspace_iff by (simp add: char_eq_uc del: uc_inject) arith
  have print: "contains AsciiPrintable c = ascii_isprint c" for c
    unfolding AsciiPrintable_def contains_simps ascii_isprint_def by auto
  have punct: "contains AsciiPunctuation c = ascii_ispunct c" for c
    unfolding AsciiPunctuation_def contains_and contains_not alnum space print ascii_isalnum_def ascii_ispunct_def
      ascii_isspace_iff ascii_isprint_def byte_tables property_bits_bits by auto
  show ?thesis unfolding chars_of_def
    by (intro conjI) (auto simp: empty chars_of_def contains_simps charset_ok_empty(2) parts alpha alnum hex space print punct)
qed

end
