(* ===== verification/Match.thy ===== *)
theory Match
  imports Ascii Bits "HOL-Library.Sublist"
begin

text \<open>
  String matching of \<^verbatim>\<open>strings/match.h\<close> and \<^verbatim>\<open>strings/match.cc\<close>: prefix, suffix and substring tests,
  the case-insensitive ones with the prefiltered scan for short and the Boyer-Moore-Horspool search for
  long haystacks, and the longest common prefix (eight bytes at a time) and suffix of two strings.
  Strings are lists of characters; a pointer into one is the rest of the list.
\<close>

section \<open>Substrings and case-sensitive tests\<close>

definition substr :: "nat \<Rightarrow> nat \<Rightarrow> string \<Rightarrow> string" where
  "substr pos n s = take n (drop pos s)"

text \<open>The two overloads of \<^verbatim>\<open>string_view::find\<close> that are called, with \<^verbatim>\<open>npos\<close> as None.\<close>

fun find_str :: "string \<Rightarrow> string \<Rightarrow> nat option" where
  "find_str needle haystack =
    (if take (length needle) haystack = needle then Some 0
     else case haystack of [] \<Rightarrow> None | _ # rest \<Rightarrow> map_option Suc (find_str needle rest))"

declare find_str.simps [simp del]

primrec find_char :: "char \<Rightarrow> string \<Rightarrow> nat option" where
  "find_char needle [] = None"
| "find_char needle (c # rest) = (if c = needle then Some 0 else map_option Suc (find_char needle rest))"

definition StrContains :: "string \<Rightarrow> string \<Rightarrow> bool" where
  "StrContains haystack needle = (find_str needle haystack \<noteq> None)"

definition StrContains_char :: "string \<Rightarrow> char \<Rightarrow> bool" where
  "StrContains_char haystack needle = (find_char needle haystack \<noteq> None)"

definition StartsWith :: "string \<Rightarrow> string \<Rightarrow> bool" where
  "StartsWith txt pre =
    (if pre = [] then True
     else if length txt < length pre then False
     else substr 0 (length pre) txt = pre)"

definition EndsWith :: "string \<Rightarrow> string \<Rightarrow> bool" where
  "EndsWith txt suf =
    (if suf = [] then True
     else if length txt < length suf then False
     else drop (length txt - length suf) txt = suf)"

section \<open>Comparison without case\<close>

text \<open>The loop of \<^verbatim>\<open>memcasecmp\<close>, which folds case by arithmetic and only where the bytes differ.\<close>

definition memcase_lower :: "int \<Rightarrow> int" where
  "memcase_lower c = (if c \<ge> 65 \<and> c \<le> 90 then c - 65 + 97 else c)"

function memcasecmp_loop :: "string \<Rightarrow> string \<Rightarrow> nat \<Rightarrow> nat \<Rightarrow> int" where
  "memcasecmp_loop s1 s2 len i =
    (if i < len then
       let c1 = uc (s1 ! i); c2 = uc (s2 ! i)
       in if c1 \<noteq> c2 then
            let c1 = memcase_lower c1; c2 = memcase_lower c2; diff = c1 - c2
            in if diff \<noteq> 0 then diff else memcasecmp_loop s1 s2 len (i + 1)
          else memcasecmp_loop s1 s2 len (i + 1)
     else 0)"
  by auto
termination by (relation "measure (\<lambda>(s1, s2, len, i). len - i)") auto

declare memcasecmp_loop.simps [simp del]

definition memcasecmp :: "string \<Rightarrow> string \<Rightarrow> nat \<Rightarrow> int" where
  "memcasecmp s1 s2 len = memcasecmp_loop s1 s2 len 0"

definition EqualsIgnoreCase :: "string \<Rightarrow> string \<Rightarrow> bool" where
  "EqualsIgnoreCase piece1 piece2 =
    (length piece1 = length piece2 \<and> 0 = memcasecmp piece1 piece2 (length piece1))"

definition StartsWithIgnoreCase :: "string \<Rightarrow> string \<Rightarrow> bool" where
  "StartsWithIgnoreCase txt pre =
    (length txt \<ge> length pre \<and> EqualsIgnoreCase (substr 0 (length pre) txt) pre)"

definition EndsWithIgnoreCase :: "string \<Rightarrow> string \<Rightarrow> bool" where
  "EndsWithIgnoreCase txt suf =
    (length txt \<ge> length suf \<and> EqualsIgnoreCase (drop (length txt - length suf) txt) suf)"

section \<open>Boyer-Moore-Horspool search\<close>

text \<open>
  The loop that fills the shift table, the search loop and the function. The search loop ends because
  every entry of the table is positive; that is a fact about the table and not visible in the loop, so
  the loop is a partial function and not returning is the value None.
\<close>

function shift_fill :: "string \<Rightarrow> nat \<Rightarrow> nat \<Rightarrow> nat list \<Rightarrow> nat list" where
  "shift_fill needle m i shift =
    (if i < m - 1 then
       let c = needle ! i;
           shift = shift[nat (uc (ascii_tolower c)) := m - 1 - i];
           shift = shift[nat (uc (ascii_toupper c)) := m - 1 - i]
       in shift_fill needle m (i + 1) shift
     else shift)"
  by auto
termination by (relation "measure (\<lambda>(needle, m, i, shift). m - 1 - i)") auto

declare shift_fill.simps [simp del]

partial_function (option) bmh_search :: "string \<Rightarrow> string \<Rightarrow> nat \<Rightarrow> nat \<Rightarrow> nat list \<Rightarrow> nat \<Rightarrow> bool option" where
  "bmh_search haystack needle n m shift pos =
    (if pos \<le> n - m then
       let last_hay = haystack ! (pos + m - 1); last_needle = needle ! (m - 1);
           first_hay = haystack ! pos; first_needle = needle ! 0
       in if (last_hay = last_needle \<or> ascii_tolower last_hay = ascii_tolower last_needle) \<and>
             (first_hay = first_needle \<or> ascii_tolower first_hay = ascii_tolower first_needle) \<and>
             EqualsIgnoreCase (substr (pos + 1) (m - 2) haystack) (substr 1 (m - 2) needle)
          then Some True
          else bmh_search haystack needle n m shift (pos + shift ! nat (uc last_hay))
     else Some False)"

definition StrContainsIgnoreCaseBMH :: "string \<Rightarrow> string \<Rightarrow> bool option" where
  "StrContainsIgnoreCaseBMH haystack needle =
    (let n = length haystack; m = length needle;
         shift = shift_fill needle m 0 (replicate 256 m)
     in bmh_search haystack needle n m shift 0)"

text \<open>The search for one character, in either case.\<close>

primrec find_either :: "char \<Rightarrow> char \<Rightarrow> string \<Rightarrow> bool" where
  "find_either lower_needle upper_needle [] = False"
| "find_either lower_needle upper_needle (c # cs) =
    (if c = lower_needle \<or> c = upper_needle then True else find_either lower_needle upper_needle cs)"

primrec find_first_of :: "string \<Rightarrow> string \<Rightarrow> nat option" where
  "find_first_of cstr [] = None"
| "find_first_of cstr (c # cs) = (if c \<in> set cstr then Some 0 else map_option Suc (find_first_of cstr cs))"

definition StrContainsIgnoreCase_char :: "string \<Rightarrow> char \<Rightarrow> bool" where
  "StrContainsIgnoreCase_char haystack needle =
    (let upper_needle = ascii_toupper needle; lower_needle = ascii_tolower needle
     in if upper_needle = lower_needle then StrContains_char haystack needle
        else if length haystack < 64 then find_either lower_needle upper_needle haystack
        else find_first_of [lower_needle, upper_needle] haystack \<noteq> None)"

text \<open>The scan for short haystacks and needles of two characters.\<close>

function prefilter_scan :: "string \<Rightarrow> string \<Rightarrow> nat \<Rightarrow> nat \<Rightarrow> nat \<Rightarrow> bool" where
  "prefilter_scan haystack needle n m pos =
    (if pos \<le> n - m then
       if ascii_tolower (haystack ! pos) \<noteq> ascii_tolower (needle ! 0) then
         prefilter_scan haystack needle n m (pos + 1)
       else if ascii_tolower (haystack ! (pos + m - 1)) \<noteq> ascii_tolower (needle ! (m - 1)) then
         prefilter_scan haystack needle n m (pos + 1)
       else if m = 2 \<or> EqualsIgnoreCase (substr (pos + 1) (m - 2) haystack) (substr 1 (m - 2) needle) then True
       else prefilter_scan haystack needle n m (pos + 1)
     else False)"
  by auto
termination by (relation "measure (\<lambda>(haystack, needle, n, m, pos). n - m + 1 - pos)") auto

declare prefilter_scan.simps [simp del]

definition StrContainsIgnoreCase :: "string \<Rightarrow> string \<Rightarrow> bool option" where
  "StrContainsIgnoreCase haystack needle =
    (let n = length haystack; m = length needle
     in if m = 0 then Some True
        else if n < m then Some False
        else if m = 1 then Some (StrContainsIgnoreCase_char haystack (needle ! 0))
        else if n < 256 \<or> m = 2 then Some (prefilter_scan haystack needle n m 0)
        else StrContainsIgnoreCaseBMH haystack needle)"

section \<open>Longest common prefix and suffix\<close>

text \<open>Little-endian loads from the bytes at a pointer.\<close>

primrec load_le :: "string \<Rightarrow> 'a::len word" where
  "load_le [] = 0"
| "load_le (c # cs) = word_of_int (uc c) OR push_bit 8 (load_le cs)"

definition Load16 :: "string \<Rightarrow> 16 word" where
  "Load16 p = load_le (take 2 p)"

definition Load64 :: "string \<Rightarrow> 64 word" where
  "Load64 p = load_le (take 8 p)"

function prefix_pairs :: "string \<Rightarrow> string \<Rightarrow> nat \<Rightarrow> nat \<Rightarrow> nat" where
  "prefix_pairs a b limit count =
    (if count + 2 \<le> limit then
       let xor_bytes = Load16 (drop count a) XOR Load16 (drop count b)
       in if xor_bytes \<noteq> 0 then if xor_bytes AND 0xff = 0 then count + 1 else count
          else prefix_pairs a b limit (count + 2)
     else if count \<noteq> limit then if a ! count = b ! count then count + 1 else count
     else count)"
  by auto
termination by (relation "measure (\<lambda>(a, b, limit, count). limit - count)") auto

declare prefix_pairs.simps [simp del]

function prefix_blocks :: "string \<Rightarrow> string \<Rightarrow> nat \<Rightarrow> nat \<Rightarrow> nat" where
  "prefix_blocks a b limit count =
    (let xor_bytes = Load64 (drop count a) XOR Load64 (drop count b)
     in if xor_bytes \<noteq> 0 then count + drop_bit 3 (nat (countr_zero xor_bytes))
        else if count + 8 + 8 < limit then prefix_blocks a b limit (count + 8)
        else let count = limit - 8;
                 xor_bytes = Load64 (drop count a) XOR Load64 (drop count b)
             in if xor_bytes \<noteq> 0 then count + drop_bit 3 (nat (countr_zero xor_bytes)) else limit)"
  by auto
termination by (relation "measure (\<lambda>(a, b, limit, count). limit - count)") auto

declare prefix_blocks.simps [simp del]

definition FindLongestCommonPrefix :: "string \<Rightarrow> string \<Rightarrow> string" where
  "FindLongestCommonPrefix a b =
    (let limit = min (length a) (length b)
     in take (if limit < 8 then prefix_pairs a b limit 0 else prefix_blocks a b limit 0) a)"

function suffix_count :: "string \<Rightarrow> string \<Rightarrow> nat \<Rightarrow> nat \<Rightarrow> nat" where
  "suffix_count a b limit count =
    (if count < limit \<and> a ! (length a - 1 - count) = b ! (length b - 1 - count)
     then suffix_count a b limit (count + 1) else count)"
  by auto
termination by (relation "measure (\<lambda>(a, b, limit, count). limit - count)") auto

declare suffix_count.simps [simp del]

definition FindLongestCommonSuffix :: "string \<Rightarrow> string \<Rightarrow> string" where
  "FindLongestCommonSuffix a b =
    (let limit = min (length a) (length b)
     in if limit = 0 then [] else let count = suffix_count a b limit 0 in substr (length a - count) count a)"

section \<open>Comparison without case is comparison in lower case\<close>

abbreviation lower :: "string \<Rightarrow> string" where
  "lower s \<equiv> map ascii_tolower s"

lemma memcase_lower_uc: "memcase_lower (uc c) = uc (ascii_tolower c)"
  by (simp add: memcase_lower_def uc_ascii_tolower lower_of_def)

lemma memcasecmp_loop_0:
  "memcasecmp_loop s1 s2 len i = 0 \<longleftrightarrow> (\<forall>k. i \<le> k \<and> k < len \<longrightarrow> ascii_tolower (s1 ! k) = ascii_tolower (s2 ! k))"
proof (induction s1 s2 len i rule: memcasecmp_loop.induct)
  case (1 s1 s2 len i)
  have step: "(\<forall>k. i \<le> k \<and> k < len \<longrightarrow> P k) \<longleftrightarrow> P i \<and> (\<forall>k. i + 1 \<le> k \<and> k < len \<longrightarrow> P k)" if "i < len" for P
    using that by (auto simp: Suc_le_eq) (metis le_eq_less_or_eq)
  show ?case
  proof (cases "i < len")
    case True
    show ?thesis unfolding step [OF True]
      using 1 True by (subst memcasecmp_loop.simps) (auto simp: Let_def memcase_lower_uc)
  next
    case False
    then show ?thesis by (subst memcasecmp_loop.simps) auto
  qed
qed

lemma EqualsIgnoreCase_iff: "EqualsIgnoreCase a b \<longleftrightarrow> lower a = lower b"
  by (auto simp: EqualsIgnoreCase_def memcasecmp_def memcasecmp_loop_0 list_eq_iff_nth_eq eq_commute [of 0])

lemma same_lower:
  assumes "ascii_tolower c = ascii_tolower d"
  shows "c = ascii_tolower d \<or> c = ascii_toupper d"
proof -
  have "lower_of (uc c) = lower_of (uc d)" using assms by (metis uc_ascii_tolower)
  then have "uc c = lower_of (uc d) \<or> uc c = upper_of (uc d)"
    by (auto simp: lower_of_def upper_of_def split: if_splits)
  then show ?thesis by (metis uc_ascii_tolower uc_ascii_toupper uc_inject)
qed

lemma lower_idem [simp]: "ascii_tolower (ascii_tolower c) = ascii_tolower c" "ascii_tolower (ascii_toupper c) = ascii_tolower c"
  by (simp_all add: char_eq_uc uc_ascii_tolower uc_ascii_toupper lower_of_def upper_of_def del: uc_inject)

section \<open>Occurrences\<close>

text \<open>The needle occurs in the haystack at a position, up to case.\<close>

definition occurs_at :: "string \<Rightarrow> string \<Rightarrow> nat \<Rightarrow> bool" where
  "occurs_at haystack needle pos \<longleftrightarrow>
    pos + length needle \<le> length haystack \<and>
    (\<forall>k < length needle. ascii_tolower (haystack ! (pos + k)) = ascii_tolower (needle ! k))"

lemma occurs_at_lower:
  "occurs_at haystack needle pos \<longleftrightarrow>
    pos + length needle \<le> length haystack \<and> take (length needle) (drop pos (lower haystack)) = lower needle"
  by (auto simp: occurs_at_def list_eq_iff_nth_eq)

lemma sublist_occurs: "sublist (lower needle) (lower haystack) \<longleftrightarrow> (\<exists>pos. occurs_at haystack needle pos)"
proof
  assume "sublist (lower needle) (lower haystack)"
  then obtain ps ss where e: "lower haystack = ps @ lower needle @ ss" by (auto simp: sublist_def)
  have "length haystack = length ps + length needle + length ss" using arg_cong [OF e, of length] by simp
  then have "occurs_at haystack needle (length ps)" by (simp add: occurs_at_lower e)
  then show "\<exists>pos. occurs_at haystack needle pos" ..
next
  assume "\<exists>pos. occurs_at haystack needle pos"
  then obtain pos where "take (length needle) (drop pos (lower haystack)) = lower needle"
    by (auto simp: occurs_at_lower)
  then show "sublist (lower needle) (lower haystack)"
    by (metis sublist_drop sublist_order.order_trans sublist_take)
qed

text \<open>First, last and inner characters together are the whole window.\<close>

lemma window_test:
  assumes "2 \<le> length needle" "pos + length needle \<le> length haystack"
  shows "occurs_at haystack needle pos \<longleftrightarrow>
    ascii_tolower (haystack ! pos) = ascii_tolower (needle ! 0) \<and>
    ascii_tolower (haystack ! (pos + length needle - 1)) = ascii_tolower (needle ! (length needle - 1)) \<and>
    EqualsIgnoreCase (substr (pos + 1) (length needle - 2) haystack) (substr 1 (length needle - 2) needle)"
proof -
  define P where "P k = (ascii_tolower (haystack ! (pos + k)) = ascii_tolower (needle ! k))" for k
  obtain m where m: "length needle = m + 2" using assms(1) by (metis add.commute le_Suc_ex)
  have "EqualsIgnoreCase (substr (pos + 1) m haystack) (substr 1 m needle) \<longleftrightarrow> (\<forall>k < m. P (k + 1))"
    using assms m by (auto simp: EqualsIgnoreCase_iff substr_def list_eq_iff_nth_eq P_def)
  moreover have "(\<forall>k < m + 2. P k) \<longleftrightarrow> P 0 \<and> P (m + 1) \<and> (\<forall>k < m. P (k + 1))"
  proof -
    have "k < m + 2 \<longleftrightarrow> k = 0 \<or> k = m + 1 \<or> (\<exists>j < m. k = j + 1)" for k by (cases k) auto
    then show ?thesis by (simp only:) auto
  qed
  moreover have "pos + length needle - 1 = pos + (m + 1)" "length needle - 1 = m + 1" "length needle - 2 = m" "pos = pos + 0"
    using m by simp_all
  moreover have "occurs_at haystack needle pos \<longleftrightarrow> (\<forall>k < m + 2. P k)"
    using assms(2) m by (simp add: occurs_at_def P_def)
  ultimately show ?thesis unfolding P_def by simp
qed

lemma prefilter_scan_iff:
  assumes "2 \<le> length needle" "length needle \<le> length haystack"
  shows "prefilter_scan haystack needle (length haystack) (length needle) pos \<longleftrightarrow>
    (\<exists>p \<ge> pos. occurs_at haystack needle p)"
proof (induction "length haystack - pos" arbitrary: pos rule: less_induct)
  case less
  have ex: "(\<exists>p \<ge> pos. occurs_at haystack needle p) \<longleftrightarrow>
      occurs_at haystack needle pos \<or> (\<exists>p \<ge> pos + 1. occurs_at haystack needle p)"
    by (metis Suc_eq_plus1 le_eq_less_or_eq Suc_le_eq)
  show ?case
  proof (cases "pos \<le> length haystack - length needle")
    case True
    then have w: "pos + length needle \<le> length haystack" using assms(2) by simp
    have two: "length needle = 2 \<or> EqualsIgnoreCase (substr (pos + 1) (length needle - 2) haystack) (substr 1 (length needle - 2) needle)
      \<longleftrightarrow> EqualsIgnoreCase (substr (pos + 1) (length needle - 2) haystack) (substr 1 (length needle - 2) needle)"
      by (auto simp add: EqualsIgnoreCase_iff substr_def)
    have IH: "prefilter_scan haystack needle (length haystack) (length needle) (pos + 1) \<longleftrightarrow>
        (\<exists>p \<ge> pos + 1. occurs_at haystack needle p)"
      using w assms(1) by (intro less) linarith
    show ?thesis unfolding ex window_test [OF assms(1) w]
      by (subst prefilter_scan.simps) (simp only: True if_True IH two split: if_split, argo)
  next
    case False
    then have "\<not> (\<exists>p \<ge> pos. occurs_at haystack needle p)" by (auto simp: occurs_at_def)
    then show ?thesis using False by (subst prefilter_scan.simps) simp
  qed
qed

section \<open>The shift table\<close>

text \<open>
  An entry of the table is positive and at most the distance from any earlier occurrence of its
  character, in either case, to the end of the needle.
\<close>

definition shift_ok :: "string \<Rightarrow> nat \<Rightarrow> nat list \<Rightarrow> bool" where
  "shift_ok needle i shift \<longleftrightarrow> length shift = 256 \<and>
    (\<forall>c. 0 < shift ! nat (uc c) \<and> shift ! nat (uc c) \<le> length needle \<and>
      (\<forall>k < i. ascii_tolower c = ascii_tolower (needle ! k) \<longrightarrow> shift ! nat (uc c) \<le> length needle - 1 - k))"

lemma nat_uc_inject: "nat (uc c) = nat (uc d) \<longleftrightarrow> c = d"
  by (simp only: eq_nat_nat_iff uc_nonneg uc_inject)

lemma shift_fill_ok:
  "shift_ok needle i shift \<Longrightarrow> i \<le> length needle - 1 \<Longrightarrow>
   shift_ok needle (length needle - 1) (shift_fill needle (length needle) i shift)"
proof (induction needle "length needle" i shift rule: shift_fill.induct)
  case (1 needle i shift)
  show ?case
  proof (cases "i < length needle - 1")
    case True
    define c where "c = needle ! i"
    define d where "d = length needle - 1 - i"
    define sh where "sh = shift[nat (uc (ascii_tolower c)) := d, nat (uc (ascii_toupper c)) := d]"
    have sh: "sh ! nat (uc x) = (if ascii_tolower x = ascii_tolower c then d else shift ! nat (uc x))" for x
      using 1(2) same_lower [of x c] by (auto simp: sh_def shift_ok_def nth_list_update nat_uc_inject)
    have "length sh = length shift" by (simp add: sh_def)
    then have "shift_ok needle (i + 1) sh"
      using 1(2) True by (auto simp: shift_ok_def sh d_def c_def less_Suc_eq)
    from 1(1) [OF True c_def refl, folded d_def, OF sh_def this]
    show ?thesis using True
      by (subst shift_fill.simps) (simp add: Let_def sh_def d_def c_def)
  next
    case False
    then show ?thesis using 1(2,3) by (subst shift_fill.simps) (simp add: le_antisym)
  qed
qed

text \<open>The window may be moved by the entry of the last haystack character without missing an occurrence.\<close>

lemma shift_safe:
  assumes "shift_ok needle (length needle - 1) shift" "2 \<le> length needle" "pos + length needle \<le> length haystack"
    and "pos < p" "occurs_at haystack needle p"
  shows "pos + shift ! nat (uc (haystack ! (pos + length needle - 1))) \<le> p"
proof (rule ccontr)
  define j where "j = p - pos"
  define c where "c = haystack ! (pos + length needle - 1)"
  assume "\<not> pos + shift ! nat (uc (haystack ! (pos + length needle - 1))) \<le> p"
  then have j: "0 < j" "p = pos + j" "j < shift ! nat (uc c)" using assms(4) by (auto simp: j_def c_def)
  have "shift ! nat (uc c) \<le> length needle" using assms(1) by (simp add: shift_ok_def)
  then have k: "length needle - 1 - j < length needle - 1" "p + (length needle - 1 - j) = pos + length needle - 1"
    using j assms(2) by auto
  have all: "ascii_tolower (haystack ! (p + i)) = ascii_tolower (needle ! i)" if "i < length needle" for i
    using assms(5) that by (simp add: occurs_at_def)
  have "length needle - 1 - j < length needle" using k(1) by linarith
  from all [OF this] have "ascii_tolower c = ascii_tolower (needle ! (length needle - 1 - j))"
    unfolding k(2) c_def .
  then have "shift ! nat (uc c) \<le> length needle - 1 - (length needle - 1 - j)"
    using assms(1) k(1) unfolding shift_ok_def by blast
  then show False using j k by linarith
qed

lemma bmh_search_eq:
  assumes "shift_ok needle (length needle - 1) shift" "2 \<le> length needle" "length needle \<le> length haystack"
  shows "bmh_search haystack needle (length haystack) (length needle) shift pos =
    Some (\<exists>p \<ge> pos. occurs_at haystack needle p)"
proof (induction "length haystack - pos" arbitrary: pos rule: less_induct)
  case less
  show ?case
  proof (cases "pos \<le> length haystack - length needle")
    case True
    then have w: "pos + length needle \<le> length haystack" using assms(3) by simp
    define s where "s = shift ! nat (uc (haystack ! (pos + length needle - 1)))"
    have s: "0 < s" using assms(1) by (simp add: s_def shift_ok_def)
    have ex: "(\<exists>p \<ge> pos. occurs_at haystack needle p) \<longleftrightarrow>
        occurs_at haystack needle pos \<or> (\<exists>p \<ge> pos + s. occurs_at haystack needle p)"
      using shift_safe [OF assms(1,2) w] by (fold s_def) (metis le_add1 le_eq_less_or_eq le_trans)
    have IH: "bmh_search haystack needle (length haystack) (length needle) shift (pos + s) =
        Some (\<exists>p \<ge> pos + s. occurs_at haystack needle p)"
      using s w assms(2) by (intro less) linarith
    have eqv: "(c = d \<or> ascii_tolower c = ascii_tolower d) \<longleftrightarrow> ascii_tolower c = ascii_tolower d" for c d
      by auto
    show ?thesis unfolding ex window_test [OF assms(2) w]
      by (subst bmh_search.simps) (simp only: Let_def eqv True if_True IH s_def [symmetric] option.inject split: if_split, blast)
  next
    case False
    then have "\<not> (\<exists>p \<ge> pos. occurs_at haystack needle p)" by (auto simp: occurs_at_def)
    then show ?thesis using False by (subst bmh_search.simps) simp
  qed
qed

lemma StrContainsIgnoreCaseBMH_eq:
  assumes "2 \<le> length needle" "length needle \<le> length haystack"
  shows "StrContainsIgnoreCaseBMH haystack needle = Some (\<exists>p. occurs_at haystack needle p)"
proof -
  have "needle \<noteq> []" using assms(1) by auto
  then have "shift_ok needle 0 (replicate 256 (length needle))" by (auto simp: shift_ok_def)
  from shift_fill_ok [OF this] bmh_search_eq [OF _ assms]
  show ?thesis by (simp add: StrContainsIgnoreCaseBMH_def Let_def)
qed

lemma find_char_iff: "find_char c s \<noteq> None \<longleftrightarrow> c \<in> set s"
  by (induction s) auto

lemma find_either_iff: "find_either a b s \<longleftrightarrow> a \<in> set s \<or> b \<in> set s"
  by (induction s) auto

lemma find_first_of_iff: "find_first_of cstr s \<noteq> None \<longleftrightarrow> set cstr \<inter> set s \<noteq> {}"
  by (induction s) auto

lemma StrContainsIgnoreCase_char_iff:
  "StrContainsIgnoreCase_char haystack c \<longleftrightarrow> ascii_tolower c \<in> ascii_tolower ` set haystack"
proof -
  have "ascii_tolower c \<in> ascii_tolower ` set haystack \<longleftrightarrow>
      ascii_tolower c \<in> set haystack \<or> ascii_toupper c \<in> set haystack"
  proof
    assume "ascii_tolower c \<in> set haystack \<or> ascii_toupper c \<in> set haystack"
    then show "ascii_tolower c \<in> ascii_tolower ` set haystack" by (metis imageI lower_idem)
  qed (use same_lower [of _ c] in force)
  moreover have "c = ascii_tolower c" if "ascii_toupper c = ascii_tolower c"
    using same_lower [of c c] that by metis
  ultimately show ?thesis
    unfolding StrContainsIgnoreCase_char_def StrContains_char_def find_char_iff find_either_iff
      find_first_of_iff Let_def by auto
qed

lemma StrContainsIgnoreCase_eq:
  "StrContainsIgnoreCase haystack needle = Some (sublist (lower needle) (lower haystack))"
proof -
  consider "needle = []" | "length haystack < length needle" | c where "needle = [c]" "length needle \<le> length haystack"
    | "2 \<le> length needle" "length needle \<le> length haystack"
  proof -
    assume *: "needle = [] \<Longrightarrow> thesis" "length haystack < length needle \<Longrightarrow> thesis"
      "\<And>c. needle = [c] \<Longrightarrow> length needle \<le> length haystack \<Longrightarrow> thesis"
      "2 \<le> length needle \<Longrightarrow> length needle \<le> length haystack \<Longrightarrow> thesis"
    show thesis
    proof (cases "length haystack < length needle")
      case False
      then show thesis using * by (cases needle rule: remdups_adj.cases) (simp_all add: Suc_le_eq)
    qed (rule *)
  qed
  then show ?thesis
  proof cases
    case 2
    then have "\<not> sublist (lower needle) (lower haystack)" using sublist_length_le by fastforce
    then show ?thesis using 2 by (cases needle) (simp_all add: StrContainsIgnoreCase_def Let_def)
  next
    case 3
    have "sublist [ascii_tolower c] (lower haystack) \<longleftrightarrow> ascii_tolower c \<in> set (lower haystack)"
      by (metis in_set_conv_decomp sublist_def append_Cons append_Nil in_set_conv_decomp)
    then show ?thesis using 3
      by (auto simp: StrContainsIgnoreCase_def StrContainsIgnoreCase_char_iff Let_def)
  next
    case 4
    then have "length needle \<noteq> 0" "length needle \<noteq> 1" "\<not> length haystack < length needle" by auto
    then show ?thesis
      using prefilter_scan_iff [OF 4, of 0] StrContainsIgnoreCaseBMH_eq [OF 4]
      by (simp add: StrContainsIgnoreCase_def Let_def sublist_occurs)
  qed (simp add: StrContainsIgnoreCase_def)
qed

section \<open>Prefixes and suffixes\<close>

lemma find_str_iff: "find_str needle haystack \<noteq> None \<longleftrightarrow> sublist needle haystack"
proof (induction haystack)
  case Nil
  show ?case by (subst find_str.simps) auto
next
  case (Cons c haystack)
  have "take (length needle) (c # haystack) = needle \<longleftrightarrow> prefix needle (c # haystack)"
    by (metis append_eq_conv_conj prefix_def)
  then show ?case using Cons by (subst find_str.simps) (auto simp: sublist_Cons_right)
qed

lemma StartsWith_iff: "StartsWith txt pre \<longleftrightarrow> prefix pre txt"
proof -
  have "take (length pre) txt = pre \<longleftrightarrow> prefix pre txt" by (metis append_eq_conv_conj prefix_def)
  moreover have "prefix pre txt \<Longrightarrow> length pre \<le> length txt" by (rule prefix_length_le)
  ultimately show ?thesis by (auto simp: StartsWith_def substr_def)
qed

lemma EndsWith_iff: "EndsWith txt suf \<longleftrightarrow> suffix suf txt"
proof -
  have "drop (length txt - length suf) txt = suf \<longleftrightarrow> suffix suf txt" if "length suf \<le> length txt"
    by (metis append_take_drop_id suffix_def suffix_drop suffix_take append_eq_conv_conj length_append add_diff_cancel_right')
  moreover have "suffix suf txt \<Longrightarrow> length suf \<le> length txt" by (rule suffix_length_le)
  ultimately show ?thesis by (auto simp: EndsWith_def)
qed

lemma StartsWithIgnoreCase_iff: "StartsWithIgnoreCase txt pre \<longleftrightarrow> prefix (lower pre) (lower txt)"
proof -
  have "take (length pre) (lower txt) = lower pre \<longleftrightarrow> prefix (lower pre) (lower txt)"
    by (metis append_eq_conv_conj length_map prefix_def)
  moreover have "prefix (lower pre) (lower txt) \<Longrightarrow> length pre \<le> length txt" using prefix_length_le by fastforce
  ultimately show ?thesis by (auto simp: StartsWithIgnoreCase_def EqualsIgnoreCase_iff substr_def take_map)
qed

lemma EndsWithIgnoreCase_iff: "EndsWithIgnoreCase txt suf \<longleftrightarrow> suffix (lower suf) (lower txt)"
proof -
  have "EndsWithIgnoreCase txt suf \<longleftrightarrow> EndsWith (lower txt) (lower suf)"
    by (auto simp: EndsWithIgnoreCase_def EndsWith_def EqualsIgnoreCase_iff drop_map)
  then show ?thesis by (simp only: EndsWith_iff)
qed

section \<open>Loads\<close>

lemma bit_uc: "bit (uc c) k \<Longrightarrow> k < 8"
proof -
  have "take_bit 8 (uc c) = uc c" by (simp add: take_bit_eq_mod uc_mod)
  then show "bit (uc c) k \<Longrightarrow> k < 8" by (metis bit_take_bit_iff)
qed

lemma bit_load_le:
  "bit (load_le cs :: 'a::len word) k \<longleftrightarrow> k < LENGTH('a) \<and> k < 8 * length cs \<and> bit (uc (cs ! (k div 8))) (k mod 8)"
proof (induction cs arbitrary: k)
  case (Cons c cs)
  show ?case
  proof (cases "k < 8")
    case True
    then show ?thesis by (auto simp: bit_simps)
  next
    case False
    then obtain j where "k = j + 8" by (metis add.commute le_Suc_ex not_less)
    moreover have "(j + 8) div 8 = Suc (j div 8)" by simp
    ultimately show ?thesis using Cons [of j] bit_uc [of c k] by (auto simp: bit_simps)
  qed
qed simp

text \<open>Where two loaded words differ, and at which byte they first differ.\<close>

lemma load_byte:
  assumes "8 * n = LENGTH('a)" "n \<le> length a" "n \<le> length b" "i < n"
  defines "x \<equiv> (load_le (take n a) :: 'a::len word) XOR load_le (take n b)"
  shows "a ! i = b ! i \<longleftrightarrow> (\<forall>j < 8. \<not> bit x (8 * i + j))"
proof -
  have x: "bit x (8 * i + j) \<longleftrightarrow> bit (uc (a ! i)) j \<noteq> bit (uc (b ! i)) j" if j: "j < 8" for j
  proof -
    have "(8 * i + j) div 8 = i" "(8 * i + j) mod 8 = j" "8 * i + j < 8 * n" using assms(4) j by simp_all
    then show ?thesis using assms(1-4) by (simp add: x_def bit_load_le bit_xor_iff)
  qed
  have "a ! i = b ! i \<longleftrightarrow> (\<forall>j. bit (uc (a ! i)) j = bit (uc (b ! i)) j)"
    by (simp only: char_eq_uc bit_eq_iff) simp
  also have "\<dots> \<longleftrightarrow> (\<forall>j < 8. bit (uc (a ! i)) j = bit (uc (b ! i)) j)"
    using bit_uc by blast
  finally show ?thesis using x by simp
qed

lemma load_xor_0:
  assumes "8 * n = LENGTH('a)" "n \<le> length a" "n \<le> length b"
  shows "(load_le (take n a) :: 'a::len word) XOR load_le (take n b) = 0 \<longleftrightarrow> take n a = take n b"
proof
  assume "(load_le (take n a) :: 'a::len word) XOR load_le (take n b) = 0"
  then show "take n a = take n b"
    using load_byte [OF assms] assms by (auto intro!: nth_equalityI)
qed simp

lemma load_first_diff:
  assumes n: "8 * n = LENGTH('a)" "n \<le> length a" "n \<le> length b" and len: "LENGTH('a) \<le> 64"
    and x: "x = (load_le (take n a) :: 'a::len word) XOR load_le (take n b)" "x \<noteq> 0"
  defines "r \<equiv> drop_bit 3 (nat (countr_zero x))"
  shows "r < n" "take r a = take r b" "a ! r \<noteq> b ! r"
proof -
  define k where "k = low_bit (unat x)"
  have pos: "0 < unat x" using x(2) by (simp add: unat_gt_0)
  have r: "r = k div 8" by (simp add: r_def countr_zero_eq [OF len x(2)] k_def drop_bit_eq_div)
  have tb: "take_bit k (unat x) = 0" "take_bit (Suc k) (unat x) \<noteq> 0"
    using low_bit_dvd [OF pos] unfolding k_def take_bit_eq_0_iff by blast+
  have low: "\<not> bit x j" if "j < k" for j
  proof -
    have "bit (take_bit k (unat x)) j \<longleftrightarrow> bit x j" using that by (simp add: bit_take_bit_iff bit_unsigned_iff)
    then show ?thesis using tb(1) by simp
  qed
  have top: "bit x k"
  proof (rule ccontr)
    assume "\<not> bit x k"
    then have "\<not> bit (unat x) k" by (simp add: bit_unsigned_iff)
    then show False using tb by (simp add: take_bit_Suc_from_most)
  qed
  have "k < 8 * n" using top n(1) bit_imp_le_length by metis
  then show "r < n" by (simp add: r div_less_iff_less_mult mult.commute)
  have d: "a ! i = b ! i \<longleftrightarrow> (\<forall>j < 8. \<not> bit x (8 * i + j))" if "i < n" for i
    unfolding x(1) using load_byte [OF n that] .
  show "take r a = take r b"
  proof (rule nth_equalityI)
    fix i assume "i < length (take r a)"
    then have i: "i < r" "i < n" using \<open>r < n\<close> by simp_all
    have "8 * i + j < k" if "j < 8" for j
    proof -
      have "8 * i + j < 8 * r" using that i(1) by linarith
      also have "8 * r \<le> k" unfolding r by (rule times_div_less_eq_dividend)
      finally show ?thesis .
    qed
    then show "take r a ! i = take r b ! i" using d [OF i(2)] low i by simp
  qed (use n \<open>r < n\<close> in simp)
  have "8 * r + k mod 8 = k" unfolding r by (rule mult_div_mod_eq)
  then show "a ! r \<noteq> b ! r" using d [OF \<open>r < n\<close>] top by (metis mod_less_divisor zero_less_numeral)
qed

section \<open>Longest common prefix and suffix\<close>

definition common_prefix_length :: "string \<Rightarrow> string \<Rightarrow> nat \<Rightarrow> bool" where
  "common_prefix_length a b r \<longleftrightarrow>
    r \<le> length a \<and> r \<le> length b \<and> take r a = take r b \<and> (r = min (length a) (length b) \<or> a ! r \<noteq> b ! r)"

lemma common_prefix_length_longest:
  assumes "common_prefix_length a b r"
  shows "take r a = longest_common_prefix a b"
proof (rule prefix_order.antisym)
  have "prefix (take r a) a" "prefix (take r a) b"
    using assms take_is_prefix [of r a] take_is_prefix [of r b] by (simp_all add: common_prefix_length_def)
  then show "prefix (take r a) (longest_common_prefix a b)" by (rule longest_common_prefix_max_prefix)
next
  define p where "p = longest_common_prefix a b"
  have pa: "prefix p a" and pb: "prefix p b"
    unfolding p_def by (rule longest_common_prefix_prefix1, rule longest_common_prefix_prefix2)
  have "length p \<le> r"
  proof (rule ccontr)
    assume "\<not> length p \<le> r"
    then have "a ! r = b ! r" "r < length a" "r < length b"
      using pa pb by (auto simp: prefix_def nth_append)
    then show False using assms by (auto simp: common_prefix_length_def)
  qed
  then show "prefix p (take r a)" using pa by (auto simp: prefix_def)
qed

lemma common_prefix_shift:
  assumes "take c a = take c b" "c \<le> length a" "c \<le> length b" "take r (drop c a) = take r (drop c b)"
  shows "take (c + r) a = take (c + r) b"
  using assms by (simp add: take_add)

lemma prefix_pairs_correct:
  assumes "take count a = take count b" "count \<le> min (length a) (length b)"
  shows "common_prefix_length a b (prefix_pairs a b (min (length a) (length b)) count)"
  using assms
proof (induction "length a - count" arbitrary: count rule: less_induct)
  case less
  define lim where "lim = min (length a) (length b)"
  define x where "x = Load16 (drop count a) XOR Load16 (drop count b)"
  show ?case
  proof (cases "count + 2 \<le> lim")
    case True
    then have n: "8 * 2 = LENGTH(16)" "2 \<le> length (drop count a)" "2 \<le> length (drop count b)"
      by (auto simp: lim_def)
    have byte: "drop count a ! i = drop count b ! i \<longleftrightarrow> (\<forall>j < 8. \<not> bit x (8 * i + j))" if "i < 2" for i
      using load_byte [OF n that] by (simp only: x_def Load16_def)
    have zero: "x = 0 \<longleftrightarrow> take 2 (drop count a) = take 2 (drop count b)"
      using load_xor_0 [OF n] by (simp only: x_def Load16_def)
    have low: "x AND 0xff = 0 \<longleftrightarrow> a ! count = b ! count"
    proof -
      have "x AND 0xff = take_bit 8 x" by (simp add: take_bit_eq_mask mask_numeral)
      moreover have "take_bit 8 x = 0 \<longleftrightarrow> (\<forall>j < 8. \<not> bit x j)"
        by (auto simp: bit_eq_iff bit_take_bit_iff)
      ultimately show ?thesis using byte [of 0] n by simp
    qed
    have two: "take 2 (drop count y) = [y ! count, y ! (count + 1)]" if "count + 2 \<le> length y" for y :: string
      using that by (simp add: numeral_2_eq_2 take_Suc_conv_app_nth)
    have "common_prefix_length a b (count + 1)" if "x \<noteq> 0" "x AND 0xff = 0"
      using that zero low two [of a] two [of b] True less.prems common_prefix_shift [of count a b 1]
      by (auto simp: common_prefix_length_def lim_def take_Suc_conv_app_nth)
    moreover have "common_prefix_length a b count" if "x \<noteq> 0" "x AND 0xff \<noteq> 0"
      using that low less.prems by (simp add: common_prefix_length_def)
    moreover have "common_prefix_length a b (prefix_pairs a b lim (count + 2))" if "x = 0"
      unfolding lim_def
      using that zero True less.prems common_prefix_shift [of count a b 2]
      by (intro less) (auto simp: lim_def)
    ultimately show ?thesis
      unfolding lim_def [symmetric]
      by (subst prefix_pairs.simps) (simp only: True if_True Let_def x_def [symmetric] split: if_split, blast)
  next
    case False
    then have "count = lim \<or> count + 1 = lim" using less.prems by (auto simp: lim_def)
    then have "common_prefix_length a b (if count \<noteq> lim then if a ! count = b ! count then count + 1 else count else count)"
      using less.prems by (auto simp: common_prefix_length_def lim_def take_Suc_conv_app_nth min_def split: if_splits)
    then show ?thesis unfolding lim_def [symmetric]
      by (subst prefix_pairs.simps) (simp only: False if_False)
  qed
qed

text \<open>The step of the block loop: the block is equal, or its first difference is found.\<close>

lemma block_step:
  assumes "take c a = take c b" "c + 8 \<le> length a" "c + 8 \<le> length b"
  defines "x \<equiv> Load64 (drop c a) XOR Load64 (drop c b)"
  shows "x = 0 \<longleftrightarrow> take 8 (drop c a) = take 8 (drop c b)"
    and "x \<noteq> 0 \<Longrightarrow> common_prefix_length a b (c + drop_bit 3 (nat (countr_zero x)))"
proof -
  have n: "8 * 8 = LENGTH(64)" "8 \<le> length (drop c a)" "8 \<le> length (drop c b)" using assms(2,3) by auto
  show "x = 0 \<longleftrightarrow> take 8 (drop c a) = take 8 (drop c b)"
    using load_xor_0 [OF n] by (simp only: x_def Load64_def)
  assume nz: "x \<noteq> 0"
  define r where "r = drop_bit 3 (nat (countr_zero x))"
  have x: "x = load_le (take 8 (drop c a)) XOR load_le (take 8 (drop c b))" by (simp only: x_def Load64_def)
  have "LENGTH(64) \<le> 64" by simp
  note d = load_first_diff [OF n this x nz, folded r_def]
  show "common_prefix_length a b (c + drop_bit 3 (nat (countr_zero x)))"
    unfolding r_def [symmetric] common_prefix_length_def
    using d assms(1-3) common_prefix_shift [of c a b r] by auto
qed

lemma prefix_blocks_correct:
  assumes "take count a = take count b" "count + 8 \<le> min (length a) (length b)"
  shows "common_prefix_length a b (prefix_blocks a b (min (length a) (length b)) count)"
  using assms
proof (induction "length a - count" arbitrary: count rule: less_induct)
  case less
  define lim where "lim = min (length a) (length b)"
  define x where "x = Load64 (drop count a) XOR Load64 (drop count b)"
  define y where "y = Load64 (drop (lim - 8) a) XOR Load64 (drop (lim - 8) b)"
  have len: "count + 8 \<le> length a" "count + 8 \<le> length b" using less.prems by auto
  note s = block_step [OF less.prems(1) len, folded x_def]
  have go: "common_prefix_length a b (prefix_blocks a b lim (count + 8))" if "x = 0" "count + 8 + 8 < lim"
    unfolding lim_def using that s(1) len less.prems(1) common_prefix_shift [of count a b 8]
    by (intro less) (auto simp: lim_def)
  have fin: "common_prefix_length a b (if y \<noteq> 0 then lim - 8 + drop_bit 3 (nat (countr_zero y)) else lim)"
    if "x = 0" "\<not> count + 8 + 8 < lim"
  proof -
    have l: "lim - 8 + 8 \<le> length a" "lim - 8 + 8 \<le> length b" "lim - 8 \<le> count + 8" "lim - 8 + 8 = lim"
      using that less.prems by (auto simp: lim_def)
    have "take (count + 8) a = take (count + 8) b"
      using that s(1) len less.prems(1) common_prefix_shift [of count a b 8] by auto
    then have e: "take (lim - 8) a = take (lim - 8) b" using l(3) by (metis min.absorb1 take_take)
    note t = block_step [OF e l(1,2), folded y_def]
    have "common_prefix_length a b lim" if "y = 0"
      using that t(1) l common_prefix_shift [of "lim - 8" a b 8, OF e] by (auto simp: common_prefix_length_def lim_def)
    then show ?thesis using t(2) by simp
  qed
  show ?case unfolding lim_def [symmetric]
    by (subst prefix_blocks.simps)
      (simp only: Let_def x_def [symmetric] y_def [symmetric] split: if_split,
        use s(2) go fin [THEN iffD1 [OF if_split [of "common_prefix_length a b"]]] in blast)
qed

lemma FindLongestCommonPrefix_eq: "FindLongestCommonPrefix a b = longest_common_prefix a b"
  unfolding FindLongestCommonPrefix_def Let_def
  by (rule common_prefix_length_longest)
    (simp add: prefix_pairs_correct [of 0, simplified] prefix_blocks_correct [of 0, simplified] not_less)

lemma suffix_count_correct:
  assumes "take count (rev a) = take count (rev b)" "count \<le> min (length a) (length b)"
  shows "common_prefix_length (rev a) (rev b) (suffix_count a b (min (length a) (length b)) count)"
  using assms
proof (induction "length a - count" arbitrary: count rule: less_induct)
  case less
  define lim where "lim = min (length a) (length b)"
  have nth: "rev a ! count = a ! (length a - 1 - count)" "rev b ! count = b ! (length b - 1 - count)" if "count < lim"
    using that by (auto simp: lim_def rev_nth)
  show ?case
  proof (cases "count < lim \<and> a ! (length a - 1 - count) = b ! (length b - 1 - count)")
    case True
    then have "common_prefix_length (rev a) (rev b) (suffix_count a b lim (count + 1))"
      unfolding lim_def using less.prems nth by (intro less) (auto simp: lim_def take_Suc_conv_app_nth)
    then show ?thesis unfolding lim_def [symmetric] by (subst suffix_count.simps) (simp only: if_P [OF True])
  next
    case False
    then have "common_prefix_length (rev a) (rev b) count"
      using less.prems nth by (auto simp: common_prefix_length_def lim_def min_def split: if_splits)
    then show ?thesis unfolding lim_def [symmetric] by (subst suffix_count.simps) (simp only: if_not_P [OF False])
  qed
qed

lemma FindLongestCommonSuffix_eq: "rev (FindLongestCommonSuffix a b) = longest_common_prefix (rev a) (rev b)"
proof (cases "min (length a) (length b) = 0")
  case True
  then show ?thesis by (auto simp: FindLongestCommonSuffix_def min_def split: if_splits)
next
  case False
  define r where "r = suffix_count a b (min (length a) (length b)) 0"
  have c: "common_prefix_length (rev a) (rev b) r" using suffix_count_correct [of 0 a b] by (simp add: r_def)
  then have "r \<le> length a" by (simp add: common_prefix_length_def)
  then have "rev (FindLongestCommonSuffix a b) = take r (rev a)"
    using False by (simp only: FindLongestCommonSuffix_def substr_def Let_def r_def [symmetric] if_False) (simp add: take_rev)
  then show ?thesis using common_prefix_length_longest [OF c] by simp
qed

section \<open>Properties\<close>

text \<open>
  C19: The case-insensitive search returns, for every haystack and needle and on each of its paths (one
  character, prefiltered scan, Boyer-Moore-Horspool), and its answer is whether the lower-case needle is
  a substring of the lower-case haystack: the shift table never skips an occurrence.
\<close>

theorem str_contains_ignore_case:
  "StrContainsIgnoreCase haystack needle = Some (sublist (AsciiStrToLower needle) (AsciiStrToLower haystack))"
  unfolding StrContainsIgnoreCase_eq AsciiStrToLower_def AsciiStrCaseFold_def AsciiStrCaseFoldImpl_map by simp

text \<open>
  The prefix, suffix and substring tests decide the prefix, suffix and substring relations, and
  their case-insensitive versions the same relations on the lower-case strings.
\<close>

theorem prefix_suffix_tests:
  "StartsWith s t = prefix t s \<and> EndsWith s t = suffix t s \<and> StrContains s t = sublist t s \<and>
   EqualsIgnoreCase s t = (AsciiStrToLower s = AsciiStrToLower t) \<and>
   StartsWithIgnoreCase s t = prefix (AsciiStrToLower t) (AsciiStrToLower s) \<and>
   EndsWithIgnoreCase s t = suffix (AsciiStrToLower t) (AsciiStrToLower s)"
  unfolding StartsWith_iff EndsWith_iff StrContains_def find_str_iff EqualsIgnoreCase_iff StartsWithIgnoreCase_iff
    EndsWithIgnoreCase_iff AsciiStrToLower_def AsciiStrCaseFold_def AsciiStrCaseFoldImpl_map by simp

text \<open>
  C28: Comparing eight bytes at a time (and the last, overlapping block) FindLongestCommonPrefix returns
  the longest common prefix, and FindLongestCommonSuffix the longest common suffix.
\<close>

theorem longest_common_parts:
  "FindLongestCommonPrefix a b = longest_common_prefix a b \<and>
   rev (FindLongestCommonSuffix a b) = longest_common_prefix (rev a) (rev b)"
  by (simp only: FindLongestCommonPrefix_eq FindLongestCommonSuffix_eq)

end
