(* ===== verification/Base64.thy ===== *)
theory Base64
  imports Ascii "HOL-Library.Monad_Syntax"
begin

text \<open>
  Base64 of \<^verbatim>\<open>strings/escaping.cc\<close>: the encoder, with its block loop, tail and buffer checks, and the
  decoder, with its fast path on four characters at a time, the slow path that skips white space, the
  loop over the last characters and the checks of the padding. The two alphabets with their inverse
  tables are parameters of both, as in the code.
\<close>

section \<open>Tables\<close>

definition kBase64Chars :: string where
  "kBase64Chars = ''ABCDEFGHIJKLMNOPQRSTUVWXYZabcdefghijklmnopqrstuvwxyz0123456789+/''"

definition kWebSafeBase64Chars :: string where
  "kWebSafeBase64Chars = ''ABCDEFGHIJKLMNOPQRSTUVWXYZabcdefghijklmnopqrstuvwxyz0123456789-_''"

definition kUnBase64 :: "int list" where
  "kUnBase64 =
    [- 1, - 1, - 1, - 1, - 1, - 1, - 1, - 1,
    - 1, - 1, - 1, - 1, - 1, - 1, - 1, - 1,
    - 1, - 1, - 1, - 1, - 1, - 1, - 1, - 1,
    - 1, - 1, - 1, - 1, - 1, - 1, - 1, - 1,
    - 1, - 1, - 1, - 1, - 1, - 1, - 1, - 1,
    - 1, - 1, - 1, 62, - 1, - 1, - 1, 63,
    52, 53, 54, 55, 56, 57, 58, 59,
    60, 61, - 1, - 1, - 1, - 1, - 1, - 1,
    - 1, 0, 1, 2, 3, 4, 5, 6,
    7, 8, 9, 10, 11, 12, 13, 14,
    15, 16, 17, 18, 19, 20, 21, 22,
    23, 24, 25, - 1, - 1, - 1, - 1, - 1,
    - 1, 26, 27, 28, 29, 30, 31, 32,
    33, 34, 35, 36, 37, 38, 39, 40,
    41, 42, 43, 44, 45, 46, 47, 48,
    49, 50, 51, - 1, - 1, - 1, - 1, - 1,
    - 1, - 1, - 1, - 1, - 1, - 1, - 1, - 1,
    - 1, - 1, - 1, - 1, - 1, - 1, - 1, - 1,
    - 1, - 1, - 1, - 1, - 1, - 1, - 1, - 1,
    - 1, - 1, - 1, - 1, - 1, - 1, - 1, - 1,
    - 1, - 1, - 1, - 1, - 1, - 1, - 1, - 1,
    - 1, - 1, - 1, - 1, - 1, - 1, - 1, - 1,
    - 1, - 1, - 1, - 1, - 1, - 1, - 1, - 1,
    - 1, - 1, - 1, - 1, - 1, - 1, - 1, - 1,
    - 1, - 1, - 1, - 1, - 1, - 1, - 1, - 1,
    - 1, - 1, - 1, - 1, - 1, - 1, - 1, - 1,
    - 1, - 1, - 1, - 1, - 1, - 1, - 1, - 1,
    - 1, - 1, - 1, - 1, - 1, - 1, - 1, - 1,
    - 1, - 1, - 1, - 1, - 1, - 1, - 1, - 1,
    - 1, - 1, - 1, - 1, - 1, - 1, - 1, - 1,
    - 1, - 1, - 1, - 1, - 1, - 1, - 1, - 1,
    - 1, - 1, - 1, - 1, - 1, - 1, - 1, - 1]"

definition kUnWebSafeBase64 :: "int list" where
  "kUnWebSafeBase64 =
    [- 1, - 1, - 1, - 1, - 1, - 1, - 1, - 1,
    - 1, - 1, - 1, - 1, - 1, - 1, - 1, - 1,
    - 1, - 1, - 1, - 1, - 1, - 1, - 1, - 1,
    - 1, - 1, - 1, - 1, - 1, - 1, - 1, - 1,
    - 1, - 1, - 1, - 1, - 1, - 1, - 1, - 1,
    - 1, - 1, - 1, - 1, - 1, 62, - 1, - 1,
    52, 53, 54, 55, 56, 57, 58, 59,
    60, 61, - 1, - 1, - 1, - 1, - 1, - 1,
    - 1, 0, 1, 2, 3, 4, 5, 6,
    7, 8, 9, 10, 11, 12, 13, 14,
    15, 16, 17, 18, 19, 20, 21, 22,
    23, 24, 25, - 1, - 1, - 1, - 1, 63,
    - 1, 26, 27, 28, 29, 30, 31, 32,
    33, 34, 35, 36, 37, 38, 39, 40,
    41, 42, 43, 44, 45, 46, 47, 48,
    49, 50, 51, - 1, - 1, - 1, - 1, - 1,
    - 1, - 1, - 1, - 1, - 1, - 1, - 1, - 1,
    - 1, - 1, - 1, - 1, - 1, - 1, - 1, - 1,
    - 1, - 1, - 1, - 1, - 1, - 1, - 1, - 1,
    - 1, - 1, - 1, - 1, - 1, - 1, - 1, - 1,
    - 1, - 1, - 1, - 1, - 1, - 1, - 1, - 1,
    - 1, - 1, - 1, - 1, - 1, - 1, - 1, - 1,
    - 1, - 1, - 1, - 1, - 1, - 1, - 1, - 1,
    - 1, - 1, - 1, - 1, - 1, - 1, - 1, - 1,
    - 1, - 1, - 1, - 1, - 1, - 1, - 1, - 1,
    - 1, - 1, - 1, - 1, - 1, - 1, - 1, - 1,
    - 1, - 1, - 1, - 1, - 1, - 1, - 1, - 1,
    - 1, - 1, - 1, - 1, - 1, - 1, - 1, - 1,
    - 1, - 1, - 1, - 1, - 1, - 1, - 1, - 1,
    - 1, - 1, - 1, - 1, - 1, - 1, - 1, - 1,
    - 1, - 1, - 1, - 1, - 1, - 1, - 1, - 1,
    - 1, - 1, - 1, - 1, - 1, - 1, - 1, - 1]"

section \<open>Encoding\<close>

definition size_max :: int where
  "size_max = 2 ^ 64 - 1"

text \<open>The length of the encoding; None where the overflow check aborts.\<close>

definition CalculateBase64EscapedLenInternal :: "int \<Rightarrow> bool \<Rightarrow> int option" where
  "CalculateBase64EscapedLenInternal input_len do_padding =
    (let kMaxSize = (size_max - 1) div 4 * 3
     in if \<not> input_len \<le> kMaxSize then None
        else let len = (input_len div 3) * 4
             in Some (if input_len mod 3 = 0 then len
                      else if input_len mod 3 = 1 then let len = len + 2 in if do_padding then len + 2 else len
                      else let len = len + 3 in if do_padding then len + 1 else len))"

text \<open>The four characters for 24 bits.\<close>

definition quad :: "string \<Rightarrow> int \<Rightarrow> string" where
  "quad base64 x0 =
    (let c0 = base64 ! nat (drop_bit 18 x0); x1 = x0 AND 0x3FFFF;
         c1 = base64 ! nat (drop_bit 12 x1); x2 = x1 AND 0xFFF;
         c2 = base64 ! nat (drop_bit 6 x2); x3 = x2 AND 0x3F;
         c3 = base64 ! nat x3
     in [c0, c1, c2, c3])"

text \<open>Big-endian loads.\<close>

definition be16 :: "char \<Rightarrow> char \<Rightarrow> int" where
  "be16 a b = uc a * 2 ^ 8 + uc b"

definition be32 :: "char \<Rightarrow> char \<Rightarrow> char \<Rightarrow> char \<Rightarrow> int" where
  "be32 a b c d = uc a * 2 ^ 24 + uc b * 2 ^ 16 + uc c * 2 ^ 8 + uc d"

text \<open>The block loop: what it writes, and the tail of at most three bytes it leaves.\<close>

fun encode_blocks :: "string \<Rightarrow> string \<Rightarrow> string \<times> string" where
  "encode_blocks base64 (a # b # c # d # rest) =
    (let x = drop_bit 8 (be32 a b c d);
         (dest, tail) = encode_blocks base64 (d # rest)
     in (quad base64 x @ dest, tail))"
| "encode_blocks base64 src = ([], src)"

text \<open>
  The characters in the buffer up to the returned size; a return of 0 is the empty string. The sizes are
  64-bit, so both products of the first check wrap around.
\<close>

definition Base64EscapeInternal :: "string \<Rightarrow> nat \<Rightarrow> string \<Rightarrow> bool \<Rightarrow> string" where
  "Base64EscapeInternal src szdest base64 do_padding =
    (let szsrc = length src; kPad64 = CHR ''=''; kMaxSize = (size_max - 1) div 4 * 3
     in if int szsrc > kMaxSize \<or> (int szsrc * 4) mod (size_max + 1) > (int szdest * 3) mod (size_max + 1) then []
        else
          let (dest, tail) = encode_blocks base64 src; szdest = szdest - length dest
          in case tail of
            [] \<Rightarrow> dest
          | [a] \<Rightarrow>
              if szdest < 2 then []
              else let x = uc a; c0 = base64 ! nat (drop_bit 2 x); x = x AND 0x3;
                       c1 = base64 ! nat (push_bit 4 x); dest = dest @ [c0, c1]; szdest = szdest - 2
                   in if do_padding then if szdest < 2 then [] else dest @ [kPad64, kPad64] else dest
          | [a, b] \<Rightarrow>
              if szdest < 3 then []
              else let x = be16 a b; c0 = base64 ! nat (drop_bit 10 x); x = x AND 0x3FF;
                       c1 = base64 ! nat (drop_bit 4 x); x = x AND 0x00F;
                       c2 = base64 ! nat (push_bit 2 x); dest = dest @ [c0, c1, c2]; szdest = szdest - 3
                   in if do_padding then if szdest < 1 then [] else dest @ [kPad64] else dest
          | (a # b # c # _) \<Rightarrow>
              if szdest < 4 then [] else dest @ quad base64 (push_bit 16 (uc a) + be16 b c))"

definition Base64EscapeToStringInternal :: "string \<Rightarrow> bool \<Rightarrow> string \<Rightarrow> string option" where
  "Base64EscapeToStringInternal src do_padding base64_chars =
    do { calc_escaped_size \<leftarrow> CalculateBase64EscapedLenInternal (int (length src)) do_padding;
         Some (Base64EscapeInternal src (nat calc_escaped_size) base64_chars do_padding) }"

definition Base64Escape :: "string \<Rightarrow> string option" where
  "Base64Escape src = Base64EscapeToStringInternal src True kBase64Chars"

definition WebSafeBase64Escape :: "string \<Rightarrow> string option" where
  "WebSafeBase64Escape src = Base64EscapeToStringInternal src False kWebSafeBase64Chars"

section \<open>Decoding\<close>

text \<open>
  The locals of the decoder: the input that is left (\<^verbatim>\<open>src\<close> with \<^verbatim>\<open>szsrc\<close>), the bytes written to
  \<^verbatim>\<open>dest\<close> (\<^verbatim>\<open>destidx\<close> is their number), and the rest under their names.
\<close>

record decoder =
  src :: string
  dest :: string
  decode :: int
  state :: nat
  ch :: char
  temp :: "32 word"

text \<open>A decoder step reads past the input or stops the program, fails, or goes on.\<close>

datatype 'a outcome = Abort | Fail | Ok 'a

primrec andthen :: "'a outcome \<Rightarrow> ('a \<Rightarrow> 'b outcome) \<Rightarrow> 'b outcome" where
  "andthen Abort f = Abort"
| "andthen Fail f = Fail"
| "andthen (Ok x) f = f x"

text \<open>The table at a character, and the table as an \<^verbatim>\<open>unsigned int\<close>.\<close>

definition lookup :: "int list \<Rightarrow> char \<Rightarrow> int" where
  "lookup unbase64 c = unbase64 ! nat (uc c)"

text \<open>
  The macro \<^verbatim>\<open>GET_INPUT\<close>: the first component says whether control goes on after it or leaves the loop.
\<close>

function get_input :: "int list \<Rightarrow> nat \<Rightarrow> decoder \<Rightarrow> (bool \<times> decoder) outcome" where
  "get_input unbase64 remain s =
    (case src s of
       [] \<Rightarrow> Abort
     | c # rest \<Rightarrow>
         let s = s\<lparr>src := rest, ch := c, decode := lookup unbase64 c\<rparr>
         in if lookup unbase64 c < 0 then
              if ascii_isspace c \<and> length rest \<ge> remain then get_input unbase64 remain s
              else Ok (False, s\<lparr>state := 4 - remain\<rparr>)
            else Ok (True, s))"
  by auto
termination by (relation "measure (\<lambda>(unbase64, remain, s). length (src s))") auto

declare get_input.simps [simp del]

text \<open>One use of the macro with the update of \<^verbatim>\<open>temp\<close> that follows it, after an earlier use.\<close>

definition get_digit :: "int list \<Rightarrow> nat \<Rightarrow> bool \<times> decoder \<Rightarrow> (bool \<times> decoder) outcome" where
  "get_digit unbase64 remain r =
    (case r of (go, s) \<Rightarrow>
      if \<not> go then Ok r
      else andthen (get_input unbase64 remain s) (\<lambda>(go, s).
        Ok (go, if \<not> go then s
                else if remain = 4 then s\<lparr>temp := word_of_int (decode s)\<rparr>
                else s\<lparr>temp := push_bit 6 (temp s) OR word_of_int (decode s)\<rparr>)))"

definition slow_path :: "int list \<Rightarrow> decoder \<Rightarrow> (bool \<times> decoder) outcome" where
  "slow_path unbase64 s =
    andthen (get_digit unbase64 4 (True, s)) (\<lambda>r.
    andthen (get_digit unbase64 3 r) (\<lambda>r.
    andthen (get_digit unbase64 2 r) (\<lambda>r. get_digit unbase64 1 r)))"

text \<open>The fast path: four characters at once, if they are all good.\<close>

definition fast_word :: "int list \<Rightarrow> char \<Rightarrow> char \<Rightarrow> char \<Rightarrow> char \<Rightarrow> 32 word" where
  "fast_word unbase64 c0 c1 c2 c3 =
    push_bit 18 (word_of_int (lookup unbase64 c0)) OR push_bit 12 (word_of_int (lookup unbase64 c1)) OR
    push_bit 6 (word_of_int (lookup unbase64 c2)) OR word_of_int (lookup unbase64 c3)"

definition four :: "int list \<Rightarrow> decoder \<Rightarrow> (bool \<times> decoder) outcome" where
  "four unbase64 s =
    (case src s of
       c0 # c1 # c2 # c3 # rest \<Rightarrow>
         if c0 = CHR 0x00 \<or> c1 = CHR 0x00 \<or> c2 = CHR 0x00 then slow_path unbase64 s
         else let s = s\<lparr>temp := fast_word unbase64 c0 c1 c2 c3\<rparr>
              in if temp s AND 0x80000000 \<noteq> 0 then slow_path unbase64 s
                 else Ok (True, s\<lparr>src := rest\<rparr>)
     | _ \<Rightarrow> Abort)"

text \<open>Writing the 24 bits of \<^verbatim>\<open>temp\<close> as three bytes.\<close>

definition three_bytes :: "32 word \<Rightarrow> string" where
  "three_bytes t = [chr (uint (drop_bit 8 (drop_bit 8 t))), chr (uint (drop_bit 8 t)), chr (uint t)]"

text \<open>Every iteration takes input, so the loop ends.\<close>

lemma get_input_shorter: "get_input unbase64 remain s = Ok (go, s') \<Longrightarrow> length (src s') < length (src s)"
proof (induction unbase64 remain s rule: get_input.induct)
  case (1 unbase64 remain s)
  show ?case
  proof (cases "src s")
    case (Cons c rest)
    show ?thesis
    proof (cases "lookup unbase64 c < 0 \<and> ascii_isspace c \<and> length rest \<ge> remain")
      case True
      then show ?thesis using 1(1) [OF Cons refl] 1(2) Cons
        by (subst (asm) get_input.simps) (simp add: Let_def)
    next
      case False
      then show ?thesis using 1(2) Cons
        by (subst (asm) get_input.simps) (auto simp: Let_def split: if_splits)
    qed
  qed (use 1(2) in \<open>simp add: get_input.simps\<close>)
qed

lemma get_digit_shorter:
  "get_digit unbase64 remain (go, s) = Ok (go', s') \<Longrightarrow> length (src s') \<le> length (src s) \<and> (go \<longrightarrow> length (src s') < length (src s))"
proof (cases "get_input unbase64 remain s")
  case (Ok r)
  moreover assume "get_digit unbase64 remain (go, s) = Ok (go', s')"
  ultimately show ?thesis using get_input_shorter [of unbase64 remain s "fst r" "snd r"]
    by (cases r) (auto simp: get_digit_def split: if_splits)
qed (auto simp: get_digit_def split: if_splits)

lemma andthen_eq_Ok: "andthen r f = Ok y \<longleftrightarrow> (\<exists>x. r = Ok x \<and> f x = Ok y)"
  by (cases r) auto

lemma slow_path_shorter:
  assumes "slow_path unbase64 s = Ok (go, s')"
  shows "length (src s') < length (src s)"
proof -
  obtain g4 s4 g3 s3 g2 s2 where
    "get_digit unbase64 4 (True, s) = Ok (g4, s4)" "get_digit unbase64 3 (g4, s4) = Ok (g3, s3)"
    "get_digit unbase64 2 (g3, s3) = Ok (g2, s2)" "get_digit unbase64 1 (g2, s2) = Ok (go, s')"
    using assms unfolding slow_path_def andthen_eq_Ok by (metis surj_pair)
  then show ?thesis by (auto dest!: get_digit_shorter)
qed

lemma four_shorter: "four unbase64 s = Ok (go, s') \<Longrightarrow> length (src s') < length (src s)"
  unfolding four_def
  by (auto simp: Let_def split: list.splits if_splits dest!: slow_path_shorter)

function decode_loop :: "int list \<Rightarrow> nat \<Rightarrow> decoder \<Rightarrow> decoder outcome" where
  "decode_loop unbase64 szdest s =
    (if length (src s) \<ge> 4 then
       case four unbase64 s of
         Abort \<Rightarrow> Abort
       | Fail \<Rightarrow> Fail
       | Ok (go, s') \<Rightarrow>
           if \<not> go then Ok s'
           else if length (dest s') + 3 > szdest then Fail
           else decode_loop unbase64 szdest
                  (s'\<lparr>dest := dest s' @ three_bytes (temp s'), temp := drop_bit 8 (drop_bit 8 (temp s'))\<rparr>)
     else Ok s)"
  by auto
termination
  by (relation "measure (\<lambda>(unbase64, szdest, s). length (src s))") (auto dest!: sym [of _ "four _ _"] four_shorter)

declare decode_loop.simps [simp del]

definition is_pad :: "char \<Rightarrow> bool" where
  "is_pad c = (c = CHR ''='' \<or> c = CHR ''.'')"

text \<open>The loop over the last characters.\<close>

function tail_loop :: "int list \<Rightarrow> nat \<Rightarrow> decoder \<Rightarrow> decoder outcome" where
  "tail_loop unbase64 szdest s =
    (case src s of
       [] \<Rightarrow> Ok s
     | c # rest \<Rightarrow>
         let s = s\<lparr>src := rest, ch := c, decode := lookup unbase64 c\<rparr>
         in if lookup unbase64 c < 0 then
              if ascii_isspace c then tail_loop unbase64 szdest s
              else if is_pad c then Ok (s\<lparr>src := c # rest\<rparr>)
              else Fail
            else
              let t = push_bit 6 (temp s) OR word_of_int (lookup unbase64 c)
              in if state s + 1 = 4 then
                   if length (dest s) + 3 > szdest then Fail
                   else tail_loop unbase64 szdest (s\<lparr>dest := dest s @ three_bytes t, state := 0, temp := 0\<rparr>)
                 else tail_loop unbase64 szdest (s\<lparr>temp := t, state := state s + 1\<rparr>))"
  by auto
termination by (relation "measure (\<lambda>(unbase64, szdest, s). length (src s))") auto

declare tail_loop.simps [simp del]

text \<open>The bytes left over in \<^verbatim>\<open>temp\<close>, with the number of pad characters that may follow.\<close>

definition leftover :: "nat \<Rightarrow> decoder \<Rightarrow> (string \<times> nat) outcome" where
  "leftover szdest s =
    (if state s = 0 then Ok (dest s, 0)
     else if state s = 1 then Fail
     else if state s = 2 then
       if length (dest s) + 1 > szdest then Fail
       else Ok (dest s @ [chr (uint (drop_bit 4 (temp s)))], 2)
     else if state s = 3 then
       if length (dest s) + 2 > szdest then Fail
       else let t = drop_bit 2 (temp s)
            in Ok (dest s @ [chr (uint (drop_bit 8 t)), chr (uint t)], 1)
     else Abort)"

primrec count_equals :: "string \<Rightarrow> nat \<Rightarrow> nat outcome" where
  "count_equals [] equals = Ok equals"
| "count_equals (c # rest) equals =
    (if is_pad c then count_equals rest (equals + 1)
     else if \<not> ascii_isspace c then Fail
     else count_equals rest equals)"

definition Base64UnescapeInternal :: "int list \<Rightarrow> string \<Rightarrow> nat \<Rightarrow> string outcome" where
  "Base64UnescapeInternal unbase64 src_param szdest =
    andthen (decode_loop unbase64 szdest
        \<lparr>src = src_param, dest = [], decode = 0, state = 0, ch = CHR 0x00, temp = 0\<rparr>) (\<lambda>s.
    if decode s < 0 \<and> \<not> is_pad (ch s) \<and> \<not> ascii_isspace (ch s) then Fail
    else
      andthen (if is_pad (ch s) then Ok (s\<lparr>src := ch s # src s\<rparr>) else tail_loop unbase64 szdest s) (\<lambda>s.
      andthen (leftover szdest s) (\<lambda>(dest, expected_equals).
      andthen (count_equals (src s) 0) (\<lambda>equals.
      if equals = 0 \<or> equals = expected_equals then Ok dest else Fail))))"

text \<open>The wrapper that sizes the buffer: success and the contents of the string.\<close>

definition Base64UnescapeToString :: "int list \<Rightarrow> string \<Rightarrow> (bool \<times> string) outcome" where
  "Base64UnescapeToString unbase64 source =
    (let slen = length source; dest_len = 3 * (slen div 4) + slen mod 4
     in case Base64UnescapeInternal unbase64 source dest_len of
          Abort \<Rightarrow> Abort
        | Fail \<Rightarrow> Ok (False, [])
        | Ok d \<Rightarrow> Ok (True, d))"

definition Base64Unescape :: "string \<Rightarrow> (bool \<times> string) outcome" where
  "Base64Unescape source = Base64UnescapeToString kUnBase64 source"

definition WebSafeBase64Unescape :: "string \<Rightarrow> (bool \<times> string) outcome" where
  "WebSafeBase64Unescape source = Base64UnescapeToString kUnWebSafeBase64 source"

section \<open>Reference decoder\<close>

text \<open>The bytes of a sequence of six-bit digits.\<close>

fun decode_digits :: "int list \<Rightarrow> string" where
  "decode_digits (a # b # c # d # r) =
    (let n = a * 2 ^ 18 + b * 2 ^ 12 + c * 2 ^ 6 + d
     in chr (n div 2 ^ 16) # chr (n div 2 ^ 8) # chr n # decode_digits r)"
| "decode_digits [a, b, c] =
    (let n = a * 2 ^ 12 + b * 2 ^ 6 + c in [chr (n div 2 ^ 10), chr (n div 2 ^ 2)])"
| "decode_digits [a, b] = [chr ((a * 2 ^ 6 + b) div 2 ^ 4)]"
| "decode_digits _ = []"

text \<open>
  What the decoder should do: ignore white space; the data characters, at least two in the last group,
  followed by nothing or by exactly the pad characters that complete the group.
\<close>

definition base64_decodes :: "int list \<Rightarrow> string \<Rightarrow> string option" where
  "base64_decodes unbase64 input =
    (let t = filter (\<lambda>c. \<not> ascii_isspace c) input;
         d = takeWhile (\<lambda>c. 0 \<le> lookup unbase64 c) t;
         p = dropWhile (\<lambda>c. 0 \<le> lookup unbase64 c) t
     in if list_all is_pad p \<and> length d mod 4 \<noteq> 1 \<and> (p = [] \<or> length p = (4 - length d mod 4) mod 4)
        then Some (decode_digits (map (lookup unbase64) d)) else None)"

lemma dvd_4_drop:
  "4 dvd Suc (Suc (Suc (Suc n))) \<longleftrightarrow> 4 dvd n" "\<not> 4 dvd Suc (Suc (Suc 0))" "\<not> 4 dvd Suc (Suc 0)"
  by presburger+

lemma decode_digits_append: "4 dvd length q \<Longrightarrow> decode_digits (q @ r) = decode_digits q @ decode_digits r"
  by (induction q rule: decode_digits.induct) (auto simp: Let_def dvd_4_drop)

lemma length_decode_digits: "4 dvd length q \<Longrightarrow> 4 * length (decode_digits q) = 3 * length q"
  by (induction q rule: decode_digits.induct) (auto simp: Let_def dvd_4_drop)

section \<open>Accumulated bits\<close>

definition low :: "nat \<Rightarrow> 32 word \<Rightarrow> int" where
  "low k t = uint t mod 2 ^ (6 * k)"

definition horner :: "int list \<Rightarrow> int" where
  "horner ds = fold (\<lambda>d v. v * 64 + d) ds 0"

lemma horner_snoc: "horner (ds @ [d]) = horner ds * 64 + d"
  by (simp add: horner_def)

lemma low_0 [simp]: "low 0 t = 0"
  by (simp add: low_def)

lemma push_or: "0 \<le> d \<Longrightarrow> d < 64 \<Longrightarrow> push_bit 6 t OR word_of_int d = push_bit 6 t + (word_of_int d :: 32 word)"
proof -
  assume d: "0 \<le> d" "d < 64"
  then have "take_bit 6 d = d" by (simp add: take_bit_int_eq_self)
  then have "\<not> bit d n" if "6 \<le> n" for n using that by (metis bit_take_bit_iff not_less)
  then have "\<And>n. \<not> bit (push_bit 6 t) n \<or> \<not> bit (word_of_int d :: 32 word) n" by (auto simp: bit_simps)
  then show ?thesis by (simp add: disjunctive_add)
qed

lemma low_push:
  assumes d: "0 \<le> d" "d < 64" and k: "k < 4"
  shows "low (k + 1) (push_bit 6 t OR word_of_int d) = low k t * 64 + d"
proof -
  have "uint (push_bit 6 t + (word_of_int d :: 32 word)) mod 2 ^ (6 * (k + 1)) = (uint t * 64 + d) mod 2 ^ (6 * (k + 1))"
  proof -
    have "uint (push_bit 6 t + (word_of_int d :: 32 word)) = (uint t * 64 + d) mod 2 ^ 32"
      by (simp add: uint_word_ariths push_bit_eq_mult uint_word_of_int mod_simps)
    moreover have "(2::int) ^ (6 * (k + 1)) dvd 2 ^ 32" using k by (intro le_imp_power_dvd) simp
    ultimately show ?thesis by (simp only: mod_mod_cancel)
  qed
  also have "(uint t * 64 + d) mod 2 ^ (6 * (k + 1)) = uint t mod 2 ^ (6 * k) * 64 + d"
  proof -
    have "(2::int) ^ (6 * (k + 1)) = 64 * 2 ^ (6 * k)" by (simp add: power_add)
    then have "(uint t * 64 + d) mod 2 ^ (6 * (k + 1)) =
        64 * ((uint t * 64 + d) div 64 mod 2 ^ (6 * k)) + (uint t * 64 + d) mod 64"
      by (simp only: zmod_zmult2_eq zero_le_power zero_le_numeral)
    moreover have "(uint t * 64 + d) div 64 = uint t" "(uint t * 64 + d) mod 64 = d"
      using d by simp_all
    ultimately show ?thesis by simp
  qed
  finally show ?thesis using d by (simp add: low_def push_or)
qed

lemma low_1: "0 \<le> d \<Longrightarrow> d < 64 \<Longrightarrow> low 1 (word_of_int d) = d"
  using low_push [of d 0 0] by simp

text \<open>Bytes of the accumulator only depend on its low bits.\<close>

lemma chr_mod: "chr (i mod 256) = chr i"
  by (simp add: chr_def)

lemma chr_drop:
  assumes "j + 8 \<le> 6 * k"
  shows "chr (uint (drop_bit j (t :: 32 word))) = chr (low k t div 2 ^ j)"
proof -
  define x where "x = uint t"
  obtain e where e: "6 * k = j + 8 + e" using assms by (metis le_Suc_ex)
  have p: "(2::int) ^ (6 * k) = 2 ^ j * 2 ^ (8 + e)" unfolding e by (simp add: power_add)
  have "x mod 2 ^ (6 * k) = 2 ^ j * (x div 2 ^ j mod 2 ^ (8 + e)) + x mod 2 ^ j"
    unfolding p by (rule zmod_zmult2_eq) simp
  then have "x mod 2 ^ (6 * k) div 2 ^ j = x div 2 ^ j mod 2 ^ (8 + e)" by simp
  then have "x mod 2 ^ (6 * k) div 2 ^ j mod 256 = x div 2 ^ j mod 2 ^ (8 + e) mod 256" by (simp only:)
  also have "\<dots> = x div 2 ^ j mod 256"
    by (rule mod_mod_cancel) (simp add: power_add)
  finally have "chr (x mod 2 ^ (6 * k) div 2 ^ j) = chr (x div 2 ^ j)" by (metis chr_mod)
  moreover have "uint (drop_bit j t) = x div 2 ^ j"
    unfolding unsigned_drop_bit_eq using unsigned_less [of t, where ?'a = int]
    by (simp add: x_def drop_bit_eq_div take_bit_int_eq_self)
  ultimately show ?thesis by (simp add: low_def x_def)
qed

lemma three_bytes_low:
  "three_bytes t = [chr (low 4 t div 2 ^ 16), chr (low 4 t div 2 ^ 8), chr (low 4 t)]"
  using chr_drop [of 16 4 t] chr_drop [of 8 4 t] chr_drop [of 0 4 t] by (simp add: three_bytes_def)

lemma pad_not_space: "is_pad c \<Longrightarrow> \<not> ascii_isspace c"
  unfolding is_pad_def ascii_isspace_iff by auto

section \<open>The decoder on an alphabet\<close>

text \<open>
  What the code relies on in a pair of tables: the inverse table maps the characters of the alphabet
  to their positions and white space, pad characters and the null character to \<^verbatim>\<open>-1\<close>.
\<close>

locale base64_code =
  fixes base64 :: string and unbase64 :: "int list"
  assumes base64_length: "length base64 = 64"
    and lookup_base64: "i < 64 \<Longrightarrow> lookup unbase64 (base64 ! i) = int i"
    and lookup_less: "lookup unbase64 c < 64"
    and lookup_ge: "- 1 \<le> lookup unbase64 c"
    and lookup_special: "ascii_isspace c \<or> is_pad c \<or> c = CHR 0x00 \<Longrightarrow> lookup unbase64 c < 0"
begin

definition good :: "string \<Rightarrow> bool" where
  "good u \<longleftrightarrow> (\<forall>c \<in> set u. ascii_isspace c \<or> 0 \<le> lookup unbase64 c)"

definition digits :: "string \<Rightarrow> int list" where
  "digits u = map (lookup unbase64) (filter (\<lambda>c. \<not> ascii_isspace c) u)"

lemma good_append [simp]: "good (u @ v) \<longleftrightarrow> good u \<and> good v" "good [c] \<longleftrightarrow> ascii_isspace c \<or> 0 \<le> lookup unbase64 c" "good []"
  by (auto simp: good_def)

lemma digits_append [simp]: "digits (u @ v) = digits u @ digits v" "digits [] = []"
  by (simp_all add: digits_def)

lemma not_space: "0 \<le> lookup unbase64 c \<Longrightarrow> \<not> ascii_isspace c \<and> \<not> is_pad c"
  using lookup_special by force

lemma digits_one: "0 \<le> lookup unbase64 c \<Longrightarrow> digits [c] = [lookup unbase64 c]" "ascii_isspace c \<Longrightarrow> digits [c] = []"
  by (simp_all add: digits_def not_space)

lemma digits_spaces: "\<forall>c \<in> set u. ascii_isspace c \<Longrightarrow> good u \<and> digits u = []"
  by (simp add: good_def digits_def)

lemma length_digits: "length (digits u) \<le> length u"
  by (simp add: digits_def)

text \<open>
  The state after reading \<^term>\<open>u\<close> of the input: the complete groups are written, and the low bits of the
  accumulator are the \<^term>\<open>k\<close> digits of the group that is being read.
\<close>

definition consumed :: "string \<Rightarrow> string \<Rightarrow> decoder \<Rightarrow> nat \<Rightarrow> bool" where
  "consumed input u s k \<longleftrightarrow> input = u @ src s \<and> good u \<and>
    (\<exists>q r. digits u = q @ r \<and> 4 dvd length q \<and> length r = k \<and> dest s = decode_digits q \<and> low k (temp s) = horner r)"

lemma consumed_space:
  assumes "consumed input u s k" "src s = sp @ rest" "\<forall>c \<in> set sp. ascii_isspace c" "s' = s\<lparr>src := rest, ch := x, decode := y\<rparr>"
  shows "consumed input (u @ sp) s' k"
  using assms digits_spaces [of sp] by (auto simp: consumed_def)

lemma consumed_digit:
  assumes "consumed input u s k" "src s = c # rest" "0 \<le> lookup unbase64 c" "k < 4"
    and "s' = s\<lparr>src := rest, ch := x, decode := y, temp := push_bit 6 (temp s) OR word_of_int (lookup unbase64 c)\<rparr>"
  shows "consumed input (u @ [c]) s' (k + 1)"
proof -
  obtain q r where q: "digits u = q @ r" "4 dvd length q" "length r = k" "dest s = decode_digits q" "low k (temp s) = horner r"
    using assms(1) by (auto simp: consumed_def)
  have "low (k + 1) (push_bit 6 (temp s) OR word_of_int (lookup unbase64 c)) = horner (r @ [lookup unbase64 c])"
    using low_push [OF assms(3) lookup_less assms(4)] q(5) by (simp add: horner_snoc)
  moreover have "digits (u @ [c]) = q @ r @ [lookup unbase64 c]" using q(1) digits_one(1) [OF assms(3)] by simp
  ultimately show ?thesis using assms(1,2,3,5) q by (fastforce simp: consumed_def)
qed

text \<open>Writing a complete group starts the next one.\<close>

lemma horner_4: "horner [a, b, c, d] = a * 2 ^ 18 + b * 2 ^ 12 + c * 2 ^ 6 + d"
  by (simp add: horner_def)

lemma consumed_group:
  assumes "consumed input u s 4"
  shows "consumed input u (s\<lparr>dest := dest s @ three_bytes (temp s), temp := t, state := n\<rparr>) 0"
    and "4 * (length (dest s) + 3) \<le> 3 * length input"
proof -
  obtain q r where q: "digits u = q @ r" "4 dvd length q" "length r = 4" "dest s = decode_digits q" "low 4 (temp s) = horner r"
    using assms by (auto simp: consumed_def)
  obtain a b c d where r: "r = [a, b, c, d]" using q(3) by (auto simp: numeral_eq_Suc length_Suc_conv)
  have "three_bytes (temp s) = decode_digits r" unfolding three_bytes_low q(5) r horner_4 by (simp add: Let_def)
  then have "dest s @ three_bytes (temp s) = decode_digits (q @ r)" using q(2,4) by (simp add: decode_digits_append)
  moreover have "4 dvd length (q @ r)" using q(2,3) by simp
  ultimately show "consumed input u (s\<lparr>dest := dest s @ three_bytes (temp s), temp := t, state := n\<rparr>) 0"
    using assms q(1) by (auto simp: consumed_def horner_def)
  have "4 * length (dest s) = 3 * length q" using length_decode_digits [OF q(2)] q(4) by simp
  moreover have "length q + 4 \<le> length input"
    using arg_cong [OF q(1), of length] length_digits [of u] q(3) assms by (simp add: consumed_def)
  ultimately show "4 * (length (dest s) + 3) \<le> 3 * length input" by simp
qed

section \<open>The main loop\<close>

lemma get_input_spec:
  assumes "remain \<le> length (src s)" "0 < remain"
  shows "\<exists>sp c rest. src s = sp @ c # rest \<and> (\<forall>x \<in> set sp. ascii_isspace x) \<and>
    (let s' = s\<lparr>src := rest, ch := c, decode := lookup unbase64 c\<rparr> in
     if 0 \<le> lookup unbase64 c then get_input unbase64 remain s = Ok (True, s') \<and> remain - 1 \<le> length rest
     else get_input unbase64 remain s = Ok (False, s'\<lparr>state := 4 - remain\<rparr>))"
  using assms
proof (induction "length (src s)" arbitrary: s rule: less_induct)
  case less
  obtain c rest where c: "src s = c # rest" using less.prems by (cases "src s") auto
  show ?case
  proof (cases "ascii_isspace c \<and> remain \<le> length rest")
    case True
    define s1 where "s1 = s\<lparr>src := rest, ch := c, decode := lookup unbase64 c\<rparr>"
    have "lookup unbase64 c < 0" using True lookup_special by simp
    then have "get_input unbase64 remain s = get_input unbase64 remain s1"
      using True c by (subst get_input.simps) (simp add: Let_def s1_def)
    moreover from less.hyps [of s1] obtain sp c' rest' where "rest = sp @ c' # rest'" "\<forall>x \<in> set sp. ascii_isspace x"
      "let s' = s1\<lparr>src := rest', ch := c', decode := lookup unbase64 c'\<rparr> in
       if 0 \<le> lookup unbase64 c' then get_input unbase64 remain s1 = Ok (True, s') \<and> remain - 1 \<le> length rest'
       else get_input unbase64 remain s1 = Ok (False, s'\<lparr>state := 4 - remain\<rparr>)"
      using True c less.prems by (auto simp: s1_def)
    ultimately show ?thesis using c True
      by - (rule exI [of _ "c # sp"], rule exI [of _ c'], rule exI [of _ rest'], simp add: s1_def Let_def split: if_splits)
  next
    case False
    then have "if 0 \<le> lookup unbase64 c
      then get_input unbase64 remain s = Ok (True, s\<lparr>src := rest, ch := c, decode := lookup unbase64 c\<rparr>)
      else get_input unbase64 remain s = Ok (False, s\<lparr>src := rest, ch := c, decode := lookup unbase64 c, state := 4 - remain\<rparr>)"
      using c by (subst (1 2) get_input.simps) (auto simp: Let_def)
    then show ?thesis using c less.prems
      by - (rule exI [of _ "[]"], rule exI [of _ c], rule exI [of _ rest], auto simp: Let_def)
  qed
qed

text \<open>How the loop is left early: at a character that is no digit, after \<^term>\<open>k\<close> digits of a group.\<close>

definition stopped :: "string \<Rightarrow> decoder \<Rightarrow> bool" where
  "stopped input s \<longleftrightarrow> decode s < 0 \<and> decode s = lookup unbase64 (ch s) \<and> state s < 4 \<and>
    (\<exists>u. if ascii_isspace (ch s) then consumed input u s (state s)
         else consumed input u (s\<lparr>src := ch s # src s\<rparr>) (state s))"

definition running :: "string \<Rightarrow> decoder \<Rightarrow> nat \<Rightarrow> bool" where
  "running input s k \<longleftrightarrow> \<not> decode s < 0 \<and> \<not> is_pad (ch s) \<and> state s = 0 \<and> (\<exists>u. consumed input u s k)"

lemma get_digit_spec:
  assumes "running input s k" "k < 4" "4 - k \<le> length (src s)"
  shows "\<exists>go s'. get_digit unbase64 (4 - k) (True, s) = Ok (go, s') \<and>
    (if go then running input s' (k + 1) \<and> 4 - (k + 1) \<le> length (src s') else stopped input s')"
proof -
  obtain u where u: "consumed input u s k" using assms(1) by (auto simp: running_def)
  obtain sp c rest where g: "src s = sp @ c # rest" "\<forall>x \<in> set sp. ascii_isspace x"
    "let s' = s\<lparr>src := rest, ch := c, decode := lookup unbase64 c\<rparr> in
     if 0 \<le> lookup unbase64 c then get_input unbase64 (4 - k) s = Ok (True, s') \<and> 4 - k - 1 \<le> length rest
     else get_input unbase64 (4 - k) s = Ok (False, s'\<lparr>state := 4 - (4 - k)\<rparr>)"
    using get_input_spec [OF assms(3)] assms(2) by auto
  have sp: "consumed input (u @ sp) (s\<lparr>src := c # rest, ch := x, decode := y\<rparr>) k" for x y
    using consumed_space [OF u g(1,2)] by simp
  show ?thesis
  proof (cases "0 \<le> lookup unbase64 c")
    case True
    define t where "t = push_bit 6 (temp s) OR word_of_int (lookup unbase64 c)"
    define w where "w = (if k = 0 then word_of_int (lookup unbase64 c) else t)"
    have "consumed input ((u @ sp) @ [c]) (s\<lparr>src := rest, ch := c, decode := lookup unbase64 c, temp := t\<rparr>) (k + 1)"
      by (rule consumed_digit [OF sp [of "lookup unbase64 c" c] _ True assms(2)]) (simp_all add: t_def)
    moreover have "low (k + 1) w = low (k + 1) t"
      using low_push [OF True lookup_less assms(2), of "temp s"] low_1 [OF True lookup_less]
      by (simp add: w_def t_def)
    ultimately have "consumed input ((u @ sp) @ [c]) (s\<lparr>src := rest, ch := c, decode := lookup unbase64 c, temp := w\<rparr>) (k + 1)"
      by (auto simp: consumed_def)
    moreover have "get_digit unbase64 (4 - k) (True, s) = Ok (True, s\<lparr>src := rest, ch := c, decode := lookup unbase64 c, temp := w\<rparr>)"
      using g(3) True assms(2) by (auto simp: get_digit_def Let_def w_def t_def)
    ultimately show ?thesis using g(3) True assms(1,2) not_space [OF True] by (auto simp: running_def Let_def)
  next
    case False
    define s' where "s' = s\<lparr>src := rest, ch := c, decode := lookup unbase64 c, state := k\<rparr>"
    have "get_digit unbase64 (4 - k) (True, s) = Ok (False, s')"
      using g(3) False assms(2) by (simp add: get_digit_def Let_def s'_def)
    moreover have "stopped input s'"
    proof (cases "ascii_isspace c")
      case True
      have "consumed input (u @ sp @ [c]) (s\<lparr>src := rest, ch := c, decode := lookup unbase64 c\<rparr>) k"
        by (rule consumed_space [OF u]) (use g(1,2) True in auto)
      then show ?thesis using False True assms(2) by (auto simp: stopped_def s'_def consumed_def)
    next
      case nsp: False
      have "consumed input (u @ sp) (s\<lparr>src := c # rest, ch := c, decode := lookup unbase64 c\<rparr>) k" by (rule sp)
      then show ?thesis using False nsp assms(2) by (auto simp: stopped_def s'_def consumed_def)
    qed
    ultimately show ?thesis by (intro exI [of _ False] exI [of _ s']) simp
  qed
qed

text \<open>The slow path reads a whole group or stops.\<close>

lemma slow_path_spec:
  assumes "running input s 0" "4 \<le> length (src s)"
  shows "\<exists>go s'. slow_path unbase64 s = Ok (go, s') \<and> (if go then running input s' 4 else stopped input s')"
proof -
  have stop: "get_digit unbase64 n (False, s') = Ok (False, s')" for n s' by (simp add: get_digit_def)
  have step: "\<exists>go' s''. get_digit unbase64 (4 - k) (go, s') = Ok (go', s'') \<and>
      (if go' then running input s'' (k + 1) \<and> 4 - (k + 1) \<le> length (src s'') else stopped input s'')"
    if "if go then running input s' k \<and> 4 - k \<le> length (src s') else stopped input s'" "k < 4" for go s' k
    using that get_digit_spec [of input s' k] stop by (cases go) auto
  obtain g1 s1 where 1: "get_digit unbase64 (4 - 0) (True, s) = Ok (g1, s1)"
    "if g1 then running input s1 (0 + 1) \<and> 4 - (0 + 1) \<le> length (src s1) else stopped input s1"
    using step [of True s 0] assms by auto
  obtain g2 s2 where 2: "get_digit unbase64 (4 - (0 + 1)) (g1, s1) = Ok (g2, s2)"
    "if g2 then running input s2 (0 + 1 + 1) \<and> 4 - (0 + 1 + 1) \<le> length (src s2) else stopped input s2"
    using step [OF 1(2)] by auto
  obtain g3 s3 where 3: "get_digit unbase64 (4 - (0 + 1 + 1)) (g2, s2) = Ok (g3, s3)"
    "if g3 then running input s3 (0 + 1 + 1 + 1) \<and> 4 - (0 + 1 + 1 + 1) \<le> length (src s3) else stopped input s3"
    using step [OF 2(2)] by auto
  obtain g4 s4 where 4: "get_digit unbase64 (4 - (0 + 1 + 1 + 1)) (g3, s3) = Ok (g4, s4)"
    "if g4 then running input s4 (0 + 1 + 1 + 1 + 1) \<and> 4 - (0 + 1 + 1 + 1 + 1) \<le> length (src s4) else stopped input s4"
    using step [OF 3(2)] by auto
  have "slow_path unbase64 s = Ok (g4, s4)"
    using 1(1) 2(1) 3(1) 4(1) by (simp add: slow_path_def)
  then show ?thesis using 4(2)
    by (intro exI [of _ g4] exI [of _ s4]) (auto simp: numeral_eq_Suc split: if_splits)
qed

text \<open>The fast path is taken only for four data characters: a bad one sets the top bit of the word.\<close>

lemma minus_one_top: "bit (push_bit n (word_of_int d :: 32 word)) 31 \<longleftrightarrow> d < 0" if "- 1 \<le> d" "d < 64" "n \<le> 18"
proof (cases "d = - 1")
  case True
  then show ?thesis using that(3) by (simp add: bit_simps)
next
  case False
  then have d: "0 \<le> d" using that(1) by simp
  have "take_bit 6 d = d" using d that(2) by (simp add: take_bit_int_eq_self)
  moreover have "\<not> 31 - n < 6" using that(3) by simp
  ultimately have "\<not> bit d (31 - n)" by (metis bit_take_bit_iff)
  then show ?thesis using d by (simp add: bit_simps)
qed

lemma fast_word_top:
  "fast_word unbase64 c0 c1 c2 c3 AND 0x80000000 \<noteq> 0 \<longleftrightarrow>
    lookup unbase64 c0 < 0 \<or> lookup unbase64 c1 < 0 \<or> lookup unbase64 c2 < 0 \<or> lookup unbase64 c3 < 0"
proof -
  have "fast_word unbase64 c0 c1 c2 c3 AND 0x80000000 \<noteq> 0 \<longleftrightarrow> bit (fast_word unbase64 c0 c1 c2 c3) 31"
    using and_exp_eq_0_iff_not_bit [of "fast_word unbase64 c0 c1 c2 c3" 31] by simp
  then show ?thesis
    using minus_one_top [OF lookup_ge lookup_less, of 18] minus_one_top [OF lookup_ge lookup_less, of 12]
      minus_one_top [OF lookup_ge lookup_less, of 6] minus_one_top [OF lookup_ge lookup_less, of 0]
    by (simp add: fast_word_def bit_or_iff)
qed

lemma low_fast_word:
  assumes "0 \<le> lookup unbase64 c0" "0 \<le> lookup unbase64 c1" "0 \<le> lookup unbase64 c2" "0 \<le> lookup unbase64 c3"
  shows "low 4 (fast_word unbase64 c0 c1 c2 c3) = horner (map (lookup unbase64) [c0, c1, c2, c3])"
proof -
  define t1 :: "32 word" where "t1 = word_of_int (lookup unbase64 c0)"
  define t2 where "t2 = push_bit 6 t1 OR word_of_int (lookup unbase64 c1)"
  define t3 where "t3 = push_bit 6 t2 OR word_of_int (lookup unbase64 c2)"
  have "fast_word unbase64 c0 c1 c2 c3 = push_bit 6 t3 OR word_of_int (lookup unbase64 c3)"
    by (simp add: fast_word_def t1_def t2_def t3_def push_bit_or or.assoc)
  then have "low 4 (fast_word unbase64 c0 c1 c2 c3) = low 3 t3 * 64 + lookup unbase64 c3"
    using low_push [OF assms(4) lookup_less, of 3] by simp
  moreover have "low 3 t3 = low 2 t2 * 64 + lookup unbase64 c2"
    unfolding t3_def using low_push [OF assms(3) lookup_less, of 2] by simp
  moreover have "low 2 t2 = low 1 t1 * 64 + lookup unbase64 c1"
    unfolding t2_def using low_push [OF assms(2) lookup_less, of 1] by (simp add: numeral_2_eq_2)
  moreover have "low 1 t1 = lookup unbase64 c0" unfolding t1_def by (rule low_1 [OF assms(1) lookup_less])
  ultimately show ?thesis by (simp add: horner_def)
qed

lemma four_spec:
  assumes "running input s 0" "4 \<le> length (src s)"
  shows "\<exists>go s'. four unbase64 s = Ok (go, s') \<and> (if go then running input s' 4 else stopped input s')"
proof -
  obtain c0 c1 c2 c3 rest where c: "src s = c0 # c1 # c2 # c3 # rest"
    using assms(2) by (auto simp: numeral_eq_Suc Suc_le_length_iff)
  define w where "w = fast_word unbase64 c0 c1 c2 c3"
  have run: "running input (s\<lparr>temp := w\<rparr>) 0" using assms(1) by (auto simp: running_def consumed_def)
  show ?thesis
  proof (cases "c0 = CHR 0x00 \<or> c1 = CHR 0x00 \<or> c2 = CHR 0x00 \<or> w AND 0x80000000 \<noteq> 0")
    case True
    then have "four unbase64 s = slow_path unbase64 s \<or> four unbase64 s = slow_path unbase64 (s\<lparr>temp := w\<rparr>)"
      unfolding four_def c by (auto simp: Let_def w_def)
    moreover have "4 \<le> length (src (s\<lparr>temp := w\<rparr>))" using assms(2) by simp
    ultimately show ?thesis using slow_path_spec [OF assms] slow_path_spec [OF run] by metis
  next
    case False
    then have valid: "0 \<le> lookup unbase64 c0" "0 \<le> lookup unbase64 c1" "0 \<le> lookup unbase64 c2" "0 \<le> lookup unbase64 c3"
      using fast_word_top [of c0 c1 c2 c3] by (auto simp: w_def not_less)
    obtain u where u: "consumed input u s 0" using assms(1) by (auto simp: running_def)
    have dig: "digits (u @ [c0, c1, c2, c3]) = digits u @ map (lookup unbase64) [c0, c1, c2, c3]"
      "good [c0, c1, c2, c3]"
      using valid not_space by (auto simp: digits_def good_def)
    have "consumed input (u @ [c0, c1, c2, c3]) (s\<lparr>temp := w, src := rest\<rparr>) 4"
    proof -
      have "\<exists>q r. digits (u @ [c0, c1, c2, c3]) = q @ r \<and> 4 dvd length q \<and> length r = 4 \<and>
          dest s = decode_digits q \<and> low 4 w = horner r"
        by (rule exI [of _ "digits u"], rule exI [of _ "map (lookup unbase64) [c0, c1, c2, c3]"])
          (use u dig low_fast_word [OF valid] in \<open>auto simp: consumed_def w_def\<close>)
      then show ?thesis using u c dig by (simp add: consumed_def)
    qed
    moreover have "four unbase64 s = Ok (True, s\<lparr>temp := w, src := rest\<rparr>)"
      using False unfolding four_def c by (simp add: Let_def w_def)
    ultimately show ?thesis using assms(1) by (auto simp: running_def)
  qed
qed

lemma buffer_bound:
  fixes m n sz :: nat
  assumes "4 * m \<le> 3 * n" "3 * (n div 4) + n mod 4 \<le> sz"
  shows "m \<le> sz"
proof -
  obtain q r where "n div 4 = q" "n mod 4 = r" by simp
  then have "n = 4 * q + r" "3 * q + r \<le> sz" using assms(2) mult_div_mod_eq [of 4 n] by simp_all
  then show ?thesis using assms(1) by linarith
qed

lemma decode_loop_spec:
  assumes "running input s 0" "3 * (length input div 4) + length input mod 4 \<le> szdest"
  shows "\<exists>s'. decode_loop unbase64 szdest s = Ok s' \<and> (running input s' 0 \<or> stopped input s')"
  using assms(1)
proof (induction "length (src s)" arbitrary: s rule: less_induct)
  case less
  show ?case
  proof (cases "4 \<le> length (src s)")
    case True
    obtain go s' where f: "four unbase64 s = Ok (go, s')" "if go then running input s' 4 else stopped input s'"
      using four_spec [OF less.prems True] by blast
    show ?thesis
    proof (cases go)
      case go: True
      define s'' where "s'' = s'\<lparr>dest := dest s' @ three_bytes (temp s'), temp := drop_bit 8 (drop_bit 8 (temp s'))\<rparr>"
      obtain u where u: "consumed input u s' 4" using f(2) go by (auto simp: running_def)
      have "running input s'' 0"
        using f(2) go consumed_group(1) [OF u, of 0 "drop_bit 8 (drop_bit 8 (temp s'))"]
        by (auto simp: running_def s''_def consumed_def)
      moreover have "length (src s'') < length (src s)" using four_shorter [OF f(1)] by (simp add: s''_def)
      ultimately have "\<exists>s'. decode_loop unbase64 szdest s'' = Ok s' \<and> (running input s' 0 \<or> stopped input s')"
        by (intro less.hyps)
      moreover have "length (dest s') + 3 \<le> szdest"
        using consumed_group(2) [OF u] assms(2) by (rule buffer_bound)
      ultimately show ?thesis using True f(1) go by (subst decode_loop.simps) (simp add: s''_def)
    next
      case False
      then show ?thesis using f True by (subst decode_loop.simps) simp
    qed
  next
    case False
    then show ?thesis using less.prems by (subst decode_loop.simps) auto
  qed
qed

section \<open>The rest of the input\<close>

lemma decodes_stuck:
  assumes "good u" "\<not> ascii_isspace c" "lookup unbase64 c < 0" "\<not> is_pad c"
  shows "base64_decodes unbase64 (u @ c # rest) = None"
proof -
  define w where "w = filter (\<lambda>c. \<not> ascii_isspace c) u"
  have "\<And>x. x \<in> set w \<Longrightarrow> 0 \<le> lookup unbase64 x" using assms(1) by (auto simp: good_def w_def)
  then have e: "dropWhile (\<lambda>c. 0 \<le> lookup unbase64 c) (filter (\<lambda>c. \<not> ascii_isspace c) (u @ c # rest)) =
      c # filter (\<lambda>c. \<not> ascii_isspace c) rest"
    using assms(2,3) by (simp add: dropWhile_append2 not_le flip: w_def)
  show ?thesis unfolding base64_decodes_def Let_def e using assms(4) by simp
qed

lemma decodes_done:
  assumes "good u" "p = [] \<or> is_pad (hd p)"
  shows "base64_decodes unbase64 (u @ p) =
    (let t = filter (\<lambda>c. \<not> ascii_isspace c) p; k = length (digits u)
     in if list_all is_pad t \<and> k mod 4 \<noteq> 1 \<and> (t = [] \<or> length t = (4 - k mod 4) mod 4)
        then Some (decode_digits (digits u)) else None)"
proof -
  define t where "t = filter (\<lambda>c. \<not> ascii_isspace c) p"
  define w where "w = filter (\<lambda>c. \<not> ascii_isspace c) u"
  have all: "\<And>x. x \<in> set w \<Longrightarrow> 0 \<le> lookup unbase64 x" using assms(1) by (auto simp: good_def w_def)
  have "t = [] \<or> lookup unbase64 (hd t) < 0"
    using assms(2) lookup_special pad_not_space by (cases p) (auto simp: t_def)
  then have "takeWhile (\<lambda>c. 0 \<le> lookup unbase64 c) t = []" "dropWhile (\<lambda>c. 0 \<le> lookup unbase64 c) t = t"
    by (cases t; simp)+
  then have e: "takeWhile (\<lambda>c. 0 \<le> lookup unbase64 c) (filter (\<lambda>c. \<not> ascii_isspace c) (u @ p)) = filter (\<lambda>c. \<not> ascii_isspace c) u"
    "dropWhile (\<lambda>c. 0 \<le> lookup unbase64 c) (filter (\<lambda>c. \<not> ascii_isspace c) (u @ p)) = t"
    using all by (simp_all add: takeWhile_append2 dropWhile_append2 flip: t_def w_def)
  show ?thesis unfolding base64_decodes_def Let_def e digits_def t_def [symmetric] by (simp only: length_map)
qed

lemma tail_loop_spec:
  assumes "consumed input u s (state s)" "state s < 4" "3 * (length input div 4) + length input mod 4 \<le> szdest"
  shows "(\<exists>s' u'. tail_loop unbase64 szdest s = Ok s' \<and> consumed input u' s' (state s') \<and> state s' < 4 \<and>
      (src s' = [] \<or> is_pad (hd (src s')))) \<or>
    tail_loop unbase64 szdest s = Fail \<and> base64_decodes unbase64 input = None"
  using assms(1,2)
proof (induction "length (src s)" arbitrary: u s rule: less_induct)
  case less
  show ?case
  proof (cases "src s")
    case Nil
    then show ?thesis using less.prems by (subst (1 2) tail_loop.simps) auto
  next
    case (Cons c rest)
    define s1 where "s1 = s\<lparr>src := rest, ch := c, decode := lookup unbase64 c\<rparr>"
    consider "ascii_isspace c" | "is_pad c" | "lookup unbase64 c < 0" "\<not> ascii_isspace c" "\<not> is_pad c" | "0 \<le> lookup unbase64 c"
      by linarith
    then show ?thesis
    proof cases
      case 1
      have "consumed input (u @ [c]) s1 (state s1)"
        using consumed_space [OF less.prems(1) _ _ s1_def, of "[c]"] 1 Cons by (simp add: s1_def)
      from less.hyps [OF _ this] show ?thesis
        using 1 Cons less.prems(2) lookup_special [of c] by (subst (1 2) tail_loop.simps) (simp add: s1_def Let_def)
    next
      case 2
      have "tail_loop unbase64 szdest s = Ok (s1\<lparr>src := c # rest\<rparr>)"
        using 2 Cons lookup_special [of c] pad_not_space [OF 2] by (subst tail_loop.simps) (simp add: s1_def Let_def)
      moreover have "consumed input u (s1\<lparr>src := c # rest\<rparr>) (state s)"
        using less.prems(1) Cons by (simp add: s1_def consumed_def)
      ultimately show ?thesis using 2 less.prems(2) by (auto simp: s1_def)
    next
      case 3
      have "base64_decodes unbase64 input = None"
        using decodes_stuck [OF _ 3(2,1,3), of u rest] less.prems(1) Cons by (simp add: consumed_def)
      moreover have "tail_loop unbase64 szdest s = Fail" using 3 Cons by (subst tail_loop.simps) (simp add: Let_def)
      ultimately show ?thesis by simp
    next
      case 4
      define t where "t = push_bit 6 (temp s) OR word_of_int (lookup unbase64 c)"
      have c: "consumed input (u @ [c]) (s1\<lparr>temp := t\<rparr>) (state s + 1)"
        by (rule consumed_digit [OF less.prems(1) Cons 4 less.prems(2)]) (simp add: s1_def t_def)
      show ?thesis
      proof (cases "state s + 1 = 4")
        case True
        define s2 where "s2 = s1\<lparr>dest := dest s1 @ three_bytes t, state := 0, temp := 0\<rparr>"
        have c4: "consumed input (u @ [c]) (s1\<lparr>temp := t\<rparr>) 4" using c True by simp
        have "4 * (length (dest s) + 3) \<le> 3 * length input" using consumed_group(2) [OF c4] by (simp add: s1_def)
        then have "length (dest s) + 3 \<le> szdest" by (rule buffer_bound [OF _ assms(3)])
        then have eq: "tail_loop unbase64 szdest s = tail_loop unbase64 szdest s2"
          using Cons 4 True by (subst tail_loop.simps) (simp add: Let_def s1_def s2_def t_def)
        have c2: "consumed input (u @ [c]) s2 (state s2)"
          using consumed_group(1) [OF c4, of 0 0] by (simp add: s2_def consumed_def)
        have "length (src s2) < length (src s)" "state s2 < 4" using Cons by (simp_all add: s2_def s1_def)
        then show ?thesis unfolding eq by (rule less.hyps [OF _ c2])
      next
        case False
        define s2 where "s2 = s1\<lparr>temp := t, state := state s + 1\<rparr>"
        have eq: "tail_loop unbase64 szdest s = tail_loop unbase64 szdest s2"
          using Cons 4 False by (subst tail_loop.simps) (simp add: Let_def s1_def s2_def t_def)
        have c2: "consumed input (u @ [c]) s2 (state s2)" using c by (simp add: s2_def consumed_def)
        have "length (src s2) < length (src s)" "state s2 < 4"
          using Cons False less.prems(2) by (simp_all add: s2_def s1_def)
        then show ?thesis unfolding eq by (rule less.hyps [OF _ c2])
      qed
    qed
  qed
qed

lemma horner_3: "horner [a, b, c] = a * 2 ^ 12 + b * 2 ^ 6 + c"
  by (simp add: horner_def)

lemma leftover_spec:
  assumes "consumed input u s (state s)" "state s < 4" "3 * (length input div 4) + length input mod 4 \<le> szdest"
  shows "leftover szdest s =
    (if length (digits u) mod 4 = 1 then Fail
     else Ok (decode_digits (digits u), (4 - length (digits u) mod 4) mod 4))"
proof -
  obtain q r where q: "digits u = q @ r" "4 dvd length q" "length r = state s" "dest s = decode_digits q" "low (state s) (temp s) = horner r"
    using assms(1) by (auto simp: consumed_def)
  have k: "length (digits u) mod 4 = state s" using q(1,2,3) assms(2) by (auto simp: mod_add_left_eq dvd_imp_mod_0)
  have d: "decode_digits (digits u) = dest s @ decode_digits r" using q by (simp add: decode_digits_append)
  have "length q + state s \<le> length input"
    using arg_cong [OF q(1), of length] length_digits [of u] q(3) assms(1) by (simp add: consumed_def)
  then have len: "4 * length (dest s) + 3 * state s \<le> 3 * length input" using length_decode_digits [OF q(2)] q(4) by simp
  consider "state s = 0" | "state s = 1" | "state s = 2" | "state s = 3" using assms(2) by linarith
  then show ?thesis
  proof cases
    case 1
    then show ?thesis using q(3) d k by (simp add: leftover_def)
  next
    case 2
    then show ?thesis using k by (simp add: leftover_def)
  next
    case 3
    then obtain a b where r: "r = [a, b]" using q(3) by (auto simp: numeral_eq_Suc length_Suc_conv)
    have "length (dest s) + 1 \<le> szdest" using len 3 by (intro buffer_bound [OF _ assms(3)]) simp
    moreover have "chr (uint (drop_bit 4 (temp s))) = chr ((a * 2 ^ 6 + b) div 2 ^ 4)"
      using chr_drop [of 4 2 "temp s"] q(5) 3 by (simp add: r horner_def)
    ultimately show ?thesis using 3 d k by (simp add: leftover_def r)
  next
    case 4
    then obtain a b c where r: "r = [a, b, c]" using q(3) by (auto simp: numeral_eq_Suc length_Suc_conv)
    have "length (dest s) + 2 \<le> szdest" using len 4 by (intro buffer_bound [OF _ assms(3)]) simp
    moreover have "chr (uint (drop_bit 10 (temp s))) = chr ((a * 2 ^ 12 + b * 2 ^ 6 + c) div 2 ^ 10)"
      "chr (uint (drop_bit 2 (temp s))) = chr ((a * 2 ^ 12 + b * 2 ^ 6 + c) div 2 ^ 2)"
      using chr_drop [of 10 3 "temp s"] chr_drop [of 2 3 "temp s"] q(5) 4 horner_3 [of a b c]
      by (simp_all add: r)
    ultimately show ?thesis using 4 d k by (simp add: leftover_def r Let_def)
  qed
qed

lemma count_equals_eq:
  "count_equals s n =
    (let t = filter (\<lambda>c. \<not> ascii_isspace c) s in if list_all is_pad t then Ok (n + length t) else Fail)"
  using pad_not_space by (induction s arbitrary: n) (auto simp: Let_def)

text \<open>The decoder is the reference decoder, for any buffer as large as the one the caller provides.\<close>

theorem unescape_decodes:
  assumes "3 * (length input div 4) + length input mod 4 \<le> szdest"
  shows "Base64UnescapeInternal unbase64 input szdest =
    (case base64_decodes unbase64 input of None \<Rightarrow> Fail | Some d \<Rightarrow> Ok d)"
proof -
  define s0 where "s0 = \<lparr>src = input, dest = [], decode = 0, state = 0, ch = CHR 0x00, temp = 0\<rparr>"
  have "consumed input [] s0 0" by (simp add: consumed_def s0_def horner_def)
  then have "running input s0 0" by (auto simp: running_def s0_def is_pad_def)
  from decode_loop_spec [OF this assms] obtain s where
    s: "decode_loop unbase64 szdest s0 = Ok s" "running input s 0 \<or> stopped input s" by blast
  have final: "andthen (leftover szdest s') (\<lambda>(dest, expected_equals).
      andthen (count_equals (src s') 0) (\<lambda>equals. if equals = 0 \<or> equals = expected_equals then Ok dest else Fail)) =
      (case base64_decodes unbase64 input of None \<Rightarrow> Fail | Some d \<Rightarrow> Ok d)"
    if c: "consumed input u s' (state s')" "state s' < 4" "src s' = [] \<or> is_pad (hd (src s'))" for s' u
  proof -
    have "input = u @ src s'" "good u" using c(1) by (simp_all add: consumed_def)
    then show ?thesis
      using decodes_done [OF _ c(3), of u] by (auto simp: leftover_spec [OF c(1,2) assms] count_equals_eq Let_def)
  qed
  show ?thesis
  proof (cases "decode s < 0 \<and> \<not> is_pad (ch s) \<and> \<not> ascii_isspace (ch s)")
    case True
    then obtain u where "consumed input u (s\<lparr>src := ch s # src s\<rparr>) (state s)"
      using s(2) by (auto simp: running_def stopped_def)
    then have "base64_decodes unbase64 input = None"
      using decodes_stuck [of u "ch s" "src s"] True s(2) by (auto simp: consumed_def stopped_def running_def)
    then show ?thesis using s(1) True by (simp add: Base64UnescapeInternal_def s0_def)
  next
    case ok: False
    show ?thesis
    proof (cases "is_pad (ch s)")
      case True
      then obtain u where "consumed input u (s\<lparr>src := ch s # src s\<rparr>) (state s)" "state s < 4"
        using s(2) pad_not_space [OF True] by (auto simp: running_def stopped_def)
      then show ?thesis using final [of u "s\<lparr>src := ch s # src s\<rparr>"] s(1) ok True
        by (simp add: Base64UnescapeInternal_def s0_def)
    next
      case False
      then obtain u where "consumed input u s (state s)" "state s < 4"
        using s(2) ok by (auto simp: running_def stopped_def)
      from tail_loop_spec [OF this assms] show ?thesis
      proof
        assume "\<exists>s' u'. tail_loop unbase64 szdest s = Ok s' \<and> consumed input u' s' (state s') \<and> state s' < 4 \<and>
          (src s' = [] \<or> is_pad (hd (src s')))"
        then obtain s' u' where "tail_loop unbase64 szdest s = Ok s'" and
          t: "consumed input u' s' (state s')" "state s' < 4" "src s' = [] \<or> is_pad (hd (src s'))" by blast
        then show ?thesis using final [OF t] s(1) ok False by (simp add: Base64UnescapeInternal_def s0_def) blast
      next
        assume "tail_loop unbase64 szdest s = Fail \<and> base64_decodes unbase64 input = None"
        then show ?thesis using s(1) ok False by (simp add: Base64UnescapeInternal_def s0_def)
      qed
    qed
  qed
qed

end

section \<open>The two alphabets\<close>

definition un_of :: "int \<Rightarrow> int \<Rightarrow> int \<Rightarrow> int" where
  "un_of p q b =
    (if 65 \<le> b \<and> b \<le> 90 then b - 65 else if 97 \<le> b \<and> b \<le> 122 then b - 71
     else if 48 \<le> b \<and> b \<le> 57 then b + 4 else if b = p then 62 else if b = q then 63 else - 1)"

lemma kUnBase64_map: "kUnBase64 = map (un_of 43 47) [0..255]"
  by code_simp

lemma kUnWebSafeBase64_map: "kUnWebSafeBase64 = map (un_of 45 95) [0..255]"
  by code_simp

lemma lookup_tables: "lookup kUnBase64 c = un_of 43 47 (uc c)" "lookup kUnWebSafeBase64 c = un_of 45 95 (uc c)"
  unfolding lookup_def by (rule byte_table [OF kUnBase64_map], rule byte_table [OF kUnWebSafeBase64_map])

lemma un_of_range: "un_of p q (uc c) < 64" "- 1 \<le> un_of p q (uc c)"
  by (auto simp: un_of_def)

lemma un_of_special:
  assumes "ascii_isspace c \<or> is_pad c \<or> c = CHR 0x00"
  shows "un_of 43 47 (uc c) < 0" "un_of 45 95 (uc c) < 0"
  using assms unfolding ascii_isspace_iff is_pad_def by (auto simp: un_of_def)

lemma alphabet_positions:
  "map (\<lambda>c. un_of 43 47 (uc c)) kBase64Chars = [0..63]"
  "map (\<lambda>c. un_of 45 95 (uc c)) kWebSafeBase64Chars = [0..63]"
  unfolding kBase64Chars_def kWebSafeBase64Chars_def by (simp_all add: un_of_def) code_simp+

lemma nth_positions: "map f xs = [0..63] \<Longrightarrow> i < 64 \<Longrightarrow> f (xs ! i) = int i"
proof -
  assume e: "map f xs = [0..63]" and i: "i < 64"
  have "length (map f xs) = 64" unfolding e by simp
  then have "f (xs ! i) = map f xs ! i" using i by simp
  also have "\<dots> = int i" using i by (simp add: e nth_upto)
  finally show ?thesis .
qed

interpretation standard: base64_code kBase64Chars kUnBase64
proof
  show "length kBase64Chars = 64" by (simp add: kBase64Chars_def)
qed (simp_all add: lookup_tables un_of_range un_of_special nth_positions [OF alphabet_positions(1)])

interpretation web_safe: base64_code kWebSafeBase64Chars kUnWebSafeBase64
proof
  show "length kWebSafeBase64Chars = 64" by (simp add: kWebSafeBase64Chars_def)
qed (simp_all add: lookup_tables un_of_range un_of_special nth_positions [OF alphabet_positions(2)])

section \<open>The encoder\<close>

text \<open>The six-bit digits of a sequence of bytes.\<close>

fun encode_digits :: "string \<Rightarrow> int list" where
  "encode_digits (a # b # c # r) =
    (let n = uc a * 2 ^ 16 + uc b * 2 ^ 8 + uc c
     in n div 2 ^ 18 # n div 2 ^ 12 mod 64 # n div 2 ^ 6 mod 64 # n mod 64 # encode_digits r)"
| "encode_digits [a, b] =
    (let n = uc a * 2 ^ 8 + uc b in [n div 2 ^ 10, n div 2 ^ 4 mod 64, n mod 16 * 4])"
| "encode_digits [a] = [uc a div 4, uc a mod 4 * 16]"
| "encode_digits [] = []"

lemma nested_div: "(n :: int) mod (p * q) div p = n div p mod q" if "0 < p" "0 < q"
proof -
  have "n mod (p * q) = p * (n div p mod q) + n mod p" using that by (intro zmod_zmult2_eq) simp
  then show ?thesis using that by simp
qed

lemma digit_sum_24:
  fixes n :: int
  shows "n div 2 ^ 18 * 2 ^ 18 + n div 2 ^ 12 mod 64 * 2 ^ 12 + n div 2 ^ 6 mod 64 * 2 ^ 6 + n mod 64 = n"
proof -
  define q1 r0 q2 r1 q3 r2 where d: "q1 = n div 64" "r0 = n mod 64" "q2 = q1 div 64" "r1 = q1 mod 64" "q3 = q2 div 64" "r2 = q2 mod 64"
  have "n = r0 + 64 * q1" "q1 = r1 + 64 * q2" "q2 = r2 + 64 * q3"
    unfolding d by (rule mod_mult_div_eq [symmetric])+
  then have "q3 * 2 ^ 18 + r2 * 2 ^ 12 + r1 * 2 ^ 6 + r0 = n" by simp
  moreover have "n div 2 ^ 18 = q3" "n div 2 ^ 12 = q2" "n div 2 ^ 6 = q1"
    unfolding d by (simp_all add: zdiv_zmult2_eq [symmetric])
  ultimately show ?thesis unfolding d by (simp only:)
qed

text \<open>Bytes from their sums: the byte at the bottom and the ones above it.\<close>

lemma byte_parts: "(x * 256 + uc c) div 256 = x" "chr (x * 256 + uc c) = c"
proof -
  show "(x * 256 + uc c) div 256 = x" by simp
  have "uc (chr (x * 256 + uc c)) = uc c" by (simp add: uc_chr)
  then show "chr (x * 256 + uc c) = c" by (simp only: uc_inject)
qed

lemma decode_encode: "decode_digits (encode_digits s) = s"
proof (induction s rule: encode_digits.induct)
  case (1 a b c r)
  define n where "n = uc a * 2 ^ 16 + uc b * 2 ^ 8 + uc c"
  have n: "n = (uc a * 256 + uc b) * 256 + uc c" by (simp add: n_def)
  have "n div 2 ^ 8 = uc a * 256 + uc b" "n div 2 ^ 16 = uc a"
  proof -
    show 8: "n div 2 ^ 8 = uc a * 256 + uc b" unfolding n using byte_parts(1) [of "uc a * 256 + uc b" c] by simp
    have "n div 2 ^ 16 = n div 2 ^ 8 div 256" by (simp add: zdiv_zmult2_eq [symmetric])
    then show "n div 2 ^ 16 = uc a" unfolding 8 by simp
  qed
  moreover have "chr n = c" unfolding n by (rule byte_parts)
  moreover have "chr (uc a * 256 + uc b) = b" by (rule byte_parts)
  ultimately show ?case using 1 [OF n_def] by (simp only: encode_digits.simps decode_digits.simps Let_def n_def [symmetric] digit_sum_24 chr_uc)
next
  case (2 a b)
  define n where "n = uc a * 2 ^ 8 + uc b"
  have "n div 2 ^ 10 * 2 ^ 12 + n div 2 ^ 4 mod 64 * 2 ^ 6 + n mod 16 * 4 = n * 4"
  proof -
    define q1 r0 q2 r1 where d: "q1 = n div 16" "r0 = n mod 16" "q2 = q1 div 64" "r1 = q1 mod 64"
    have "n = r0 + 16 * q1" "q1 = r1 + 64 * q2" unfolding d by (rule mod_mult_div_eq [symmetric])+
    then have "q2 * 2 ^ 12 + r1 * 2 ^ 6 + r0 * 4 = n * 4" by simp
    moreover have "n div 2 ^ 10 = q2" "n div 2 ^ 4 = q1" unfolding d by (simp_all add: zdiv_zmult2_eq [symmetric])
    ultimately show ?thesis unfolding d by (simp only:)
  qed
  moreover have "n * 4 div 2 ^ 10 = uc a" "n * 4 div 2 ^ 2 = n" "chr n = b"
    using byte_parts [of "uc a" b] by (simp_all add: n_def)
  ultimately show ?case by (simp only: encode_digits.simps decode_digits.simps Let_def n_def [symmetric] chr_uc)
next
  case (3 a)
  have "uc a div 4 * 64 + uc a mod 4 * 16 = uc a * 16" using mod_mult_div_eq [of "uc a" 4] by linarith
  then show ?case by simp
qed simp

lemma encode_digits_range: "list_all (\<lambda>d. 0 \<le> d \<and> d < 64) (encode_digits s)"
proof (induction s rule: encode_digits.induct)
  case (1 a b c r)
  define n where "n = uc a * 2 ^ 16 + uc b * 2 ^ 8 + uc c"
  have "0 \<le> n" using uc_nonneg [of a] uc_nonneg [of b] uc_nonneg [of c] by (simp add: n_def)
  moreover have "n < 64 * 2 ^ 18" using uc_less [of a] uc_less [of b] uc_less [of c] unfolding n_def by (simp del: uc_less)
  ultimately have "0 \<le> n div 2 ^ 18" "n div 2 ^ 18 < 64" by (simp_all add: div_less_iff_less_mult pos_imp_zdiv_nonneg_iff)
  then show ?case using 1 [OF n_def] by (simp only: encode_digits.simps Let_def n_def [symmetric]) simp
next
  case (2 a b)
  define n where "n = uc a * 2 ^ 8 + uc b"
  have "0 \<le> n" using uc_nonneg [of a] uc_nonneg [of b] by (simp add: n_def)
  moreover have "n < 64 * 2 ^ 10" using uc_less [of a] uc_less [of b] unfolding n_def by (simp del: uc_less)
  ultimately have "0 \<le> n div 2 ^ 10" "n div 2 ^ 10 < 64" by (simp_all add: div_less_iff_less_mult pos_imp_zdiv_nonneg_iff)
  moreover have "n mod 16 * 4 < 64" using pos_mod_bound [of 16 n] by simp
  ultimately show ?case by (simp only: encode_digits.simps Let_def n_def [symmetric]) simp
next
  case (3 a)
  have "uc a div 4 < 64" using uc_less [of a] by (simp add: div_less_iff_less_mult del: uc_less)
  moreover have "uc a mod 4 * 16 < 64" using pos_mod_bound [of 4 "uc a"] by simp
  ultimately show ?case by (simp add: pos_imp_zdiv_nonneg_iff)
qed simp

lemma length_encode_digits:
  "length (encode_digits s) = length s div 3 * 4 + (if length s mod 3 = 0 then 0 else length s mod 3 + 1)"
proof (induction s rule: encode_digits.induct)
  case (1 a b c r)
  have "length (a # b # c # r) = length r + 3" by simp
  then have "length (a # b # c # r) div 3 = length r div 3 + 1" "length (a # b # c # r) mod 3 = length r mod 3"
    by (simp_all only: div_add_self2 mod_add_self2)
  then show ?case using 1 [OF refl] by (simp only: encode_digits.simps Let_def list.size) simp
qed (auto simp: Let_def)

lemma and_masks:
  fixes x :: int
  shows "x AND 0x3FFFF = x mod 2 ^ 18" "x AND 0xFFF = x mod 2 ^ 12" "x AND 0x3FF = x mod 2 ^ 10" "x AND 0x3F = x mod 2 ^ 6"
    "x AND 0x00F = x mod 2 ^ 4" "x AND 0x3 = x mod 2 ^ 2"
  using take_bit_eq_mask [of 18 x] take_bit_eq_mask [of 12 x] take_bit_eq_mask [of 10 x] take_bit_eq_mask [of 6 x]
    take_bit_eq_mask [of 4 x] take_bit_eq_mask [of 2 x]
  by (simp_all add: take_bit_eq_mod mask_eq_exp_minus_1)

definition chars :: "string \<Rightarrow> int list \<Rightarrow> string" where
  "chars base64 ds = map (\<lambda>d. base64 ! nat d) ds"

lemma quad_chars: "quad base64 n = chars base64 [n div 2 ^ 18, n div 2 ^ 12 mod 64, n div 2 ^ 6 mod 64, n mod 64]"
proof -
  have "n mod 2 ^ 18 div 2 ^ 12 = n div 2 ^ 12 mod 64" using nested_div [of "2 ^ 12" 64 n] by simp
  moreover have "n mod 2 ^ 18 mod 2 ^ 12 = n mod 2 ^ 12" by (rule mod_mod_cancel) simp
  moreover have "n mod 2 ^ 12 div 2 ^ 6 = n div 2 ^ 6 mod 64" using nested_div [of "2 ^ 6" 64 n] by simp
  moreover have "n mod 2 ^ 12 mod 2 ^ 6 = n mod 64" using mod_mod_cancel [of "2 ^ 6" "2 ^ 12" n] by simp
  ultimately show ?thesis
    by (simp only: quad_def Let_def and_masks drop_bit_eq_div chars_def list.map)
qed

lemma encode_blocks_digits:
  "case encode_blocks base64 s of (d, t) \<Rightarrow>
    chars base64 (encode_digits s) = d @ chars base64 (encode_digits t) \<and> length t \<le> 3 \<and>
    (\<exists>k. length d = 4 * k \<and> length s = 3 * k + length t)"
proof (induction base64 s rule: encode_blocks.induct)
  case (1 base64 a b c d rest)
  obtain e t where e: "encode_blocks base64 (d # rest) = (e, t)" by (cases "encode_blocks base64 (d # rest)")
  define n where "n = uc a * 2 ^ 16 + uc b * 2 ^ 8 + uc c"
  have "drop_bit 8 (be32 a b c d) = (n * 256 + uc d) div 256" by (simp add: drop_bit_eq_div be32_def n_def)
  then have x: "drop_bit 8 (be32 a b c d) = n" by (simp only: byte_parts)
  obtain k where k: "length e = 4 * k" "length (d # rest) = 3 * k + length t" "length t \<le> 3"
    "chars base64 (encode_digits (d # rest)) = e @ chars base64 (encode_digits t)"
    using 1 [OF refl] by (auto simp: e)
  have "chars base64 (encode_digits (a # b # c # d # rest)) = quad base64 n @ e @ chars base64 (encode_digits t)"
    using k(4) by (simp only: encode_digits.simps Let_def n_def [symmetric] quad_chars chars_def list.map append_Cons append_Nil)
  moreover have "length (quad base64 n) = 4" by (simp add: quad_chars chars_def)
  ultimately show ?case using k by (auto simp: e x Let_def intro!: exI [of _ "Suc k"])
qed (auto simp: chars_def intro!: exI [of _ 0])

definition escaped_len :: "nat \<Rightarrow> bool \<Rightarrow> nat" where
  "escaped_len n do_padding =
    n div 3 * 4 + (if n mod 3 = 0 then 0 else n mod 3 + 1) + (if do_padding then (3 - n mod 3) mod 3 else 0)"

lemma less_3_cases: "(n::nat) < 3 \<Longrightarrow> n = 0 \<or> n = 1 \<or> n = 2"
  by linarith

lemma CalculateBase64EscapedLenInternal_eq:
  assumes "n < 2 ^ 60"
  shows "CalculateBase64EscapedLenInternal (int n) do_padding = Some (int (escaped_len n do_padding))"
proof -
  have lim: "int n \<le> (size_max - 1) div 4 * 3"
  proof -
    have "int n \<le> 2 ^ 60" using assms by (simp add: nless_le)
    also have "\<dots> \<le> (size_max - 1) div 4 * 3" by (simp add: size_max_def)
    finally show ?thesis .
  qed
  have i: "int n div 3 = int (n div 3)" "int n mod 3 = int (n mod 3)" by (simp_all add: zdiv_int zmod_int)
  have "n mod 3 < 3" by simp
  from less_3_cases [OF this] show ?thesis
    using lim unfolding CalculateBase64EscapedLenInternal_def Let_def i escaped_len_def by auto
qed

text \<open>The digits of the input through the alphabet, then the padding.\<close>

lemma Base64EscapeInternal_eq:
  assumes "length s < 2 ^ 60"
  shows "Base64EscapeInternal s (escaped_len (length s) do_padding) base64 do_padding =
    chars base64 (encode_digits s) @ (if do_padding then replicate ((3 - length s mod 3) mod 3) (CHR ''='') else [])"
proof -
  define sz where "sz = escaped_len (length s) do_padding"
  obtain d t k where e: "encode_blocks base64 s = (d, t)" "length t \<le> 3" "length d = 4 * k" "length s = 3 * k + length t"
    "chars base64 (encode_digits s) = d @ chars base64 (encode_digits t)"
    using encode_blocks_digits [of base64 s] by (cases "encode_blocks base64 s") auto
  have sz: "sz = length d + (if length t = 0 then 0 else length t + 1) + (if do_padding then (3 - length t mod 3) mod 3 else 0)"
  proof -
    have m: "(3 * k + r) div 3 = k" "(3 * k + r) mod 3 = r" if "r < 3" for r using that by simp_all
    consider "length t < 3" | "length t = 3" using e(2) by linarith
    then show ?thesis
    proof cases
      case 1
      then show ?thesis unfolding sz_def escaped_len_def e(3,4) m [OF 1] by (cases "length t = 0") simp_all
    qed (simp add: sz_def escaped_len_def e(3,4))
  qed
  have "4 * length s \<le> 3 * sz" using e(2,3,4) sz by (cases t) (auto split: if_splits)
  moreover have "sz < 2 ^ 61"
    using e(2,3,4) assms unfolding sz by (auto split: if_splits)
  ultimately have guard: "\<not> (int (length s) > (size_max - 1) div 4 * 3 \<or>
      (int (length s) * 4) mod (size_max + 1) > (int sz * 3) mod (size_max + 1))"
    using assms by (simp add: size_max_def mod_pos_pos_trivial) 
  have pad: "(3 - length s mod 3) mod 3 = (3 - length t mod 3) mod 3" by (simp add: e(4))
  have tail: "Base64EscapeInternal s sz base64 do_padding =
      d @ chars base64 (encode_digits t) @ (if do_padding then replicate ((3 - length t mod 3) mod 3) (CHR ''='') else [])"
  proof -
    consider "t = []" | a where "t = [a]" | a b where "t = [a, b]" | a b c where "t = [a, b, c]"
      using e(2) by (cases t rule: encode_digits.cases) auto
    then show ?thesis
    proof cases
      case 1
      then show ?thesis using guard sz by (simp add: Base64EscapeInternal_def e(1) chars_def)
    next
      case (2 a)
      have "chars base64 (encode_digits t) = [base64 ! nat (drop_bit 2 (uc a)), base64 ! nat (push_bit 4 (uc a AND 0x3))]"
        by (simp add: 2 chars_def drop_bit_eq_div push_bit_eq_mult and_masks)
      then show ?thesis using guard sz 2 by (simp add: Base64EscapeInternal_def e(1) Let_def numeral_2_eq_2)
    next
      case (3 a b)
      have "be16 a b mod 2 ^ 10 div 2 ^ 4 = be16 a b div 2 ^ 4 mod 64" using nested_div [of "2 ^ 4" 64 "be16 a b"] by simp
      moreover have "be16 a b mod 2 ^ 10 mod 2 ^ 4 = be16 a b mod 16" using mod_mod_cancel [of "2 ^ 4" "2 ^ 10" "be16 a b"] by simp
      ultimately have "chars base64 (encode_digits t) =
        [base64 ! nat (drop_bit 10 (be16 a b)), base64 ! nat (drop_bit 4 (be16 a b AND 0x3FF)),
         base64 ! nat (push_bit 2 ((be16 a b AND 0x3FF) AND 0x00F))]"
        by (simp only: and_masks drop_bit_eq_div push_bit_eq_mult) (simp add: 3 chars_def be16_def Let_def)
      then show ?thesis using guard sz 3 by (simp add: Base64EscapeInternal_def e(1) Let_def)
    next
      case (4 a b c)
      have "push_bit 16 (uc a) + be16 b c = uc a * 2 ^ 16 + uc b * 2 ^ 8 + uc c" by (simp add: push_bit_eq_mult be16_def)
      then have "chars base64 (encode_digits t) = quad base64 (push_bit 16 (uc a) + be16 b c)"
        unfolding quad_chars by (simp only: 4 encode_digits.simps Let_def)
      then show ?thesis using guard sz 4 by (simp add: Base64EscapeInternal_def e(1) Let_def)
    qed
  qed
  then show ?thesis unfolding sz_def e(5) pad by simp
qed

context base64_code
begin

lemma escape_unescape:
  assumes "length s < 2 ^ 60"
  shows "\<exists>e. Base64EscapeToStringInternal s do_padding base64 = Some e \<and>
    Base64UnescapeToString unbase64 e = Ok (True, s)"
proof -
  define p where "p = (if do_padding then replicate ((3 - length s mod 3) mod 3) (CHR ''='') else [])"
  define u where "u = chars base64 (encode_digits s)"
  have e: "Base64EscapeToStringInternal s do_padding base64 = Some (u @ p)"
    by (simp add: Base64EscapeToStringInternal_def CalculateBase64EscapedLenInternal_eq [OF assms]
        Base64EscapeInternal_eq [OF assms] u_def p_def)
  have inverse: "lookup unbase64 (base64 ! nat d) = d" if "0 \<le> d \<and> d < 64" for d
    using lookup_base64 [of "nat d"] that by (simp add: nat_less_iff)
  have range: "\<And>d. d \<in> set (encode_digits s) \<Longrightarrow> 0 \<le> d \<and> d < 64"
    using encode_digits_range [of s] by (simp add: list_all_iff)
  have valid: "\<And>c. c \<in> set u \<Longrightarrow> 0 \<le> lookup unbase64 c" using range inverse by (auto simp: u_def chars_def)
  then have good: "good u" by (simp add: good_def)
  have "map (lookup unbase64) u = encode_digits s"
    unfolding u_def chars_def map_map by (rule map_idI) (use range inverse in simp)
  moreover have "filter (\<lambda>c. \<not> ascii_isspace c) u = u" using valid not_space by (simp add: filter_id_conv)
  ultimately have digits: "digits u = encode_digits s" by (simp add: digits_def)
  have pad: "list_all is_pad p" "filter (\<lambda>c. \<not> ascii_isspace c) p = p" "p = [] \<or> is_pad (hd p)"
    by (auto simp: p_def is_pad_def list_all_iff ascii_isspace_iff filter_id_conv hd_replicate)
  have len: "length (encode_digits s) mod 4 = (if length s mod 3 = 0 then 0 else length s mod 3 + 1)"
    using less_3_cases [of "length s mod 3"] by (auto simp: length_encode_digits)
  have "base64_decodes unbase64 (u @ p) = Some s"
    unfolding decodes_done [OF good pad(3)] Let_def digits pad(2) len decode_encode
    using pad(1) less_3_cases [of "length s mod 3"] by (auto simp: p_def)
  then show ?thesis
    using e unescape_decodes [OF order.refl, of "u @ p"] by (simp add: Base64UnescapeToString_def Let_def)
qed

lemma unescape_reference:
  "Base64UnescapeToString unbase64 e =
    Ok (case base64_decodes unbase64 e of None \<Rightarrow> (False, []) | Some d \<Rightarrow> (True, d))"
  using unescape_decodes [OF order.refl, of e]
  by (simp add: Base64UnescapeToString_def Let_def split: option.split)

end

section \<open>Properties\<close>

text \<open>
  C20: Both base64 decoders never read past their input, always have room in the buffer that the caller
  sizes from the length of the input, and on every input agree with the reference decoder, which ignores
  white space and accepts no or exactly the right padding: the fast path on four characters, the slow
  path and the loop over the last characters decode the same digits.
\<close>

theorem base64_decoder:
  "Base64Unescape e = Ok (case base64_decodes kUnBase64 e of None \<Rightarrow> (False, []) | Some d \<Rightarrow> (True, d)) \<and>
   WebSafeBase64Unescape e =
     Ok (case base64_decodes kUnWebSafeBase64 e of None \<Rightarrow> (False, []) | Some d \<Rightarrow> (True, d))"
  unfolding Base64Unescape_def WebSafeBase64Unescape_def
  by (simp only: standard.unescape_reference web_safe.unescape_reference)

text \<open>
  C21: Decoding undoes encoding, in the standard alphabet with padding and in the web-safe one without,
  for every string of a length that fits in memory; the encoder neither overflows its length computation
  nor runs out of buffer.
\<close>

theorem base64_roundtrip:
  assumes "length s < 2 ^ 60"
  shows "(\<exists>e. Base64Escape s = Some e \<and> Base64Unescape e = Ok (True, s)) \<and>
    (\<exists>e. WebSafeBase64Escape s = Some e \<and> WebSafeBase64Unescape e = Ok (True, s))"
  unfolding Base64Escape_def WebSafeBase64Escape_def Base64Unescape_def WebSafeBase64Unescape_def
  using standard.escape_unescape [OF assms] web_safe.escape_unescape [OF assms] by simp

theorem base64_roundtrip_witness: "\<exists>e. Base64Escape ''Abseil'' = Some e \<and> Base64Unescape e = Ok (True, ''Abseil'')"
  using base64_roundtrip [of "''Abseil''"] by simp

end
