(* ===== verification/Hex_Url.thy ===== *)
theory Hex_Url
  imports Char_Set
begin

text \<open>
  Hexadecimal and URL encoding of \<^verbatim>\<open>strings/escaping.cc\<close>: bytes to hexadecimal digits and back (the
  strict and the lenient decoder), and percent-encoding of a URL component with and without plus signs for
  spaces. A buffer that is filled through a pointer is the list of the characters written to it.
\<close>

section \<open>Tables and digits\<close>

definition kHexChar :: string where
  "kHexChar = ''0123456789abcdef''"

definition kHexTable :: string where
  "kHexTable =
     ''000102030405060708090a0b0c0d0e0f'' @
     ''101112131415161718191a1b1c1d1e1f'' @
     ''202122232425262728292a2b2c2d2e2f'' @
     ''303132333435363738393a3b3c3d3e3f'' @
     ''404142434445464748494a4b4c4d4e4f'' @
     ''505152535455565758595a5b5c5d5e5f'' @
     ''606162636465666768696a6b6c6d6e6f'' @
     ''707172737475767778797a7b7c7d7e7f'' @
     ''808182838485868788898a8b8c8d8e8f'' @
     ''909192939495969798999a9b9c9d9e9f'' @
     ''a0a1a2a3a4a5a6a7a8a9aaabacadaeaf'' @
     ''b0b1b2b3b4b5b6b7b8b9babbbcbdbebf'' @
     ''c0c1c2c3c4c5c6c7c8c9cacbcccdcecf'' @
     ''d0d1d2d3d4d5d6d7d8d9dadbdcdddedf'' @
     ''e0e1e2e3e4e5e6e7e8e9eaebecedeeef'' @
     ''f0f1f2f3f4f5f6f7f8f9fafbfcfdfeff''"

definition kHexValueLenient :: "int list" where
  "kHexValueLenient =
    [0, 0, 0, 0, 0, 0, 0, 0, 0, 0, 0, 0, 0, 0, 0, 0,
    0, 0, 0, 0, 0, 0, 0, 0, 0, 0, 0, 0, 0, 0, 0, 0,
    0, 0, 0, 0, 0, 0, 0, 0, 0, 0, 0, 0, 0, 0, 0, 0,
    0, 1, 2, 3, 4, 5, 6, 7, 8, 9, 0, 0, 0, 0, 0, 0,
    0, 10, 11, 12, 13, 14, 15, 0, 0, 0, 0, 0, 0, 0, 0, 0,
    0, 0, 0, 0, 0, 0, 0, 0, 0, 0, 0, 0, 0, 0, 0, 0,
    0, 10, 11, 12, 13, 14, 15, 0, 0, 0, 0, 0, 0, 0, 0, 0,
    0, 0, 0, 0, 0, 0, 0, 0, 0, 0, 0, 0, 0, 0, 0, 0,
    0, 0, 0, 0, 0, 0, 0, 0, 0, 0, 0, 0, 0, 0, 0, 0,
    0, 0, 0, 0, 0, 0, 0, 0, 0, 0, 0, 0, 0, 0, 0, 0,
    0, 0, 0, 0, 0, 0, 0, 0, 0, 0, 0, 0, 0, 0, 0, 0,
    0, 0, 0, 0, 0, 0, 0, 0, 0, 0, 0, 0, 0, 0, 0, 0,
    0, 0, 0, 0, 0, 0, 0, 0, 0, 0, 0, 0, 0, 0, 0, 0,
    0, 0, 0, 0, 0, 0, 0, 0, 0, 0, 0, 0, 0, 0, 0, 0,
    0, 0, 0, 0, 0, 0, 0, 0, 0, 0, 0, 0, 0, 0, 0, 0,
    0, 0, 0, 0, 0, 0, 0, 0, 0, 0, 0, 0, 0, 0, 0, 0]"

definition kHexValueStrict :: "int list" where
  "kHexValueStrict =
    [- 1, - 1, - 1, - 1, - 1, - 1, - 1, - 1, - 1, - 1, - 1, - 1, - 1, - 1, - 1, - 1,
    - 1, - 1, - 1, - 1, - 1, - 1, - 1, - 1, - 1, - 1, - 1, - 1, - 1, - 1, - 1, - 1,
    - 1, - 1, - 1, - 1, - 1, - 1, - 1, - 1, - 1, - 1, - 1, - 1, - 1, - 1, - 1, - 1,
    0, 1, 2, 3, 4, 5, 6, 7, 8, 9, - 1, - 1, - 1, - 1, - 1, - 1,
    - 1, 10, 11, 12, 13, 14, 15, - 1, - 1, - 1, - 1, - 1, - 1, - 1, - 1, - 1,
    - 1, - 1, - 1, - 1, - 1, - 1, - 1, - 1, - 1, - 1, - 1, - 1, - 1, - 1, - 1, - 1,
    - 1, 10, 11, 12, 13, 14, 15, - 1, - 1, - 1, - 1, - 1, - 1, - 1, - 1, - 1,
    - 1, - 1, - 1, - 1, - 1, - 1, - 1, - 1, - 1, - 1, - 1, - 1, - 1, - 1, - 1, - 1,
    - 1, - 1, - 1, - 1, - 1, - 1, - 1, - 1, - 1, - 1, - 1, - 1, - 1, - 1, - 1, - 1,
    - 1, - 1, - 1, - 1, - 1, - 1, - 1, - 1, - 1, - 1, - 1, - 1, - 1, - 1, - 1, - 1,
    - 1, - 1, - 1, - 1, - 1, - 1, - 1, - 1, - 1, - 1, - 1, - 1, - 1, - 1, - 1, - 1,
    - 1, - 1, - 1, - 1, - 1, - 1, - 1, - 1, - 1, - 1, - 1, - 1, - 1, - 1, - 1, - 1,
    - 1, - 1, - 1, - 1, - 1, - 1, - 1, - 1, - 1, - 1, - 1, - 1, - 1, - 1, - 1, - 1,
    - 1, - 1, - 1, - 1, - 1, - 1, - 1, - 1, - 1, - 1, - 1, - 1, - 1, - 1, - 1, - 1,
    - 1, - 1, - 1, - 1, - 1, - 1, - 1, - 1, - 1, - 1, - 1, - 1, - 1, - 1, - 1, - 1,
    - 1, - 1, - 1, - 1, - 1, - 1, - 1, - 1, - 1, - 1, - 1, - 1, - 1, - 1, - 1, - 1]"

definition hex_digit_to_int :: "char \<Rightarrow> int" where
  "hex_digit_to_int c = (let x = uc c; x = if x > uc CHR ''9'' then x + 9 else x in x AND 0xf)"

definition int_to_hex_digit :: "int \<Rightarrow> char" where
  "int_to_hex_digit i = (if i < 10 then chr (i + uc CHR ''0'') else chr (i - 10 + uc CHR ''A''))"

section \<open>Hexadecimal strings\<close>

fun HexStringToBytesInternal :: "string \<Rightarrow> nat \<Rightarrow> string" where
  "HexStringToBytesInternal (a # b # from) (Suc num) =
    chr (uc (chr (push_bit 4 (kHexValueLenient ! nat (uc a)))) + uc (chr (kHexValueLenient ! nat (uc b)))) #
    HexStringToBytesInternal from num"
| "HexStringToBytesInternal from num = []"

definition HexStringToBytes_lenient :: "string \<Rightarrow> string" where
  "HexStringToBytes_lenient from = (let num = length from div 2 in HexStringToBytesInternal from num)"

text \<open>The loop of the strict decoder; None is the early return of 0.\<close>

fun strict_loop :: "string \<Rightarrow> nat \<Rightarrow> string option" where
  "strict_loop (a # b # hex) (Suc n) =
    (let h1 = kHexValueStrict ! nat (uc a); h2 = kHexValueStrict ! nat (uc b)
     in if h1 = - 1 \<or> h2 = - 1 then None
        else map_option (\<lambda>rest. chr (push_bit 4 h1 + h2) # rest) (strict_loop hex n))"
| "strict_loop hex n = Some []"

text \<open>
  The strict decoder: None for failure, which leaves the target alone. As in the code the loop signals
  an error by an output of length 0, and the lengths are compared afterwards.
\<close>

definition HexStringToBytes :: "string \<Rightarrow> string option" where
  "HexStringToBytes hex =
    (let num_bytes = length hex div 2
     in if length hex \<noteq> num_bytes * 2 then None
        else let out = (case strict_loop hex num_bytes of None \<Rightarrow> [] | Some buf \<Rightarrow> buf)
             in if length out \<noteq> num_bytes then None else Some out)"

primrec BytesToHexStringInternal :: "string \<Rightarrow> string" where
  "BytesToHexStringInternal [] = []"
| "BytesToHexStringInternal (c # src) = take 2 (drop (nat (uc c) * 2) kHexTable) @ BytesToHexStringInternal src"

definition BytesToHexString :: "string \<Rightarrow> string option" where
  "BytesToHexString from =
    (if \<not> int (length from) \<le> (2 ^ 64 - 1) div 2 then None else Some (BytesToHexStringInternal from))"

section \<open>URL encoding\<close>

definition kRfc3986Unreserved :: CharSet where
  "kRfc3986Unreserved = CharSet_or AsciiAlphanumerics (CharSet_of_string ''-._~'')"

primrec url_escape_loop :: "bool \<Rightarrow> string \<Rightarrow> string" where
  "url_escape_loop escape_space_to_plus [] = []"
| "url_escape_loop escape_space_to_plus (c # input) =
    (if contains kRfc3986Unreserved c then [c]
     else if escape_space_to_plus \<and> c = CHR '' '' then ''+''
     else [CHR ''%'', int_to_hex_digit (drop_bit 4 (uc c) AND 0xf), int_to_hex_digit (uc c AND 0xf)]) @
    url_escape_loop escape_space_to_plus input"

definition UrlEscapeInternal :: "string \<Rightarrow> bool \<Rightarrow> string option" where
  "UrlEscapeInternal input escape_space_to_plus =
    (let initial = takeWhile (contains kRfc3986Unreserved) input; initial_portion = length initial
     in if initial_portion = length input then Some input
        else if \<not> int (length input - initial_portion) \<le> (2 ^ 64 - 1 - int initial_portion) div 3 then None
        else Some (initial @ url_escape_loop escape_space_to_plus (drop initial_portion input)))"

fun url_unescape_loop :: "bool \<Rightarrow> string \<Rightarrow> string option" where
  "url_unescape_loop unescape_plus_to_space [] = Some []"
| "url_unescape_loop unescape_plus_to_space (c # input) =
    (if unescape_plus_to_space \<and> c = CHR ''+'' then
       map_option (\<lambda>out. CHR '' '' # out) (url_unescape_loop unescape_plus_to_space input)
     else if c = CHR ''%'' then
       case input of
         a # b # rest \<Rightarrow>
           if \<not> ascii_isxdigit a \<or> \<not> ascii_isxdigit b then None
           else let x = push_bit 4 (hex_digit_to_int a); x = x + hex_digit_to_int b
                in map_option (\<lambda>out. chr x # out) (url_unescape_loop unescape_plus_to_space rest)
       | _ \<Rightarrow> None
     else map_option (\<lambda>out. c # out) (url_unescape_loop unescape_plus_to_space input))"

definition UrlUnescapeInternal :: "string \<Rightarrow> bool \<Rightarrow> string option" where
  "UrlUnescapeInternal input unescape_plus_to_space =
    (let initial = takeWhile (\<lambda>c. \<not> (c = CHR ''%'' \<or> unescape_plus_to_space \<and> c = CHR ''+'')) input
     in if initial = input then Some input
        else let out = (case url_unescape_loop unescape_plus_to_space (drop (length initial) input) of
                          None \<Rightarrow> [] | Some rest \<Rightarrow> initial @ rest)
             in if out = [] then None else Some out)"

definition UrlEscape :: "string \<Rightarrow> string option" where
  "UrlEscape input = UrlEscapeInternal input False"

definition UrlUnescape :: "string \<Rightarrow> string option" where
  "UrlUnescape input = UrlUnescapeInternal input False"

definition UrlEscapePlus :: "string \<Rightarrow> string option" where
  "UrlEscapePlus input = UrlEscapeInternal input True"

definition UrlUnescapePlus :: "string \<Rightarrow> string option" where
  "UrlUnescapePlus input = UrlUnescapeInternal input True"

section \<open>The tables as functions of the byte\<close>

definition hex_value :: "int \<Rightarrow> int" where
  "hex_value b =
    (if 48 \<le> b \<and> b \<le> 57 then b - 48 else if 65 \<le> b \<and> b \<le> 70 then b - 55
     else if 97 \<le> b \<and> b \<le> 102 then b - 87 else - 1)"

lemma kHexValueStrict_map: "kHexValueStrict = map hex_value [0..255]"
  by code_simp

lemma kHexValueLenient_map: "kHexValueLenient = map (\<lambda>b. if hex_value b = - 1 then 0 else hex_value b) [0..255]"
  by code_simp

definition hex_char :: "int \<Rightarrow> char" where
  "hex_char i = chr (if i < 10 then i + 48 else i + 87)"

lemma kHexTable_map: "map uc kHexTable = concat (map (\<lambda>b. map (\<lambda>i. if i < 10 then i + 48 else i + 87) [b div 16, b mod 16]) [0..255])"
  by code_simp

lemma nth_upto_uc: "[0..255 :: int] ! nat (uc c) = uc c"
proof -
  have "uc c \<le> 255" using uc_less [of c] by linarith
  then show ?thesis by (subst nth_upto) simp_all
qed

lemma inj_uc: "inj uc"
  by (rule injI) simp

lemma hex_lookup:
  "kHexValueStrict ! nat (uc c) = hex_value (uc c)"
  "kHexValueLenient ! nat (uc c) = (if hex_value (uc c) = - 1 then 0 else hex_value (uc c))"
  by (rule byte_table [OF kHexValueStrict_map], rule byte_table [OF kHexValueLenient_map])

lemma ascii_isxdigit_hex: "ascii_isxdigit c \<longleftrightarrow> hex_value (uc c) \<noteq> - 1"
  unfolding ascii_isxdigit_iff by (auto simp: hex_value_def)

lemma hex_value_range: "hex_value b = - 1 \<or> 0 \<le> hex_value b \<and> hex_value b < 16"
  by (auto simp: hex_value_def)

lemma hex_digit_to_int_eq: "ascii_isxdigit c \<Longrightarrow> hex_digit_to_int c = hex_value (uc c)"
proof -
  have "hex_value (uc c) = - 1 \<or> ((if uc c > 57 then uc c + 9 else uc c) AND 0xf) = hex_value (uc c)"
    by (rule byte_all, code_simp)
  then show "ascii_isxdigit c \<Longrightarrow> hex_digit_to_int c = hex_value (uc c)"
    by (simp add: hex_digit_to_int_def ascii_isxdigit_hex Let_def split: if_splits)
qed

text \<open>The three printers of a digit are read back by the parsers.\<close>

lemma digit_16: "0 \<le> i \<Longrightarrow> i < 16 \<Longrightarrow> list_all P [0..15] \<Longrightarrow> P i" for i :: int
  by (simp add: list_all_iff)

lemma hex_char_value: "0 \<le> i \<Longrightarrow> i < 16 \<Longrightarrow> hex_value (uc (hex_char i)) = i"
  by (auto simp: hex_char_def uc_chr hex_value_def)

lemma int_to_hex_digit_value: "0 \<le> i \<Longrightarrow> i < 16 \<Longrightarrow> hex_value (uc (int_to_hex_digit i)) = i"
  by (auto simp: int_to_hex_digit_def uc_chr hex_value_def)

lemma uc_nibbles:
  "0 \<le> uc c div 16" "uc c div 16 < 16" "0 \<le> uc c mod 16" "uc c mod 16 < 16" "push_bit 4 (uc c div 16) + uc c mod 16 = uc c"
  using uc_less [of c] mult_div_mod_eq [of 16 "uc c"]
  by (simp_all add: div_less_iff_less_mult pos_imp_zdiv_nonneg_iff push_bit_eq_mult del: uc_less)

lemma take_drop_concat:
  "\<forall>x \<in> set xs. length (f x) = n \<Longrightarrow> i < length xs \<Longrightarrow> take n (drop (n * i) (concat (map f xs))) = f (xs ! i)"
proof (induction xs arbitrary: i)
  case (Cons x xs)
  then show ?case by (cases i) auto
qed simp

lemma kHexTable_entry: "take 2 (drop (nat (uc c) * 2) kHexTable) = [hex_char (uc c div 16), hex_char (uc c mod 16)]"
proof -
  have "[0..255 :: int] ! nat (uc c) = uc c" by (rule nth_upto_uc)
  then have "map uc (take 2 (drop (2 * nat (uc c)) kHexTable)) = map (\<lambda>i. if i < 10 then i + 48 else i + 87) [uc c div 16, uc c mod 16]"
    unfolding take_map [symmetric] drop_map [symmetric] kHexTable_map by (subst take_drop_concat) simp_all
  also have "\<dots> = map uc [hex_char (uc c div 16), hex_char (uc c mod 16)]"
    using uc_nibbles [of c] by (simp add: hex_char_def uc_chr)
  finally have "map uc (take 2 (drop (2 * nat (uc c)) kHexTable)) = map uc [hex_char (uc c div 16), hex_char (uc c mod 16)]" .
  then show ?thesis by (simp only: inj_map_eq_map [OF inj_uc] mult.commute)
qed

section \<open>Hexadecimal strings\<close>

lemma strict_loop_hex: "strict_loop (BytesToHexStringInternal s) (length s) = Some s"
proof (induction s)
  case (Cons c s)
  have e: "kHexValueStrict ! nat (uc (hex_char (uc c div 16))) = uc c div 16" "kHexValueStrict ! nat (uc (hex_char (uc c mod 16))) = uc c mod 16"
    using uc_nibbles [of c] by (simp_all only: hex_lookup hex_char_value)
  have "uc c div 16 \<noteq> - 1" "uc c mod 16 \<noteq> - 1" using uc_nibbles(1,3) [of c] by linarith+
  then show ?case using Cons uc_nibbles(5) [of c]
    by (simp only: BytesToHexStringInternal.simps kHexTable_entry append_Cons append_Nil list.size
        add_0_right One_nat_def add_Suc_right strict_loop.simps e Let_def) simp
qed simp

lemma length_BytesToHex: "length (BytesToHexStringInternal s) = 2 * length s"
  by (induction s) (simp_all only: BytesToHexStringInternal.simps kHexTable_entry length_append list.size, simp_all)

text \<open>The strict decoder accepts digits only, and then agrees with the lenient one.\<close>

lemma strict_loop_eq:
  "length hex = 2 * n \<Longrightarrow>
   strict_loop hex n = (if list_all ascii_isxdigit hex then Some (HexStringToBytesInternal hex n) else None)"
proof (induction hex n rule: strict_loop.induct)
  case (1 a b hex n)
  have "uc (chr (uc (chr x) + uc (chr y))) = uc (chr (x + y))" for x y
    by (simp only: uc_chr mod_add_eq)
  then have "chr (uc (chr x) + uc (chr y)) = chr (x + y)" for x y by (simp only: uc_inject)
  then show ?case using 1 by (auto simp: Let_def hex_lookup ascii_isxdigit_hex)
qed (auto simp: length_Suc_conv)

lemma length_HexStringToBytesInternal: "length from = 2 * n \<Longrightarrow> length (HexStringToBytesInternal from n) = n"
  by (induction "from" n rule: HexStringToBytesInternal.induct) (auto simp: length_Suc_conv)

lemma HexStringToBytes_eq:
  "HexStringToBytes hex =
    (if even (length hex) \<and> list_all ascii_isxdigit hex then Some (HexStringToBytes_lenient hex) else None)"
proof (cases "even (length hex)")
  case True
  define n where "n = length hex div 2"
  have n: "length hex = 2 * n" using True by (simp add: n_def)
  have "hex = []" if "n = 0" using n that by simp
  then show ?thesis
    using True strict_loop_eq [OF n] length_HexStringToBytesInternal [OF n] n
    by (auto simp: HexStringToBytes_def HexStringToBytes_lenient_def Let_def)
next
  case False
  then have "length hex \<noteq> length hex div 2 * 2" by (metis dvd_triv_right)
  then show ?thesis using False by (simp add: HexStringToBytes_def)
qed

section \<open>URL encoding\<close>

lemma UrlEscapeInternal_eq:
  "UrlEscapeInternal input to_plus = None \<or> UrlEscapeInternal input to_plus = Some (url_escape_loop to_plus input)"
proof -
  define P where "P = contains kRfc3986Unreserved"
  have copy: "url_escape_loop to_plus (xs @ ys) = xs @ url_escape_loop to_plus ys" if "\<forall>x \<in> set xs. contains kRfc3986Unreserved x" for xs ys
    using that by (induction xs) auto
  have "url_escape_loop to_plus input = takeWhile P input @ url_escape_loop to_plus (dropWhile P input)"
    using copy [of "takeWhile P input" "dropWhile P input"] set_takeWhileD [of _ P input] by (simp add: P_def)
  moreover have "drop (length (takeWhile P input)) input = dropWhile P input"
    by (metis append_eq_conv_conj takeWhile_dropWhile_id)
  moreover have "url_escape_loop to_plus input = input" if "length (takeWhile P input) = length input"
  proof -
    have "takeWhile P input = input" using that takeWhile_eq_take [of P input] by simp
    then have "\<forall>x \<in> set input. P x" by (metis set_takeWhileD)
    then show ?thesis using copy [of input "[]"] by (simp add: P_def)
  qed
  ultimately show ?thesis by (auto simp: UrlEscapeInternal_def Let_def simp flip: P_def)
qed

lemma UrlEscapeInternal_defined:
  assumes "int (length input) \<le> 2 ^ 62"
  shows "UrlEscapeInternal input to_plus = Some (url_escape_loop to_plus input)"
proof -
  define k where "k = length (takeWhile (contains kRfc3986Unreserved) input)"
  have "k \<le> length input" unfolding k_def by (rule length_takeWhile_le)
  then have "int (length input - k) * 3 \<le> 2 ^ 64 - 1 - int k" using assms by simp
  then have "int (length input - k) \<le> (2 ^ 64 - 1 - int k) div 3"
    by (simp only: less_eq_div_iff_mult_less_eq zero_less_numeral)
  then have "UrlEscapeInternal input to_plus \<noteq> None" by (auto simp: UrlEscapeInternal_def Let_def k_def)
  then show ?thesis using UrlEscapeInternal_eq [of input to_plus] by auto
qed

lemma url_unescape_loop_Nil: "url_unescape_loop to_plus input = Some [] \<Longrightarrow> input = []"
  by (cases input) (auto split: if_splits list.splits simp: Let_def)

lemma UrlUnescapeInternal_eq: "UrlUnescapeInternal input to_plus = url_unescape_loop to_plus input"
proof -
  define P where "P c \<longleftrightarrow> \<not> (c = CHR ''%'' \<or> to_plus \<and> c = CHR ''+'')" for c
  have step: "url_unescape_loop to_plus (x # zs) = map_option (\<lambda>out. x # out) (url_unescape_loop to_plus zs)" if "P x" for x zs
    using that by (subst url_unescape_loop.simps) (auto simp: P_def)
  have copy: "url_unescape_loop to_plus (xs @ ys) = map_option (append xs) (url_unescape_loop to_plus ys)" if "\<forall>x \<in> set xs. P x" for xs ys
    using that
  proof (induction xs)
    case (Cons x xs)
    then show ?case by (cases "url_unescape_loop to_plus ys") (simp_all add: step del: url_unescape_loop.simps)
  qed (cases "url_unescape_loop to_plus ys", simp_all)
  have split: "url_unescape_loop to_plus input = map_option (append (takeWhile P input)) (url_unescape_loop to_plus (dropWhile P input))"
    using copy [of "takeWhile P input" "dropWhile P input"] set_takeWhileD [of _ P input] by simp
  have drop: "drop (length (takeWhile P input)) input = dropWhile P input"
    by (metis append_eq_conv_conj takeWhile_dropWhile_id)
  have P: "takeWhile (\<lambda>c. \<not> (c = CHR ''%'' \<or> to_plus \<and> c = CHR ''+'')) input = takeWhile P input"
    by (simp add: P_def [abs_def])
  show ?thesis
  proof (cases "takeWhile P input = input")
    case True
    then have d: "dropWhile P input = []" using takeWhile_dropWhile_id [of P input] by (metis append_self_conv)
    show ?thesis unfolding split d unfolding UrlUnescapeInternal_def P True by simp
  next
    case False
    then have "dropWhile P input \<noteq> []" using takeWhile_dropWhile_id [of P input] by force
    then show ?thesis
      using False split url_unescape_loop_Nil [of to_plus "dropWhile P input"]
      unfolding UrlUnescapeInternal_def P Let_def drop
      by (cases "url_unescape_loop to_plus (dropWhile P input)") auto
  qed
qed

lemma unreserved_iff: "contains kRfc3986Unreserved c \<longleftrightarrow> ascii_isalnum c \<or> c \<in> set ''-._~''"
proof -
  have "contains AsciiAlphanumerics c = ascii_isalnum c"
    unfolding AsciiAlphanumerics_def AsciiAlphabet_def AsciiDigits_def AsciiUppercase_def AsciiLowercase_def
      contains_simps ascii_isalnum_def byte_tables property_bits_bits by auto
  then show ?thesis by (simp only: kRfc3986Unreserved_def contains_or contains_of_string)
qed

lemma unreserved_not_special: "contains kRfc3986Unreserved c \<Longrightarrow> c \<noteq> CHR ''%'' \<and> c \<noteq> CHR ''+''"
  unfolding unreserved_iff ascii_isalnum_def byte_tables property_bits_bits by auto

text \<open>One escaped character is read back.\<close>

lemma url_unescape_char:
  "url_unescape_loop to_plus (url_escape_loop to_plus [c] @ rest) = map_option (\<lambda>out. c # out) (url_unescape_loop to_plus rest)"
proof -
  consider "contains kRfc3986Unreserved c" | "\<not> contains kRfc3986Unreserved c" "to_plus \<and> c = CHR '' ''"
    | "\<not> contains kRfc3986Unreserved c" "\<not> (to_plus \<and> c = CHR '' '')" by blast
  then show ?thesis
  proof cases
    case 1
    then have "url_escape_loop to_plus [c] @ rest = c # rest" by simp
    then show ?thesis using unreserved_not_special [OF 1] by (simp only:) (subst url_unescape_loop.simps, simp)
  next
    case 2
    then have "url_escape_loop to_plus [c] @ rest = CHR ''+'' # rest" by auto
    then show ?thesis using 2 by (simp only:) (subst url_unescape_loop.simps, simp)
  next
    case 3
    have low: "uc c AND 0xf = uc c mod 16" using take_bit_eq_mask [of 4 "uc c"] by (simp add: take_bit_eq_mod mask_eq_exp_minus_1)
    have "drop_bit 4 (uc c) AND 0xf = uc c div 16 mod 16"
      using take_bit_eq_mask [of 4 "uc c div 16"] by (simp add: take_bit_eq_mod mask_eq_exp_minus_1 drop_bit_eq_div)
    then have high: "drop_bit 4 (uc c) AND 0xf = uc c div 16" using uc_nibbles(1,2) [of c] by simp
    define a b where ab: "a = int_to_hex_digit (uc c div 16)" "b = int_to_hex_digit (uc c mod 16)"
    have v: "hex_value (uc a) = uc c div 16" "hex_value (uc b) = uc c mod 16"
      unfolding ab using uc_nibbles [of c] by (simp_all only: int_to_hex_digit_value)
    have x: "ascii_isxdigit a" "ascii_isxdigit b"
      unfolding ascii_isxdigit_hex v using uc_nibbles(1,3) [of c] by linarith+
    have "url_escape_loop to_plus [c] @ rest = CHR ''%'' # a # b # rest" using 3 by (auto simp: high low ab)
    moreover have "chr (push_bit 4 (hex_digit_to_int a) + hex_digit_to_int b) = c"
      unfolding hex_digit_to_int_eq [OF x(1)] hex_digit_to_int_eq [OF x(2)] v uc_nibbles(5) by (rule chr_uc)
    ultimately show ?thesis using x by (simp only:) (subst url_unescape_loop.simps, simp add: Let_def)
  qed
qed

lemma url_escape_loop_Cons: "url_escape_loop to_plus (c # s) = url_escape_loop to_plus [c] @ url_escape_loop to_plus s"
  by simp

lemma url_roundtrip_loop: "url_unescape_loop to_plus (url_escape_loop to_plus s) = Some s"
proof (induction s)
  case (Cons c s)
  then show ?case unfolding url_escape_loop_Cons [of to_plus c s] url_unescape_char by simp
qed simp

lemma hex_digit_unreserved: "0 \<le> i \<Longrightarrow> i < 16 \<Longrightarrow> contains kRfc3986Unreserved (int_to_hex_digit i)"
  unfolding unreserved_iff ascii_isalnum_def byte_tables property_bits_bits
  by (auto simp: int_to_hex_digit_def uc_chr)

lemma url_escape_alphabet:
  "list_all (\<lambda>c. contains kRfc3986Unreserved c \<or> c = CHR ''%'' \<or> to_plus \<and> c = CHR ''+'') (url_escape_loop to_plus s)"
proof -
  have "0 \<le> i AND 0xf \<and> i AND 0xf < 16" for i :: int
    using take_bit_eq_mask [of 4 i] pos_mod_bound [of 16 i] by (simp add: take_bit_eq_mod mask_eq_exp_minus_1)
  then have "contains kRfc3986Unreserved (int_to_hex_digit (i AND 0xf))" for i by (simp add: hex_digit_unreserved)
  then show ?thesis by (induction s) auto
qed

lemma url_escape_length: "length (url_escape_loop to_plus s) \<le> 3 * length s"
  by (induction s) auto

section \<open>Properties\<close>

text \<open>
  C27: Printing bytes in hexadecimal and reading them back, with either decoder, gives the bytes; the
  strict decoder accepts exactly the strings of an even number of hexadecimal digits (of either case) and
  agrees with the lenient one on them.
\<close>

theorem hex_roundtrip:
  assumes "length s < 2 ^ 63"
  shows "(\<exists>e. BytesToHexString s = Some e \<and> HexStringToBytes e = Some s \<and> HexStringToBytes_lenient e = s) \<and>
    HexStringToBytes h =
      (if even (length h) \<and> list_all ascii_isxdigit h then Some (HexStringToBytes_lenient h) else None)"
proof -
  define e where "e = BytesToHexStringInternal s"
  have l: "length e = 2 * length s" by (simp add: e_def length_BytesToHex)
  have "int (length s) \<le> (2 ^ 64 - 1) div 2" using assms by simp
  then have "BytesToHexString s = Some e" by (simp add: BytesToHexString_def e_def)
  moreover have "strict_loop e (length s) = Some s" by (simp add: e_def strict_loop_hex)
  then have "list_all ascii_isxdigit e" "HexStringToBytesInternal e (length s) = s"
    using strict_loop_eq [OF l] by (simp_all split: if_splits)
  then have "HexStringToBytes_lenient e = s" "HexStringToBytes e = Some s"
    using l unfolding HexStringToBytes_eq HexStringToBytes_lenient_def by simp_all
  ultimately show ?thesis by (auto simp: HexStringToBytes_eq)
qed

theorem hex_roundtrip_witness: "\<exists>e. BytesToHexString ''Abseil'' = Some e \<and> HexStringToBytes e = Some ''Abseil''"
  using hex_roundtrip [of "''Abseil''" "[]"] by auto



end
