(* ===== verification/Utf8.thy ===== *)
theory Utf8
  imports Ascii
begin

text \<open>
  UTF-8 encoding, \<^verbatim>\<open>strings/internal/utf8.cc\<close>: the encoder of a code point, and the converter of wide
  characters, which keeps the state between the two halves of a surrogate pair. Code points and wide
  characters are their integer values.
\<close>

section \<open>Encoders\<close>

definition EncodeUTF8Char :: "int \<Rightarrow> string" where
  "EncodeUTF8Char utf8_char =
    (if utf8_char \<le> 0x7F then [chr utf8_char]
     else if utf8_char \<le> 0x7FF then
       let b1 = chr (0x80 OR (utf8_char AND 0x3F)); utf8_char = drop_bit 6 utf8_char;
           b0 = chr (0xC0 OR utf8_char)
       in [b0, b1]
     else if utf8_char \<le> 0xFFFF then
       let b2 = chr (0x80 OR (utf8_char AND 0x3F)); utf8_char = drop_bit 6 utf8_char;
           b1 = chr (0x80 OR (utf8_char AND 0x3F)); utf8_char = drop_bit 6 utf8_char;
           b0 = chr (0xE0 OR utf8_char)
       in [b0, b1, b2]
     else
       let b3 = chr (0x80 OR (utf8_char AND 0x3F)); utf8_char = drop_bit 6 utf8_char;
           b2 = chr (0x80 OR (utf8_char AND 0x3F)); utf8_char = drop_bit 6 utf8_char;
           b1 = chr (0x80 OR (utf8_char AND 0x3F)); utf8_char = drop_bit 6 utf8_char;
           b0 = chr (0xF0 OR utf8_char)
       in [b0, b1, b2, b3])"

record ShiftState =
  saw_high_surrogate :: bool
  bits :: int

definition initial_shift :: ShiftState where
  "initial_shift = \<lparr>saw_high_surrogate = False, bits = 0\<rparr>"

text \<open>
  The bytes written, or None for \<^verbatim>\<open>kError\<close>, with the new state; wide characters of more than sixteen
  bits, so that the last branch is compiled.
\<close>

definition WideToUtf8 :: "int \<Rightarrow> ShiftState \<Rightarrow> string option \<times> ShiftState" where
  "WideToUtf8 v s =
    (if v \<le> 0x007F then (Some [chr (0x7F AND v)], initial_shift)
     else if 0x0080 \<le> v \<and> v \<le> 0x07FF then
       (Some [chr (0xC0 OR (0x1F AND drop_bit 6 v)), chr (0x80 OR (0x3F AND v))], initial_shift)
     else if (0x0800 \<le> v \<and> v \<le> 0xD7FF) \<or> (0xE000 \<le> v \<and> v \<le> 0xFFFF) then
       (Some [chr (0xE0 OR (0x0F AND drop_bit 12 v)), chr (0x80 OR (0x3F AND drop_bit 6 v)),
              chr (0x80 OR (0x3F AND v))], initial_shift)
     else if 0xD800 \<le> v \<and> v \<le> 0xDBFF then
       let high_bits_val = (0x0F AND drop_bit 6 v) + 1
       in (Some [chr (0xF0 OR (0x07 AND drop_bit 2 high_bits_val)),
                 chr (0x80 OR (0x30 AND push_bit 4 high_bits_val) OR (0x0F AND drop_bit 2 v))],
           \<lparr>saw_high_surrogate = True, bits = 0x03 AND v\<rparr>)
     else if 0xDC00 \<le> v \<and> v \<le> 0xDFFF then
       if \<not> saw_high_surrogate s then (None, s)
       else (Some [chr (0x80 OR (0x30 AND push_bit 4 (bits s)) OR (0x0F AND drop_bit 6 v)),
                   chr (0x80 OR (0x3F AND v))], initial_shift)
     else if 0x10000 \<le> v \<and> v \<le> 0x10FFFF then
       (Some [chr (0xF0 OR (0x07 AND drop_bit 18 v)), chr (0x80 OR (0x3F AND drop_bit 12 v)),
              chr (0x80 OR (0x3F AND drop_bit 6 v)), chr (0x80 OR (0x3F AND v))], initial_shift)
     else (None, initial_shift))"

section \<open>Reference decoder\<close>

text \<open>One code point from the front of a byte sequence, by the lead byte.\<close>

fun utf8_decode :: "string \<Rightarrow> (int \<times> string) option" where
  "utf8_decode [] = None"
| "utf8_decode (a # s) =
    (if uc a < 0x80 then Some (uc a, s)
     else if 0xC0 \<le> uc a \<and> uc a < 0xE0 then
       case s of b # s \<Rightarrow> Some ((uc a - 0xC0) * 64 + (uc b - 0x80), s) | _ \<Rightarrow> None
     else if 0xE0 \<le> uc a \<and> uc a < 0xF0 then
       case s of b # c # s \<Rightarrow> Some (((uc a - 0xE0) * 64 + (uc b - 0x80)) * 64 + (uc c - 0x80), s) | _ \<Rightarrow> None
     else if 0xF0 \<le> uc a \<and> uc a < 0xF8 then
       case s of b # c # d # s \<Rightarrow>
         Some ((((uc a - 0xF0) * 64 + (uc b - 0x80)) * 64 + (uc c - 0x80)) * 64 + (uc d - 0x80), s) | _ \<Rightarrow> None
     else None)"

section \<open>Bytes of an encoding\<close>

lemma and_6: "x AND 0x3F = x mod 64" "0x3F AND x = x mod 64" for x :: int
  using take_bit_eq_mask [of 6 x] by (simp_all add: take_bit_eq_mod mask_eq_exp_minus_1 and.commute)

lemma and_low_bits: "0x7F AND x = x mod 128" "0x1F AND x = x mod 32" "0x0F AND x = x mod 16" "0x07 AND x = x mod 8" "0x03 AND x = x mod 4" for x :: int
  using take_bit_eq_mask [of 7 x] take_bit_eq_mask [of 5 x] take_bit_eq_mask [of 4 x] take_bit_eq_mask [of 3 x] take_bit_eq_mask [of 2 x]
  by (simp_all add: take_bit_eq_mod mask_eq_exp_minus_1 and.commute)

lemma small_int: "0 \<le> i \<Longrightarrow> i < 64 \<Longrightarrow> list_all P [0..63] \<Longrightarrow> P i" for i :: int
  by (simp add: list_all_iff)

lemma lead_or:
  fixes x :: int
  shows "0 \<le> x \<Longrightarrow> x < 64 \<Longrightarrow> 0x80 OR x = 0x80 + x"
    and "0 \<le> x \<Longrightarrow> x < 32 \<Longrightarrow> 0xC0 OR x = 0xC0 + x"
    and "0 \<le> x \<Longrightarrow> x < 16 \<Longrightarrow> 0xE0 OR x = 0xE0 + x"
    and "0 \<le> x \<Longrightarrow> x < 8 \<Longrightarrow> 0xF0 OR x = 0xF0 + x"
proof -
  have "list_all (\<lambda>x. 0x80 OR x = 0x80 + x) [0..63 :: int]" "list_all (\<lambda>x. x < 32 \<longrightarrow> 0xC0 OR x = 0xC0 + x) [0..63 :: int]"
    "list_all (\<lambda>x. x < 16 \<longrightarrow> 0xE0 OR x = 0xE0 + x) [0..63 :: int]" "list_all (\<lambda>x. x < 8 \<longrightarrow> 0xF0 OR x = 0xF0 + x) [0..63 :: int]"
    by code_simp+
  note s = this [unfolded list_all_iff, simplified]
  show "0 \<le> x \<Longrightarrow> x < 64 \<Longrightarrow> 0x80 OR x = 0x80 + x" "0 \<le> x \<Longrightarrow> x < 32 \<Longrightarrow> 0xC0 OR x = 0xC0 + x"
    "0 \<le> x \<Longrightarrow> x < 16 \<Longrightarrow> 0xE0 OR x = 0xE0 + x" "0 \<le> x \<Longrightarrow> x < 8 \<Longrightarrow> 0xF0 OR x = 0xF0 + x"
    using s by simp_all
qed

lemma uc_chr_small: "0 \<le> x \<Longrightarrow> x < 256 \<Longrightarrow> uc (chr x) = x"
  by (simp add: uc_chr)

lemma tail_byte: "chr (0x80 OR x mod 64) = chr (0x80 + x mod 64)" "uc (chr (0x80 + x mod 64)) = 0x80 + x mod 64" for x :: int
proof -
  have "0 \<le> x mod 64" "x mod 64 < 64" by simp_all
  then show "chr (0x80 OR x mod 64) = chr (0x80 + x mod 64)" "uc (chr (0x80 + x mod 64)) = 0x80 + x mod 64"
    using lead_or(1) uc_chr_small [of "0x80 + x mod 64"] by simp_all
qed

lemma encode_1: "0 \<le> r \<Longrightarrow> r \<le> 0x7F \<Longrightarrow> EncodeUTF8Char r = [chr r]"
  by (simp add: EncodeUTF8Char_def)

lemma encode_2:
  assumes "0x80 \<le> r" "r \<le> 0x7FF"
  shows "EncodeUTF8Char r = [chr (0xC0 + r div 64), chr (0x80 + r mod 64)]"
proof -
  have "0 \<le> r div 64" "r div 64 < 32" using assms by (simp_all add: div_less_iff_less_mult pos_imp_zdiv_nonneg_iff)
  from lead_or(2) [OF this] show ?thesis
    using assms by (simp add: EncodeUTF8Char_def Let_def drop_bit_eq_div and_6 tail_byte(1))
qed

lemma encode_3:
  assumes "0x800 \<le> r" "r \<le> 0xFFFF"
  shows "EncodeUTF8Char r = [chr (0xE0 + r div 4096), chr (0x80 + r div 64 mod 64), chr (0x80 + r mod 64)]"
proof -
  have "0 \<le> r div 4096" "r div 4096 < 16" using assms by (simp_all add: div_less_iff_less_mult pos_imp_zdiv_nonneg_iff)
  note l = lead_or(3) [OF this]
  have "drop_bit 6 (drop_bit 6 r) = r div 4096" "drop_bit 6 r = r div 64" by (simp_all add: drop_bit_eq_div)
  then show ?thesis
    using assms by (simp add: EncodeUTF8Char_def Let_def and_6 tail_byte(1) l)
qed

lemma encode_4:
  assumes "0x10000 \<le> r" "r \<le> 0x10FFFF"
  shows "EncodeUTF8Char r = [chr (0xF0 + r div 262144), chr (0x80 + r div 4096 mod 64), chr (0x80 + r div 64 mod 64), chr (0x80 + r mod 64)]"
proof -
  have "0 \<le> r div 262144" "r div 262144 < 8" using assms by (simp_all add: div_less_iff_less_mult pos_imp_zdiv_nonneg_iff)
  note l = lead_or(4) [OF this]
  have "drop_bit 6 (drop_bit 6 (drop_bit 6 r)) = r div 262144" "drop_bit 6 (drop_bit 6 r) = r div 4096" "drop_bit 6 r = r div 64"
    by (simp_all add: drop_bit_eq_div)
  then show ?thesis
    using assms by (simp add: EncodeUTF8Char_def Let_def and_6 tail_byte(1) l)
qed

lemma split_64: "r div 64 * 64 + r mod 64 = r" "r div 4096 * 64 + r div 64 mod 64 = r div 64" "r div 262144 * 64 + r div 4096 mod 64 = r div 4096" for r :: int
proof -
  show "r div 64 * 64 + r mod 64 = r" by simp
  have "r div 64 div 64 = r div 4096" "r div 4096 div 64 = r div 262144" by (simp_all add: zdiv_zmult2_eq [symmetric])
  then show "r div 4096 * 64 + r div 64 mod 64 = r div 64" "r div 262144 * 64 + r div 4096 mod 64 = r div 4096"
    using div_mult_mod_eq [of "r div 64" 64] div_mult_mod_eq [of "r div 4096" 64] by simp_all
qed

lemma utf8_decode_encode:
  assumes "0 \<le> r" "r \<le> 0x10FFFF"
  shows "utf8_decode (EncodeUTF8Char r @ s) = Some (r, s)"
proof -
  consider "r \<le> 0x7F" | "0x80 \<le> r" "r \<le> 0x7FF" | "0x800 \<le> r" "r \<le> 0xFFFF" | "0x10000 \<le> r" using assms by linarith
  then show ?thesis
  proof cases
    case 1
    then show ?thesis using assms(1) by (simp add: encode_1 uc_chr_small)
  next
    case 2
    have "0 \<le> r div 64" "r div 64 < 32" using 2 by (simp_all add: div_less_iff_less_mult pos_imp_zdiv_nonneg_iff)
    moreover from this have "uc (chr (0xC0 + r div 64)) = 0xC0 + r div 64" by (intro uc_chr_small) simp_all
    ultimately show ?thesis by (simp add: encode_2 [OF 2] tail_byte(2))
  next
    case 3
    have "0 \<le> r div 4096" "r div 4096 < 16" using 3 by (simp_all add: div_less_iff_less_mult pos_imp_zdiv_nonneg_iff)
    moreover from this have "uc (chr (0xE0 + r div 4096)) = 0xE0 + r div 4096" by (intro uc_chr_small) simp_all
    ultimately show ?thesis by (simp add: encode_3 [OF 3] tail_byte(2) split_64)
  next
    case 4
    have "0 \<le> r div 262144" "r div 262144 < 8" using 4 assms(2) by (simp_all add: div_less_iff_less_mult pos_imp_zdiv_nonneg_iff)
    moreover from this have "uc (chr (0xF0 + r div 262144)) = 0xF0 + r div 262144" by (intro uc_chr_small) simp_all
    moreover define a b c d where abcd: "a = r div 262144" "b = r div 4096 mod 64" "c = r div 64 mod 64" "d = r mod 64"
    moreover have "((a * 64 + b) * 64 + c) * 64 + d = r" unfolding abcd by (simp only: split_64)
    moreover have "EncodeUTF8Char r = [chr (0xF0 + a), chr (0x80 + b), chr (0x80 + c), chr (0x80 + d)]"
      unfolding abcd by (rule encode_4 [OF 4 assms(2)])
    moreover have "uc (chr (0x80 + b)) = 0x80 + b" "uc (chr (0x80 + c)) = 0x80 + c" "uc (chr (0x80 + d)) = 0x80 + d"
      unfolding abcd by (rule tail_byte(2))+
    ultimately have "uc (chr (0xF0 + a)) = 0xF0 + a" "0 \<le> a" "a < 8" by (simp_all only:)
    then show ?thesis using \<open>((a * 64 + b) * 64 + c) * 64 + d = r\<close>
      unfolding \<open>EncodeUTF8Char r = _\<close> by (simp add: \<open>uc (chr (0x80 + b)) = _\<close> \<open>uc (chr (0x80 + c)) = _\<close> \<open>uc (chr (0x80 + d)) = _\<close>)
  qed
qed

section \<open>Wide characters\<close>

lemma wide_scalar:
  assumes "0 \<le> v" "v \<le> 0x10FFFF" "\<not> (0xD800 \<le> v \<and> v \<le> 0xDFFF)"
  shows "WideToUtf8 v s = (Some (EncodeUTF8Char v), initial_shift)"
proof -
  consider "v \<le> 0x7F" | "0x80 \<le> v" "v \<le> 0x7FF" | "0x800 \<le> v" "v \<le> 0xFFFF" | "0x10000 \<le> v" using assms by linarith
  then show ?thesis
  proof cases
    case 1
    then show ?thesis using assms(1) by (simp add: WideToUtf8_def encode_1 and_low_bits)
  next
    case 2
    have "0 \<le> v div 64" "v div 64 < 32" using 2 by (simp_all add: div_less_iff_less_mult pos_imp_zdiv_nonneg_iff)
    with lead_or(2) [OF this] show ?thesis
      using 2 by (simp add: WideToUtf8_def encode_2 and_low_bits and_6 drop_bit_eq_div tail_byte(1))
  next
    case 3
    have "0 \<le> v div 4096" "v div 4096 < 16" using 3 by (simp_all add: div_less_iff_less_mult pos_imp_zdiv_nonneg_iff)
    note l = lead_or(3) [OF this] this
    have c: "\<not> v \<le> 0x7F" "\<not> (0x80 \<le> v \<and> v \<le> 0x7FF)" "(0x0800 \<le> v \<and> v \<le> 0xD7FF) \<or> (0xE000 \<le> v \<and> v \<le> 0xFFFF)"
      using 3 assms(3) by linarith+
    show ?thesis unfolding WideToUtf8_def if_not_P [OF c(1)] if_not_P [OF c(2)] if_P [OF c(3)] encode_3 [OF 3] and_6 and_low_bits
      using l by (simp add: drop_bit_eq_div tail_byte(1))
  next
    case 4
    have "0 \<le> v div 262144" "v div 262144 < 8" using 4 assms(2) by (simp_all add: div_less_iff_less_mult pos_imp_zdiv_nonneg_iff)
    with lead_or(4) [OF this] show ?thesis
      using 4 assms(2) by (simp add: WideToUtf8_def encode_4 and_low_bits and_6 drop_bit_eq_div tail_byte(1))
  qed
qed

text \<open>The bytes of the two halves of a surrogate pair, over all values of a half.\<close>

lemma high_half:
  assumes "0 \<le> h" "h < 0x400"
  shows "WideToUtf8 (0xD800 + h) s =
    (Some [chr (0xF0 + (h div 64 + 1) div 4), chr (0x80 + ((h div 64 + 1) mod 4 * 16 + h div 4 mod 16))],
     \<lparr>saw_high_surrogate = True, bits = h mod 4\<rparr>)"
proof -
  define k m where km: "k = h div 64" "m = h div 4 mod 16"
  have k: "0 \<le> k" "k < 16" "0 \<le> m" "m < 16"
    using assms by (simp_all add: km div_less_iff_less_mult pos_imp_zdiv_nonneg_iff)
  have "list_all (\<lambda>k. list_all (\<lambda>m. 0xF0 OR (0x07 AND drop_bit 2 (k + 1)) = 0xF0 + (k + 1) div 4 \<and>
      0x80 OR (0x30 AND push_bit 4 (k + 1)) OR m = 0x80 + ((k + 1) mod 4 * 16 + m)) [0..15 :: int]) [0..15 :: int]"
    by code_simp
  moreover have "k \<in> set [0..15]" "m \<in> set [0..15]" using k by simp_all
  ultimately have e: "0xF0 OR (0x07 AND drop_bit 2 (k + 1)) = 0xF0 + (k + 1) div 4"
    "0x80 OR (0x30 AND push_bit 4 (k + 1)) OR m = 0x80 + ((k + 1) mod 4 * 16 + m)"
    unfolding list_all_iff by blast+
  have d: "(0xD800 + h) div 64 = 0x360 + k" "(0xD800 + h) div 4 = 0x3600 + h div 4" "(0xD800 + h) mod 4 = h mod 4"
    unfolding km using div_add1_eq [of "0xD800" h 64] div_add1_eq [of "0xD800" h 4] mod_add_eq [of "0xD800" 4 h] by simp_all
  have f: "0x0F AND drop_bit 6 (0xD800 + h) = k" "0x0F AND drop_bit 2 (0xD800 + h) = m" "0x03 AND (0xD800 + h) = h mod 4"
  proof -
    have "(0x360 + k) mod 16 = k" using k(1,2) mod_add_eq [of "0x360" 16 k] by simp
    moreover have "(0x3600 + h div 4) mod 16 = m" unfolding km using mod_add_eq [of "0x3600" 16 "h div 4"] by simp
    moreover have "drop_bit 6 (0xD800 + h) = 0x360 + k" "drop_bit 2 (0xD800 + h) = 0x3600 + h div 4"
      unfolding drop_bit_eq_div using d(1,2) by simp_all
    ultimately show "0x0F AND drop_bit 6 (0xD800 + h) = k" "0x0F AND drop_bit 2 (0xD800 + h) = m" "0x03 AND (0xD800 + h) = h mod 4"
      unfolding and_low_bits d(3) by (simp_all only:)
  qed
  show ?thesis
    using assms e unfolding WideToUtf8_def Let_def f by (simp flip: km)
qed

lemma low_half_surrogate:
  assumes "0 \<le> l" "l < 0x400" "saw_high_surrogate s" "0 \<le> bits s" "bits s < 4"
  shows "WideToUtf8 (0xDC00 + l) s = (Some [chr (0x80 + (bits s * 16 + l div 64)), chr (0x80 + l mod 64)], initial_shift)"
proof -
  define k where "k = l div 64"
  have k: "0 \<le> k" "k < 16" using assms by (simp_all add: k_def div_less_iff_less_mult pos_imp_zdiv_nonneg_iff)
  have "list_all (\<lambda>b. list_all (\<lambda>k. 0x80 OR (0x30 AND push_bit 4 b) OR k = 0x80 + (b * 16 + k)) [0..15 :: int]) [0..3 :: int]"
    by code_simp
  moreover have "bits s \<in> set [0..3]" "k \<in> set [0..15]" using assms k by simp_all
  ultimately have e: "0x80 OR (0x30 AND push_bit 4 (bits s)) OR k = 0x80 + (bits s * 16 + k)"
    unfolding list_all_iff by blast
  have d: "(0xDC00 + l) div 64 = 0x370 + k" "(0xDC00 + l) mod 64 = l mod 64"
    unfolding k_def using div_add1_eq [of "0xDC00" l 64] mod_add_eq [of "0xDC00" 64 l] by simp_all
  have f: "0x0F AND drop_bit 6 (0xDC00 + l) = k"
  proof -
    have "(0x370 + k) mod 16 = k" using k mod_add_eq [of "0x370" 16 k] by simp
    moreover have "drop_bit 6 (0xDC00 + l) = 0x370 + k" unfolding drop_bit_eq_div using d(1) by simp
    ultimately show ?thesis unfolding and_low_bits by (simp only:)
  qed
  show ?thesis
    using assms(1-3) e unfolding WideToUtf8_def f and_6 d tail_byte(1) by (simp flip: k_def)
qed

lemma digits_64:
  fixes p x y z :: int
  assumes "0 \<le> x" "x < 64" "0 \<le> y" "y < 64" "0 \<le> z" "z < 64"
  defines "r \<equiv> ((p * 64 + x) * 64 + y) * 64 + z"
  shows "r div 262144 = p" "r div 4096 mod 64 = x" "r div 64 mod 64 = y" "r mod 64 = z"
proof -
  have step: "(a * 64 + c) div 64 = a" "(a * 64 + c) mod 64 = c" if "0 \<le> c" "c < 64" for a c :: int
    using that by simp_all
  have 1: "r div 64 = (p * 64 + x) * 64 + y" "r mod 64 = z" unfolding r_def by (rule step [OF assms(5,6)])+
  have "r div 4096 = r div 64 div 64" "r div 262144 = r div 64 div 64 div 64" by (simp_all add: zdiv_zmult2_eq [symmetric])
  then have 2: "r div 4096 = p * 64 + x" "r div 262144 = (p * 64 + x) div 64" unfolding 1 using assms(3,4) by simp_all
  show "r div 262144 = p" "r div 4096 mod 64 = x" "r div 64 mod 64 = y" "r mod 64 = z"
    unfolding 1 2 by (rule step [OF assms(1,2)] step [OF assms(3,4)] refl)+
qed

lemma surrogate_code:
  assumes "0 \<le> h" "h < 0x400" "0 \<le> l" "l < 0x400"
  shows "EncodeUTF8Char (0x10000 + h * 0x400 + l) =
    [chr (0xF0 + (h div 64 + 1) div 4), chr (0x80 + ((h div 64 + 1) mod 4 * 16 + h div 4 mod 16)),
     chr (0x80 + (h mod 4 * 16 + l div 64)), chr (0x80 + l mod 64)]"
proof -
  define p q m b j i g k where d: "p = (h div 64 + 1) div 4" "q = (h div 64 + 1) mod 4" "m = h div 4 mod 16" "b = h mod 4" "j = l div 64" "i = l mod 64"
    "g = h div 4" "k = h div 64"
  have "k = g div 16" unfolding d by (simp add: zdiv_zmult2_eq [symmetric])
  then have "g = 16 * k + m" unfolding d(3,7) by (simp only: mult_div_mod_eq)
  moreover have "k + 1 = 4 * p + q" "h = 4 * g + b" "l = 64 * j + i"
    unfolding d by (rule mult_div_mod_eq [symmetric])+
  moreover from this(1) have "k = 4 * p + q - 1" by simp
  ultimately have h: "0x10000 + h * 0x400 + l = ((p * 64 + (q * 16 + m)) * 64 + (b * 16 + j)) * 64 + i"
    by (simp add: algebra_simps)
  have r: "0 \<le> q" "q < 4" "0 \<le> m" "m < 16" "0 \<le> b" "b < 4" "0 \<le> i" "i < 64" unfolding d by simp_all
  have j: "0 \<le> j" "j < 16" using assms by (simp_all add: d div_less_iff_less_mult pos_imp_zdiv_nonneg_iff)
  have x: "0 \<le> q * 16 + m" "q * 16 + m < 64" "0 \<le> b * 16 + j" "b * 16 + j < 64" using r j by linarith+
  have "0x10000 \<le> 0x10000 + h * 0x400 + l" "0x10000 + h * 0x400 + l \<le> 0x10FFFF" using assms by linarith+
  from encode_4 [OF this, unfolded h digits_64 [OF x r(7,8)]]
  show ?thesis unfolding h unfolding d .
qed

section \<open>Properties\<close>

text \<open>
  C25: The encoding of every code point decodes to that code point and consumes exactly its bytes, at most
  four.
\<close>

theorem utf8_encoding:
  assumes "0 \<le> r" "r \<le> 0x10FFFF"
  shows "utf8_decode (EncodeUTF8Char r @ s) = Some (r, s) \<and> length (EncodeUTF8Char r) \<le> 4"
  using utf8_decode_encode [OF assms] by (simp add: EncodeUTF8Char_def Let_def)

theorem utf8_encoding_witness: "utf8_decode (EncodeUTF8Char 0x20AC) = Some (0x20AC, [])"
  using utf8_encoding [of "0x20AC" "[]"] by simp

text \<open>
  C24: Converting wide characters gives the same bytes: a character outside the surrogate range at once, a
  surrogate pair over two calls with the state in between; a low half with no high half before it and a
  value past the last code point are errors.
\<close>

theorem wide_to_utf8:
  assumes "0 \<le> v" "v \<le> 0x10FFFF" "\<not> (0xD800 \<le> v \<and> v \<le> 0xDFFF)" "0 \<le> h" "h < 0x400" "0 \<le> l" "l < 0x400"
  shows "WideToUtf8 v s = (Some (EncodeUTF8Char v), initial_shift) \<and>
    (case WideToUtf8 (0xD800 + h) s of (out1, s1) \<Rightarrow> case WideToUtf8 (0xDC00 + l) s1 of (out2, s2) \<Rightarrow>
      the out1 @ the out2 = EncodeUTF8Char (0x10000 + h * 0x400 + l) \<and> s2 = initial_shift) \<and>
    WideToUtf8 (0xDC00 + l) initial_shift = (None, initial_shift) \<and>
    WideToUtf8 (0x110000 + l) s = (None, initial_shift)"
proof (intro conjI)
  show "WideToUtf8 v s = (Some (EncodeUTF8Char v), initial_shift)" using assms(1-3) by (rule wide_scalar)
  show "WideToUtf8 (0xDC00 + l) initial_shift = (None, initial_shift)" "WideToUtf8 (0x110000 + l) s = (None, initial_shift)"
    using assms(6,7) by (simp_all add: WideToUtf8_def initial_shift_def)
  define s1 where "s1 = \<lparr>saw_high_surrogate = True, bits = h mod 4\<rparr>"
  have "saw_high_surrogate s1" "0 \<le> bits s1" "bits s1 < 4" by (simp_all add: s1_def)
  note low = low_half_surrogate [OF assms(6,7) this]
  show "case WideToUtf8 (0xD800 + h) s of (out1, s1) \<Rightarrow> case WideToUtf8 (0xDC00 + l) s1 of (out2, s2) \<Rightarrow>
      the out1 @ the out2 = EncodeUTF8Char (0x10000 + h * 0x400 + l) \<and> s2 = initial_shift"
    using low high_half [OF assms(4,5), of s] surrogate_code [OF assms(4-7)] by (simp add: s1_def)
qed

theorem wide_to_utf8_witness:
  "WideToUtf8 0x20AC initial_shift = (Some (EncodeUTF8Char 0x20AC), initial_shift)"
  using wide_to_utf8 [of "0x20AC" 0 0 initial_shift] by simp

end
