(* ===== verification/C_Escape.thy ===== *)
theory C_Escape
  imports Hex_Url Utf8
begin

text \<open>
  C-style escaping of \<^verbatim>\<open>strings/escaping.cc\<close>: the unescaper with its octal, hexadecimal and Unicode
  sequences and its error messages, the general escaper behind the hexadecimal and UTF-8 safe variants,
  and the table-driven escaper behind \<^verbatim>\<open>CEscape\<close>. The unescaper's result is the error message or the
  characters written; the part of the input that is left is a list, and the text between two positions
  of the input is kept beside it where a message or a copied null escape needs it.
\<close>

section \<open>Unescaping\<close>

definition is_octal_digit :: "char \<Rightarrow> bool" where
  "is_octal_digit c = (uc CHR ''0'' \<le> uc c \<and> uc c \<le> uc CHR ''7'')"

definition IsSurrogate :: "int \<Rightarrow> bool" where
  "IsSurrogate c = (c \<ge> 0xD800 \<and> c \<le> 0xDFFF)"

text \<open>A backslash, as a string.\<close>

abbreviation bs :: string where
  "bs \<equiv> [CHR 0x5C]"

text \<open>
  One more octal digit if there is one: value, digits read, rest of the input.
\<close>

definition octal_more :: "int \<times> string \<times> string \<Rightarrow> int \<times> string \<times> string" where
  "octal_more r =
    (case r of (v, digits, rest) \<Rightarrow>
      case rest of
        c # rest' \<Rightarrow> if is_octal_digit c then (v * 8 + (uc c - uc CHR ''0''), digits @ [c], rest') else r
      | [] \<Rightarrow> r)"

definition unescape_octal :: "bool \<Rightarrow> char \<Rightarrow> string \<Rightarrow> string + string \<times> string" where
  "unescape_octal leave_nulls_escaped c rest =
    (case octal_more (octal_more (uc c - uc CHR ''0'', [c], rest)) of
       (v, digits, rest) \<Rightarrow>
         if v > 0xff then Inl (''Value of '' @ bs @ digits @ '' exceeds 0xff'')
         else if v = 0 \<and> leave_nulls_escaped then Inr (bs @ digits, rest)
         else Inr ([chr v], rest))"

text \<open>Arbitrarily many hexadecimal digits, while the value fits in a byte.\<close>

fun hex_run :: "int \<Rightarrow> string \<Rightarrow> string \<Rightarrow> string + int \<times> string \<times> string" where
  "hex_run v digits (c # rest) =
    (if ascii_isxdigit c then
       let v = push_bit 4 v + hex_digit_to_int c
       in if v > 0xFF then Inl (''Value of '' @ bs @ (digits @ [c]) @ '' exceeds 0xff'')
          else hex_run v (digits @ [c]) rest
     else Inr (v, digits, c # rest))"
| "hex_run v digits [] = Inr (v, digits, [])"

definition unescape_hex :: "bool \<Rightarrow> char \<Rightarrow> string \<Rightarrow> string + string \<times> string" where
  "unescape_hex leave_nulls_escaped x rest =
    (case rest of
       [] \<Rightarrow> Inl (''String cannot end with '' @ bs @ ''x'')
     | c # _ \<Rightarrow>
         if \<not> ascii_isxdigit c then Inl (bs @ ''x cannot be followed by a non-hex digit'')
         else case hex_run 0 [x] rest of
                Inl e \<Rightarrow> Inl e
              | Inr (v, digits, rest) \<Rightarrow>
                  if v = 0 \<and> leave_nulls_escaped then Inr (bs @ digits, rest) else Inr ([chr v], rest))"

text \<open>A fixed number of hexadecimal digits, with the limit that \<^verbatim>\<open>\\U\<close> checks after each.\<close>

fun rune_digits :: "string \<Rightarrow> int option \<Rightarrow> nat \<Rightarrow> int \<Rightarrow> string \<Rightarrow> string \<Rightarrow> string + int \<times> string \<times> string" where
  "rune_digits msg limit (Suc n) rune digits (c # rest) =
    (if ascii_isxdigit c then
       let newrune = push_bit 4 rune + hex_digit_to_int c
       in if (case limit of Some l \<Rightarrow> newrune > l | None \<Rightarrow> False)
          then Inl (''Value of '' @ bs @ (digits @ [c]) @ '' exceeds Unicode limit (0x10FFFF)'')
          else rune_digits msg limit n newrune (digits @ [c]) rest
     else Inl (bs @ msg @ '': '' @ bs @ digits))"
| "rune_digits msg limit n rune digits rest = Inr (rune, digits, rest)"

definition unescape_rune :: "bool \<Rightarrow> string \<Rightarrow> int option \<Rightarrow> nat \<Rightarrow> char \<Rightarrow> string \<Rightarrow> string + string \<times> string" where
  "unescape_rune leave_nulls_escaped msg limit n u rest =
    (if length rest < n then Inl (bs @ msg)
     else case rune_digits msg limit n 0 [u] rest of
            Inl e \<Rightarrow> Inl e
          | Inr (rune, digits, rest) \<Rightarrow>
              if rune = 0 \<and> leave_nulls_escaped then Inr (bs @ digits, rest)
              else if IsSurrogate rune then Inl (''invalid surrogate character (0xD800-DFFF): '' @ bs @ digits)
              else Inr (EncodeUTF8Char rune, rest))"

text \<open>The switch on the character after a backslash.\<close>

definition unescape_one :: "bool \<Rightarrow> char \<Rightarrow> string \<Rightarrow> string + string \<times> string" where
  "unescape_one leave_nulls_escaped c rest =
    (if c = CHR ''a'' then Inr ([CHR 0x07], rest)
     else if c = CHR ''b'' then Inr ([CHR 0x08], rest)
     else if c = CHR ''f'' then Inr ([CHR 0x0C], rest)
     else if c = CHR ''n'' then Inr ([CHR 0x0A], rest)
     else if c = CHR ''r'' then Inr ([CHR 0x0D], rest)
     else if c = CHR ''t'' then Inr ([CHR 0x09], rest)
     else if c = CHR ''v'' then Inr ([CHR 0x0B], rest)
     else if c = CHR 0x5C then Inr ([CHR 0x5C], rest)
     else if c = CHR ''?'' then Inr ([CHR ''?''], rest)
     else if c = CHR 0x27 then Inr ([CHR 0x27], rest)
     else if c = CHR 0x22 then Inr ([CHR 0x22], rest)
     else if is_octal_digit c then unescape_octal leave_nulls_escaped c rest
     else if c = CHR ''x'' \<or> c = CHR ''X'' then unescape_hex leave_nulls_escaped c rest
     else if c = CHR ''u'' then
       unescape_rune leave_nulls_escaped ''u must be followed by 4 hex digits'' None 4 c rest
     else if c = CHR ''U'' then
       unescape_rune leave_nulls_escaped ''U must be followed by 8 hex digits'' (Some 0x10FFFF) 8 c rest
     else Inl (''Unknown escape sequence: '' @ bs @ [c]))"

section \<open>Escaping\<close>

text \<open>
  The loop of \<^verbatim>\<open>CEscapeInternal\<close>; \<^term>\<open>last_hex_escape\<close> says whether the last output was \<^verbatim>\<open>\\xNN\<close>.
\<close>

primrec CEscape_loop :: "bool \<Rightarrow> bool \<Rightarrow> bool \<Rightarrow> string \<Rightarrow> string" where
  "CEscape_loop use_hex utf8_safe last_hex_escape [] = []"
| "CEscape_loop use_hex utf8_safe last_hex_escape (c # src) =
    (if c = CHR 0x0A then bs @ ''n'' @ CEscape_loop use_hex utf8_safe False src
     else if c = CHR 0x0D then bs @ ''r'' @ CEscape_loop use_hex utf8_safe False src
     else if c = CHR 0x09 then bs @ ''t'' @ CEscape_loop use_hex utf8_safe False src
     else if c = CHR 0x22 then bs @ [CHR 0x22] @ CEscape_loop use_hex utf8_safe False src
     else if c = CHR 0x27 then bs @ [CHR 0x27] @ CEscape_loop use_hex utf8_safe False src
     else if c = CHR 0x5C then bs @ bs @ CEscape_loop use_hex utf8_safe False src
     else if (\<not> utf8_safe \<or> uc c < 0x80) \<and> (\<not> ascii_isprint c \<or> (last_hex_escape \<and> ascii_isxdigit c)) then
       if use_hex then
         bs @ ''x'' @ [kHexChar ! nat (uc c div 16), kHexChar ! nat (uc c mod 16)] @
         CEscape_loop use_hex utf8_safe True src
       else
         bs @ [kHexChar ! nat (uc c div 64), kHexChar ! nat (uc c mod 64 div 8), kHexChar ! nat (uc c mod 8)] @
         CEscape_loop use_hex utf8_safe False src
     else [c] @ CEscape_loop use_hex utf8_safe False src)"

definition CEscapeInternal :: "string \<Rightarrow> bool \<Rightarrow> bool \<Rightarrow> string" where
  "CEscapeInternal src use_hex utf8_safe = CEscape_loop use_hex utf8_safe False src"

definition kCEscapedLen :: "int list" where
  "kCEscapedLen =
    [4, 4, 4, 4, 4, 4, 4, 4, 4, 2, 2, 4, 4, 2, 4, 4,
    4, 4, 4, 4, 4, 4, 4, 4, 4, 4, 4, 4, 4, 4, 4, 4,
    1, 1, 2, 1, 1, 1, 1, 2, 1, 1, 1, 1, 1, 1, 1, 1,
    1, 1, 1, 1, 1, 1, 1, 1, 1, 1, 1, 1, 1, 1, 1, 1,
    1, 1, 1, 1, 1, 1, 1, 1, 1, 1, 1, 1, 1, 1, 1, 1,
    1, 1, 1, 1, 1, 1, 1, 1, 1, 1, 1, 1, 2, 1, 1, 1,
    1, 1, 1, 1, 1, 1, 1, 1, 1, 1, 1, 1, 1, 1, 1, 1,
    1, 1, 1, 1, 1, 1, 1, 1, 1, 1, 1, 1, 1, 1, 1, 4,
    4, 4, 4, 4, 4, 4, 4, 4, 4, 4, 4, 4, 4, 4, 4, 4,
    4, 4, 4, 4, 4, 4, 4, 4, 4, 4, 4, 4, 4, 4, 4, 4,
    4, 4, 4, 4, 4, 4, 4, 4, 4, 4, 4, 4, 4, 4, 4, 4,
    4, 4, 4, 4, 4, 4, 4, 4, 4, 4, 4, 4, 4, 4, 4, 4,
    4, 4, 4, 4, 4, 4, 4, 4, 4, 4, 4, 4, 4, 4, 4, 4,
    4, 4, 4, 4, 4, 4, 4, 4, 4, 4, 4, 4, 4, 4, 4, 4,
    4, 4, 4, 4, 4, 4, 4, 4, 4, 4, 4, 4, 4, 4, 4, 4,
    4, 4, 4, 4, 4, 4, 4, 4, 4, 4, 4, 4, 4, 4, 4, 4]"

text \<open>The four bytes of the table of sequences at a byte; entries it does not assign are null.\<close>

definition kCEscapedSequence :: "int \<Rightarrow> int list" where
  "kCEscapedSequence c =
    (let char_len = kCEscapedLen ! nat c
     in if char_len = 1 then [c, 0, 0, 0]
        else if char_len = 2 then
          [92, if c = 10 then 110 else if c = 13 then 114 else if c = 9 then 116
               else if c = 34 then 34 else if c = 39 then 39 else if c = 92 then 92 else 0, 0, 0]
        else [92, 48 + c div 64, 48 + c mod 64 div 8, 48 + c mod 8])"

text \<open>
  The length, with the overflow check that the code does beyond a quarter of the address space; None where
  it aborts.
\<close>

primrec escaped_length_loop :: "string \<Rightarrow> int \<Rightarrow> int \<Rightarrow> int option" where
  "escaped_length_loop [] unchecked escaped_len = Some escaped_len"
| "escaped_length_loop (c # src) unchecked escaped_len =
    (let char_len = kCEscapedLen ! nat (uc c)
     in if unchecked > 0 then escaped_length_loop src (unchecked - 1) ((escaped_len + char_len) mod 2 ^ 64)
        else if \<not> escaped_len \<le> 2 ^ 64 - 1 - char_len then None
        else escaped_length_loop src 0 (escaped_len + char_len))"

definition CEscapedLength :: "string \<Rightarrow> int option" where
  "CEscapedLength src =
    (let unchecked_limit = min (int (length src)) ((2 ^ 64 - 1) div 4)
     in escaped_length_loop src unchecked_limit 0)"

text \<open>
  The copy loop: four bytes are copied for each character and the pointer advances by the length of its
  sequence, so that the next copy overwrites what is too much.
\<close>

primrec copy_sequences :: "string \<Rightarrow> nat \<Rightarrow> string \<Rightarrow> string option" where
  "copy_sequences [] append_ptr buf = Some buf"
| "copy_sequences (c # src) append_ptr buf =
    (case buffer_write append_ptr (map chr (kCEscapedSequence (uc c))) buf of
       None \<Rightarrow> None
     | Some buf \<Rightarrow> copy_sequences src (append_ptr + nat (kCEscapedLen ! nat (uc c))) buf)"

text \<open>
  None stands for an abort or a write outside the appended buffer; what the buffer holds before it is
  written does not matter (\<^verbatim>\<open>copy_sequences_eq\<close> below is for every content).
\<close>

definition CEscapeAndAppendInternal :: "string \<Rightarrow> string \<Rightarrow> string option" where
  "CEscapeAndAppendInternal src dest =
    (case CEscapedLength src of
       None \<Rightarrow> None
     | Some escaped_len \<Rightarrow>
         if escaped_len = int (length src) then Some (dest @ src)
         else if \<not> escaped_len \<le> 2 ^ 64 - 1 - 3 then None
         else
           let append_buf_len = nat (escaped_len + 3)
           in map_option (\<lambda>buf. dest @ take (nat escaped_len) buf)
                (copy_sequences src 0 (replicate append_buf_len CHR 0x00)))"

definition CEscape :: "string \<Rightarrow> string option" where
  "CEscape src = CEscapeAndAppendInternal src []"

definition CHexEscape :: "string \<Rightarrow> string" where
  "CHexEscape src = CEscapeInternal src True False"

definition Utf8SafeCEscape :: "string \<Rightarrow> string" where
  "Utf8SafeCEscape src = CEscapeInternal src False True"

definition Utf8SafeCHexEscape :: "string \<Rightarrow> string" where
  "Utf8SafeCHexEscape src = CEscapeInternal src True True"

section \<open>The unescaping loop\<close>

text \<open>
  An escape sequence is at least as long as what it stands for, so the loop ends and the position it writes
  at never passes the position it reads at.
\<close>

lemma hex_run_text: "hex_run v digits rest = Inr (v', digits', rest') \<Longrightarrow> digits' @ rest' = digits @ rest"
  by (induction v digits rest rule: hex_run.induct) (auto simp: Let_def split: if_splits)

lemma rune_digits_text: "rune_digits msg limit n v digits rest = Inr (v', digits', rest') \<Longrightarrow> digits' @ rest' = digits @ rest"
  by (induction msg limit n v digits rest rule: rune_digits.induct) (auto simp: Let_def split: if_splits)

lemma rune_digits_count:
  "rune_digits msg limit n v digits rest = Inr (v', digits', rest') \<Longrightarrow> n \<le> length rest \<Longrightarrow> length digits' = length digits + n"
  by (induction msg limit n v digits rest rule: rune_digits.induct) (auto simp: Let_def split: if_splits)

lemma octal_more_text: "octal_more (v, digits, rest) = (v', digits', rest') \<Longrightarrow> digits' @ rest' = digits @ rest \<and> length digits \<le> length digits'"
  by (auto simp: octal_more_def split: list.splits if_splits)

lemma EncodeUTF8Char_length: "length (EncodeUTF8Char rune) \<le> 4"
  by (simp add: EncodeUTF8Char_def Let_def)

text \<open>
  What a sequence writes is no longer than what it consumes, the backslash and the letter after it included.
\<close>

definition consumes :: "string \<Rightarrow> string \<Rightarrow> string \<Rightarrow> bool" where
  "consumes rest w rest' \<longleftrightarrow> (\<exists>u. u \<noteq> [] \<and> rest = u @ rest' \<and> length w \<le> length u)"

lemma consumes_digits: "digits @ rest' = [c] @ rest \<Longrightarrow> length w \<le> 1 \<or> w = bs @ digits \<Longrightarrow> consumes (CHR 0x5C # c # rest) w rest'"
  unfolding consumes_def by (rule exI [of _ "CHR 0x5C # digits"]) auto

lemma unescape_octal_consumes: "unescape_octal leave c rest = Inr (w, rest') \<Longrightarrow> consumes (CHR 0x5C # c # rest) w rest'"
proof -
  obtain v1 d1 r1 where 1: "octal_more (uc c - uc CHR ''0'', [c], rest) = (v1, d1, r1)" by (metis prod_cases3)
  obtain v2 d2 r2 where 2: "octal_more (v1, d1, r1) = (v2, d2, r2)" by (metis prod_cases3)
  have "d2 @ r2 = [c] @ rest" using octal_more_text [OF 1] octal_more_text [OF 2] by simp
  then have "consumes (CHR 0x5C # c # rest) x r2" if "length x \<le> 1 \<or> x = bs @ d2" for x
    using that by (rule consumes_digits)
  then show "unescape_octal leave c rest = Inr (w, rest') \<Longrightarrow> consumes (CHR 0x5C # c # rest) w rest'"
    unfolding unescape_octal_def 1 2 prod.case by (auto split: if_splits)
qed

lemma unescape_hex_consumes:
  assumes "unescape_hex leave c rest = Inr (w, rest')"
  shows "consumes (CHR 0x5C # c # rest) w rest'"
proof -
  obtain v digits where r: "hex_run 0 [c] rest = Inr (v, digits, rest')" and w: "length w \<le> 1 \<or> w = bs @ digits"
    using assms unfolding unescape_hex_def by (auto simp del: hex_run.simps split: list.splits if_splits sum.splits)
  show ?thesis using hex_run_text [OF r] w by (rule consumes_digits)
qed

lemma unescape_rune_consumes:
  assumes "unescape_rune leave msg limit n c rest = Inr (w, rest')" "2 \<le> n"
  shows "consumes (CHR 0x5C # c # rest) w rest'"
proof -
  have n: "n \<le> length rest" using assms(1) by (auto simp: unescape_rune_def split: if_splits)
  with assms(1) obtain v digits where r: "rune_digits msg limit n 0 [c] rest = Inr (v, digits, rest')"
    and w: "w = bs @ digits \<or> w = EncodeUTF8Char v"
    by (auto simp: unescape_rune_def split: if_splits sum.splits)
  have "CHR 0x5C # c # rest = (CHR 0x5C # digits) @ rest'" using rune_digits_text [OF r] by simp
  moreover have "length digits = n + 1" using rune_digits_count [OF r n] by simp
  then have "length w \<le> length (CHR 0x5C # digits)" using w assms(2) EncodeUTF8Char_length [of v] by auto
  ultimately show ?thesis unfolding consumes_def by blast
qed

lemma unescape_one_cases:
  assumes "unescape_one leave c rest = Inr (w, rest')"
  shows "(\<exists>x. w = [x] \<and> rest' = rest) \<or> unescape_octal leave c rest = Inr (w, rest') \<or>
    unescape_hex leave c rest = Inr (w, rest') \<or> (\<exists>msg limit n. 2 \<le> n \<and> unescape_rune leave msg limit n c rest = Inr (w, rest'))"
proof (cases "c \<in> set ''abfnrtv?'' \<or> c = CHR 0x5C \<or> c = CHR 0x27 \<or> c = CHR 0x22")
  case True
  then show ?thesis using assms unfolding unescape_one_def by (elim disjE) (auto split: if_splits)
next
  case False
  then show ?thesis using assms unfolding unescape_one_def
    by (auto split: if_splits intro: exI [of _ 4] exI [of _ 8])
qed

lemma unescape_one_consumes:
  assumes "unescape_one leave c rest = Inr (w, rest')"
  shows "consumes (CHR 0x5C # c # rest) w rest'"
proof -
  have simple: "consumes (CHR 0x5C # c # rest) [x] rest" for x
    unfolding consumes_def by (rule exI [of _ "[CHR 0x5C, c]"]) simp
  show ?thesis
    using unescape_one_cases [OF assms]
    by (elim disjE exE conjE) (simp_all only: simple unescape_octal_consumes unescape_hex_consumes unescape_rune_consumes)
qed

text \<open>One turn of the loop, on the input that is left.\<close>

definition unescape_step :: "bool \<Rightarrow> char \<Rightarrow> string \<Rightarrow> string + string \<times> string" where
  "unescape_step leave_nulls_escaped c src =
    (if c \<noteq> CHR 0x5C then Inr ([c], src)
     else case src of
            [] \<Rightarrow> Inl (''String cannot end with '' @ bs)
          | c # src \<Rightarrow> unescape_one leave_nulls_escaped c src)"



lemma unescape_step_consumes:
  assumes "unescape_step leave c src = Inr (w, src')"
  shows "consumes (c # src) w src'" "length src' < length (c # src)"
proof -
  have "consumes (c # src) [c] src" unfolding consumes_def by (rule exI [of _ "[c]"]) simp
  then show c: "consumes (c # src) w src'"
    using assms unfolding unescape_step_def by (auto split: if_splits list.splits dest: unescape_one_consumes)
  then obtain u where u: "u \<noteq> []" "c # src = u @ src'" unfolding consumes_def by blast
  show "length src' < length (c # src)" unfolding u(2) using u(1) by simp
qed

text \<open>The loop that writes into a buffer of its own.\<close>

function CUnescapeInternal :: "bool \<Rightarrow> string \<Rightarrow> string \<Rightarrow> string + string" where
  "CUnescapeInternal leave_nulls_escaped src dst =
    (case src of
       [] \<Rightarrow> Inr dst
     | c # src \<Rightarrow>
         (case unescape_step leave_nulls_escaped c src of
            Inl e \<Rightarrow> Inl e
          | Inr (w, src) \<Rightarrow> CUnescapeInternal leave_nulls_escaped src (dst @ w)))"
  by auto
termination
  by (relation "measure (\<lambda>(leave_nulls_escaped, src, dst). length src)") (auto dest: unescape_step_consumes(2))

declare CUnescapeInternal.simps [simp del]

lemma in_place_progress:
  assumes "drop p (take n buf) = c # src" "unescape_step leave c src = Inr (w, src')"
  shows "n - (n - length src') < n - p"
proof -
  have "length (c # src) \<le> n - p" using assms(1) [THEN arg_cong, of length] by simp
  then show ?thesis using unescape_step_consumes(2) [OF assms(2)] by simp
qed

text \<open>
  The loop when the source is the first n characters of the destination itself: it reads at position p what
  the writes at position d have left there. None is a write outside the buffer.
\<close>

function unescape_in_place :: "bool \<Rightarrow> nat \<Rightarrow> string \<Rightarrow> nat \<Rightarrow> nat \<Rightarrow> (string + string \<times> nat) option" where
  "unescape_in_place leave_nulls_escaped n buf p d =
    (case drop p (take n buf) of
       [] \<Rightarrow> Some (Inr (buf, d))
     | c # src \<Rightarrow>
         (case unescape_step leave_nulls_escaped c src of
            Inl e \<Rightarrow> Some (Inl e)
          | Inr (w, src) \<Rightarrow>
              (case buffer_write d w buf of
                 None \<Rightarrow> None
               | Some buf \<Rightarrow> unescape_in_place leave_nulls_escaped n buf (n - length src) (d + length w))))"
  by auto
termination
  by (relation "measure (\<lambda>(leave_nulls_escaped, n, buf, p, d). n - p)") (auto dest: in_place_progress)

declare unescape_in_place.simps [simp del]

text \<open>
  The error message, if any, and the destination afterwards: the buffer is the destination when that is long
  enough and one of the source's size otherwise. None is a write outside the buffer.
\<close>

definition CUnescape :: "string \<Rightarrow> string \<Rightarrow> (string option \<times> string) option" where
  "CUnescape source dest =
    (let buf_size = if length dest \<ge> length source then length dest else length source
     in case CUnescapeInternal False source [] of
          Inl e \<Rightarrow> Some (Some e, [])
        | Inr dst \<Rightarrow> if length dst \<le> buf_size then Some (None, dst) else None)"

text \<open>The call whose source is the first n characters of the destination; the prefix with no escapes is skipped.\<close>

definition CUnescape_in_place :: "nat \<Rightarrow> string \<Rightarrow> (string option \<times> string) option" where
  "CUnescape_in_place n dest =
    (let p = length (takeWhile (\<lambda>c. c \<noteq> CHR 0x5C) (take n dest))
     in case unescape_in_place False n dest p p of
          None \<Rightarrow> None
        | Some (Inl e) \<Rightarrow> Some (Some e, [])
        | Some (Inr (buf, dst_size)) \<Rightarrow> Some (None, take dst_size buf))"

section \<open>In-place unescaping\<close>

lemma CUnescapeInternal_step:
  "CUnescapeInternal leave [] dst = Inr dst"
  "unescape_step leave c src = Inl e \<Longrightarrow> CUnescapeInternal leave (c # src) dst = Inl e"
  "unescape_step leave c src = Inr (w, src') \<Longrightarrow> CUnescapeInternal leave (c # src) dst = CUnescapeInternal leave src' (dst @ w)"
  by (simp_all add: CUnescapeInternal.simps [of leave "[]"] CUnescapeInternal.simps [of leave "c # src"])

lemma consumes_length: "consumes src w src' \<Longrightarrow> length w + length src' \<le> length src"
  by (auto simp: consumes_def)

lemma CUnescapeInternal_length: "CUnescapeInternal leave src dst = Inr out \<Longrightarrow> length out \<le> length dst + length src"
proof (induction leave src dst rule: CUnescapeInternal.induct)
  case (1 leave src dst)
  show ?case
  proof (cases src)
    case Nil
    then show ?thesis using 1(2) by (simp add: CUnescapeInternal_step)
  next
    case (Cons c cs)
    show ?thesis
    proof (cases "unescape_step leave c cs")
      case (Inl e)
      then show ?thesis using 1(2) Cons by (simp add: CUnescapeInternal_step)
    next
      case (Inr r)
      obtain w src' where r: "r = (w, src')" by (cases r)
      have s: "unescape_step leave c cs = Inr (w, src')" using Inr r by simp
      have "length out \<le> length (dst @ w) + length src'"
        using 1(1) [OF Cons Inr r [symmetric]] 1(2) unfolding Cons CUnescapeInternal_step(3) [OF s] by simp
      then show ?thesis using consumes_length [OF unescape_step_consumes(1) [OF s]] Cons by simp
    qed
  qed
qed

text \<open>The part of the buffer that is still to be read is not touched by a write before it.\<close>

lemma buffer_write_unread:
  assumes "drop p (take n buf) = src" "consumes src w src'" "src \<noteq> []" "d \<le> p" "n \<le> length buf"
  obtains buf' where "buffer_write d w buf = Some buf'" "length buf' = length buf"
    "drop (n - length src') (take n buf') = src'" "take (d + length w) buf' = take d buf @ w" "d + length w \<le> n - length src'"
proof -
  obtain u where u: "src = u @ src'" "length w \<le> length u" using assms(2) unfolding consumes_def by blast
  have l: "length src = n - p" using assms(1,5) by auto
  moreover have "length src > 0" using assms(3) by simp
  ultimately have pn: "p < n" by linarith
  have q: "n - length src' = p + length u" using l u(1) pn by simp
  have dw: "d + length w \<le> n - length src'" using q u(2) assms(4) by simp
  define buf' where "buf' = take d buf @ w @ drop (d + length w) buf"
  have le: "d + length w \<le> length buf" using dw assms(5) by linarith
  have wr: "buffer_write d w buf = Some buf'" using le by (simp add: buffer_write_def buf'_def)
  have d: "d \<le> length buf" using le by simp
  have len: "length buf' = length buf" unfolding buf'_def using le by simp
  have "drop (d + length w) buf' = drop (d + length w) buf" unfolding buf'_def using d by simp
  then have "drop (p + length u) buf' = drop (p + length u) buf"
    using u(2) assms(4) by (metis add_mono drop_drop le_add_diff_inverse2)
  then have "drop (p + length u) (take n buf') = drop (p + length u) (take n buf)" by (simp only: drop_take)
  also have "\<dots> = drop (length u) (drop p (take n buf))" by (simp add: add.commute)
  also have "\<dots> = src'" unfolding assms(1) u(1) by simp
  finally have unread: "drop (n - length src') (take n buf') = src'" unfolding q .
  have "take (d + length w) buf' = take d buf @ w" unfolding buf'_def using d by simp
  then show ?thesis using that wr len unread dw by blast
qed

lemma unescape_in_place_eq:
  assumes "drop p (take n buf) = src" "d \<le> p" "p \<le> n" "n \<le> length buf" "take d buf = dst"
  shows "(\<exists>e. CUnescapeInternal leave src dst = Inl e \<and> unescape_in_place leave n buf p d = Some (Inl e)) \<or>
    (\<exists>out buf'. CUnescapeInternal leave src dst = Inr out \<and>
       unescape_in_place leave n buf p d = Some (Inr (buf', length out)) \<and> take (length out) buf' = out)"
  using assms
proof (induction leave src dst arbitrary: buf p d rule: CUnescapeInternal.induct)
  case (1 leave src dst)
  show ?case
  proof (cases src)
    case Nil
    then have "unescape_in_place leave n buf p d = Some (Inr (buf, d))"
      using 1(2) by (simp add: unescape_in_place.simps [of _ _ _ p])
    then show ?thesis using 1(3-6) Nil by (auto simp: CUnescapeInternal_step)
  next
    case (Cons c cs)
    have src: "drop p (take n buf) = c # cs" using 1(2) Cons by simp
    show ?thesis
    proof (cases "unescape_step leave c cs")
      case (Inl e)
      then show ?thesis using Cons by (simp add: CUnescapeInternal_step unescape_in_place.simps [of _ _ _ p] src)
    next
      case (Inr r)
      obtain w src' where r: "r = (w, src')" by (cases r)
      have s: "unescape_step leave c cs = Inr (w, src')" using Inr r by simp
      obtain buf' where b: "buffer_write d w buf = Some buf'" "length buf' = length buf"
          "drop (n - length src') (take n buf') = src'" "take (d + length w) buf' = take d buf @ w" "d + length w \<le> n - length src'"
        using buffer_write_unread [OF src unescape_step_consumes(1) [OF s] _ 1(3,5)] by blast
      have "unescape_in_place leave n buf p d = unescape_in_place leave n buf' (n - length src') (d + length w)"
        by (simp add: unescape_in_place.simps [of _ _ _ p] src s b(1))
      moreover have "CUnescapeInternal leave src dst = CUnescapeInternal leave src' (dst @ w)"
        unfolding Cons by (rule CUnescapeInternal_step(3) [OF s])
      ultimately show ?thesis using 1(1) [OF Cons Inr r [symmetric] b(3,5)] 1(4-6) b(2,4) by simp
    qed
  qed
qed

text \<open>A prefix with no escapes is copied.\<close>

lemma CUnescapeInternal_plain:
  "\<forall>c \<in> set xs. c \<noteq> CHR 0x5C \<Longrightarrow> CUnescapeInternal leave (xs @ src) dst = CUnescapeInternal leave src (dst @ xs)"
proof (induction xs arbitrary: dst)
  case (Cons c xs)
  have "unescape_step leave c (xs @ src) = Inr ([c], xs @ src)" using Cons.prems by (simp add: unescape_step_def)
  from CUnescapeInternal_step(3) [OF this] show ?case using Cons by simp
qed simp

lemma CUnescape_defined:
  "CUnescape source dest = Some (case CUnescapeInternal False source [] of Inl e \<Rightarrow> (Some e, []) | Inr dst \<Rightarrow> (None, dst))"
  using CUnescapeInternal_length [of False source "[]"]
  by (fastforce simp: CUnescape_def Let_def split: sum.splits)

lemma CUnescape_in_place_eq:
  assumes "n \<le> length dest"
  shows "CUnescape_in_place n dest =
    Some (case CUnescapeInternal False (take n dest) [] of Inl e \<Rightarrow> (Some e, []) | Inr dst \<Rightarrow> (None, dst))"
proof -
  define xs where "xs = takeWhile (\<lambda>c. c \<noteq> CHR 0x5C) (take n dest)"
  define ys where "ys = dropWhile (\<lambda>c. c \<noteq> CHR 0x5C) (take n dest)"
  have split: "take n dest = xs @ ys" by (simp add: xs_def ys_def)
  have le: "length xs \<le> n" using arg_cong [OF split, of length] by simp
  have "CUnescapeInternal False (take n dest) [] = CUnescapeInternal False ys xs"
    unfolding split using CUnescapeInternal_plain [of xs False ys "[]"] by (auto simp: xs_def dest: set_takeWhileD)
  moreover have "drop (length xs) (take n dest) = ys" unfolding split by simp
  moreover have "take (length xs) dest = xs" using arg_cong [OF split, of "take (length xs)"] le by (simp add: min_absorb1)
  ultimately show ?thesis
    using unescape_in_place_eq [of "length xs" n dest ys "length xs" xs False] le assms
    unfolding CUnescape_in_place_def xs_def [symmetric] by (auto simp: Let_def)
qed

section \<open>The escapers\<close>

lemma kHexChar_map: "map uc kHexChar = map (\<lambda>i. if i < 10 then i + 48 else i + 87) [0..15]"
  by code_simp

lemma kHexChar_nth: "0 \<le> i \<Longrightarrow> i < 16 \<Longrightarrow> kHexChar ! nat i = hex_char i"
proof -
  assume i: "0 \<le> i" "i < 16"
  have "length kHexChar = 16" using arg_cong [OF kHexChar_map, of length] by simp
  then have "uc (kHexChar ! nat i) = map uc kHexChar ! nat i" using i by simp
  also have "\<dots> = uc (hex_char i)" unfolding kHexChar_map using i by (simp add: nth_upto hex_char_def uc_chr)
  finally show ?thesis by simp
qed

lemma octal_digit:
  assumes "0 \<le> i" "i < 8"
  shows "is_octal_digit (hex_char i)" "uc (hex_char i) = i + 48"
  using assms by (simp_all add: is_octal_digit_def hex_char_def uc_chr)

lemma octal_more_digit: "0 \<le> i \<Longrightarrow> i < 8 \<Longrightarrow> octal_more (v, digits, hex_char i # rest) = (v * 8 + i, digits @ [hex_char i], rest)"
  by (simp add: octal_more_def octal_digit)

lemma uc_octal: "0 \<le> uc c div 64" "uc c div 64 < 8" "0 \<le> uc c mod 64 div 8" "uc c mod 64 div 8 < 8"
  "0 \<le> uc c mod 8" "uc c mod 8 < 8" "(uc c div 64 * 8 + uc c mod 64 div 8) * 8 + uc c mod 8 = uc c"
  by (rule byte_all, code_simp)+

lemma kHexChar_octal:
  "kHexChar ! nat (uc c div 64) = hex_char (uc c div 64)"
  "kHexChar ! nat (uc c mod 64 div 8) = hex_char (uc c mod 64 div 8)"
  "kHexChar ! nat (uc c mod 8) = hex_char (uc c mod 8)"
proof -
  have "0 \<le> i \<Longrightarrow> i < 8 \<Longrightarrow> kHexChar ! nat i = hex_char i" for i by (rule kHexChar_nth) simp_all
  then show
    "kHexChar ! nat (uc c div 64) = hex_char (uc c div 64)"
    "kHexChar ! nat (uc c mod 64 div 8) = hex_char (uc c mod 64 div 8)"
    "kHexChar ! nat (uc c mod 8) = hex_char (uc c mod 8)"
    using uc_octal [of c] by blast+
qed

lemma unescape_one_octal: "is_octal_digit c \<Longrightarrow> unescape_one leave c rest = unescape_octal leave c rest"
proof -
  assume o: "is_octal_digit c"
  then have "c \<noteq> CHR ''a''" "c \<noteq> CHR ''b''" "c \<noteq> CHR ''f''" "c \<noteq> CHR ''n''" "c \<noteq> CHR ''r''" "c \<noteq> CHR ''t''"
    "c \<noteq> CHR ''v''" "c \<noteq> CHR 0x5C" "c \<noteq> CHR ''?''" "c \<noteq> CHR 0x27" "c \<noteq> CHR 0x22"
    by (auto simp: is_octal_digit_def)
  then show ?thesis unfolding unescape_one_def using o by (simp only: if_False if_True)
qed

lemma unescape_one_hex: "unescape_one leave CHR ''x'' rest = unescape_hex leave CHR ''x'' rest"
  by (simp add: is_octal_digit_def unescape_one_def)

lemma unescape_octal_escape:
  "unescape_step False CHR 0x5C
     (hex_char (uc c div 64) # hex_char (uc c mod 64 div 8) # hex_char (uc c mod 8) # rest) = Inr ([c], rest)"
proof -
  define x y z where xyz: "x = uc c div 64" "y = uc c mod 64 div 8" "z = uc c mod 8"
  have r: "0 \<le> x" "x < 8" "0 \<le> y" "y < 8" "0 \<le> z" "z < 8" "(x * 8 + y) * 8 + z = uc c"
    unfolding xyz by (rule uc_octal)+
  have "unescape_octal False (hex_char x) (hex_char y # hex_char z # rest) = Inr ([chr (uc c)], rest)"
    using r(7) uc_less [of c] by (simp add: unescape_octal_def octal_more_digit octal_digit r del: uc_less)
  then show ?thesis
    unfolding xyz [symmetric] by (simp add: unescape_step_def unescape_one_octal octal_digit r)
qed

lemma hex_run_stop: "rest = [] \<or> \<not> ascii_isxdigit (hd rest) \<Longrightarrow> hex_run v digits rest = Inr (v, digits, rest)"
  by (cases rest) auto

lemma hex_run_digit:
  assumes "0 \<le> i" "i < 16" "push_bit 4 v + i \<le> 0xFF"
  shows "hex_run v digits (hex_char i # rest) = hex_run (push_bit 4 v + i) (digits @ [hex_char i]) rest"
proof -
  have x: "ascii_isxdigit (hex_char i)" unfolding ascii_isxdigit_hex hex_char_value [OF assms(1,2)] using assms(1) by simp
  show ?thesis
    using assms x by (simp add: hex_digit_to_int_eq [OF x] hex_char_value)
qed

lemma unescape_hex_escape:
  assumes "rest = [] \<or> \<not> ascii_isxdigit (hd rest)"
  shows "unescape_step False CHR 0x5C (CHR ''x'' # hex_char (uc c div 16) # hex_char (uc c mod 16) # rest) = Inr ([c], rest)"
proof -
  define x y where xy: "x = uc c div 16" "y = uc c mod 16"
  have r: "0 \<le> x" "x < 16" "0 \<le> y" "y < 16" "push_bit 4 x + y = uc c" unfolding xy by (rule uc_nibbles)+
  have x: "ascii_isxdigit (hex_char x)" unfolding ascii_isxdigit_hex hex_char_value [OF r(1,2)] using r(1) by simp
  have "push_bit 4 x + y \<le> 0xFF" unfolding r(5) using uc_less [of c] by linarith
  then have run: "hex_run 0 [CHR ''x''] (hex_char x # hex_char y # rest) = Inr (uc c, [CHR ''x'', hex_char x, hex_char y], rest)"
    using r by (simp add: hex_run_digit hex_run_stop [OF assms] del: hex_run.simps)
  show ?thesis
    unfolding xy [symmetric] by (simp add: unescape_step_def unescape_one_hex unescape_hex_def x run del: hex_run.simps)
qed

text \<open>After a hexadecimal escape no hexadecimal digit is written as it is.\<close>

lemma CEscape_loop_after_hex:
  "CEscape_loop True utf8_safe True s = [] \<or> \<not> ascii_isxdigit (hd (CEscape_loop True utf8_safe True s))"
proof (cases s)
  case (Cons c s)
  have "\<not> ascii_isxdigit CHR 0x5C" unfolding ascii_isxdigit_hex by (simp add: hex_value_def)
  moreover have "uc c < 0x80" if "ascii_isxdigit c" using that unfolding ascii_isxdigit_hex by (auto simp: hex_value_def split: if_splits)
  ultimately show ?thesis unfolding Cons by auto
qed simp

lemma unescape_named:
  "unescape_step False CHR 0x5C (CHR ''n'' # rest) = Inr ([CHR 0x0A], rest)"
  "unescape_step False CHR 0x5C (CHR ''r'' # rest) = Inr ([CHR 0x0D], rest)"
  "unescape_step False CHR 0x5C (CHR ''t'' # rest) = Inr ([CHR 0x09], rest)"
  "unescape_step False CHR 0x5C (CHR 0x22 # rest) = Inr ([CHR 0x22], rest)"
  "unescape_step False CHR 0x5C (CHR 0x27 # rest) = Inr ([CHR 0x27], rest)"
  "unescape_step False CHR 0x5C (CHR 0x5C # rest) = Inr ([CHR 0x5C], rest)"
  "c \<noteq> CHR 0x5C \<Longrightarrow> unescape_step False c rest = Inr ([c], rest)"
  by (simp_all add: unescape_step_def unescape_one_def)

text \<open>The escaped form of one character is undone by one turn of the loop.\<close>

lemma CEscape_loop_step:
  "\<exists>x xs h'. CEscape_loop use_hex utf8_safe h (c # s) = x # xs \<and>
     unescape_step False x xs = Inr ([c], CEscape_loop use_hex utf8_safe h' s)"
proof (cases "c \<in> {CHR 0x0A, CHR 0x0D, CHR 0x09, CHR 0x22, CHR 0x27, CHR 0x5C}")
  case True
  then have "c = CHR 0x0A \<or> c = CHR 0x0D \<or> c = CHR 0x09 \<or> c = CHR 0x22 \<or> c = CHR 0x27 \<or> c = CHR 0x5C" by simp
  then show ?thesis by (elim disjE) (auto simp: unescape_named)
next
  case False
  then have n: "c \<noteq> CHR 0x0A" "c \<noteq> CHR 0x0D" "c \<noteq> CHR 0x09" "c \<noteq> CHR 0x22" "c \<noteq> CHR 0x27" "c \<noteq> CHR 0x5C" by auto
  define escape where "escape \<longleftrightarrow> (\<not> utf8_safe \<or> uc c < 0x80) \<and> (\<not> ascii_isprint c \<or> (h \<and> ascii_isxdigit c))"
  consider "\<not> escape" | "escape" "use_hex" | "escape" "\<not> use_hex" by blast
  then show ?thesis
  proof cases
    case 1
    then have "CEscape_loop use_hex utf8_safe h (c # s) = c # CEscape_loop use_hex utf8_safe False s"
      using n unfolding escape_def by auto
    then show ?thesis using unescape_named(7) [OF n(6)] by metis
  next
    case 2
    then have "CEscape_loop use_hex utf8_safe h (c # s) =
        CHR 0x5C # CHR ''x'' # hex_char (uc c div 16) # hex_char (uc c mod 16) # CEscape_loop use_hex utf8_safe True s"
      using n unfolding escape_def by (auto simp: kHexChar_nth uc_nibbles)
    then show ?thesis using unescape_hex_escape [OF CEscape_loop_after_hex [of utf8_safe s], of c] 2(2) by metis
  next
    case 3
    then have "CEscape_loop use_hex utf8_safe h (c # s) =
        CHR 0x5C # hex_char (uc c div 64) # hex_char (uc c mod 64 div 8) # hex_char (uc c mod 8) # CEscape_loop use_hex utf8_safe False s"
      using n kHexChar_octal unfolding escape_def by auto
    then show ?thesis using unescape_octal_escape [of c] by metis
  qed
qed

lemma CEscape_loop_unescape:
  "CUnescapeInternal False (CEscape_loop use_hex utf8_safe h s) dst = Inr (dst @ s)"
proof (induction s arbitrary: h dst)
  case Nil
  show ?case by (simp add: CUnescapeInternal_step)
next
  case (Cons c s)
  obtain x xs h' where e: "CEscape_loop use_hex utf8_safe h (c # s) = x # xs"
      "unescape_step False x xs = Inr ([c], CEscape_loop use_hex utf8_safe h' s)" using CEscape_loop_step by blast
  show ?case unfolding e(1) CUnescapeInternal_step(3) [OF e(2)] Cons.IH by simp
qed

section \<open>The table-driven escaper\<close>

definition escape_len :: "int \<Rightarrow> int" where
  "escape_len b = (if b \<in> {9, 10, 13, 34, 39, 92} then 2 else if 32 \<le> b \<and> b < 127 then 1 else 4)"

lemma kCEscapedLen_map: "kCEscapedLen = map escape_len [0..255]"
  by code_simp

lemma kCEscapedLen_nth: "kCEscapedLen ! nat (uc c) = escape_len (uc c)"
  by (rule byte_table [OF kCEscapedLen_map])

lemma chr_octal: "0 \<le> i \<Longrightarrow> i < 8 \<Longrightarrow> chr (48 + i) = hex_char i"
  by (simp add: hex_char_def add.commute)

lemma kCEscapedSequence_token:
  "map chr (take (nat (kCEscapedLen ! nat (uc c))) (kCEscapedSequence (uc c))) = CEscape_loop False False False [c]"
proof (cases "c \<in> {CHR 0x0A, CHR 0x0D, CHR 0x09, CHR 0x22, CHR 0x27, CHR 0x5C}")
  case True
  then have "c = CHR 0x0A \<or> c = CHR 0x0D \<or> c = CHR 0x09 \<or> c = CHR 0x22 \<or> c = CHR 0x27 \<or> c = CHR 0x5C" by simp
  moreover have "map chr [92, 110, 114, 116, 34, 39] = [CHR 0x5C, CHR ''n'', CHR ''r'', CHR ''t'', CHR 0x22, CHR 0x27]" by code_simp
  ultimately show ?thesis
    unfolding kCEscapedSequence_def kCEscapedLen_nth Let_def by (elim disjE) (simp_all add: escape_len_def)
next
  case False
  then have n: "c \<noteq> CHR 0x0A" "c \<noteq> CHR 0x0D" "c \<noteq> CHR 0x09" "c \<noteq> CHR 0x22" "c \<noteq> CHR 0x27" "c \<noteq> CHR 0x5C" by auto
  then have "uc c \<noteq> uc CHR 0x0A" "uc c \<noteq> uc CHR 0x0D" "uc c \<noteq> uc CHR 0x09" "uc c \<noteq> uc CHR 0x22" "uc c \<noteq> uc CHR 0x27" "uc c \<noteq> uc CHR 0x5C"
    by (simp_all only: uc_inject not_False_eq_True)
  then have l: "escape_len (uc c) = (if ascii_isprint c then 1 else 4)" by (simp add: escape_len_def ascii_isprint_def)
  have "chr 92 = CHR 0x5C" by code_simp
  then show ?thesis
    using n uc_octal [of c] unfolding kCEscapedSequence_def kCEscapedLen_nth Let_def l CEscape_loop.simps kHexChar_octal
    by (simp add: chr_octal)
qed

lemma escape_len_range: "1 \<le> escape_len b" "escape_len b \<le> 4"
  by (simp_all add: escape_len_def)

lemma kCEscapedSequence_length: "length (kCEscapedSequence b) = 4"
  by (simp add: kCEscapedSequence_def Let_def)

text \<open>The length of the escaped string.\<close>

lemma CEscape_loop_Cons: "CEscape_loop False False False (c # src) = CEscape_loop False False False [c] @ CEscape_loop False False False src"
  by (simp add: Let_def)

lemma token_length: "int (length (CEscape_loop False False False [c])) = escape_len (uc c)"
  using escape_len_range [of "uc c"]
  unfolding kCEscapedSequence_token [symmetric] length_map length_take kCEscapedSequence_length kCEscapedLen_nth by linarith

lemma escaped_length_loop_eq:
  assumes "0 \<le> len" "len + int (length (CEscape_loop False False False src)) < 2 ^ 64"
  shows "escaped_length_loop src unchecked len = Some (len + int (length (CEscape_loop False False False src)))"
  using assms
proof (induction src arbitrary: "unchecked" len)
  case (Cons c src)
  define l where "l = escape_len (uc c)"
  define t where "t = int (length (CEscape_loop False False False src))"
  have lt: "int (length (CEscape_loop False False False (c # src))) = l + t"
    unfolding CEscape_loop_Cons [of c src] length_append of_nat_add token_length l_def t_def ..
  have r: "0 \<le> len" "0 \<le> len + l" "len + l + t < 2 ^ 64" "0 \<le> t"
    using Cons.prems escape_len_range [of "uc c"] unfolding lt l_def [symmetric] by (simp_all add: t_def)
  then have "(len + l) mod 2 ^ 64 = len + l" "len \<le> 2 ^ 64 - 1 - l" by simp_all
  then show ?case
    using Cons.IH [of "len + l"] r unfolding lt escaped_length_loop.simps kCEscapedLen_nth Let_def l_def [symmetric] t_def [symmetric]
    by (simp add: algebra_simps)
qed simp

lemma CEscape_loop_length: "length src \<le> length (CEscape_loop False False False src)"
  "length (CEscape_loop False False False src) \<le> 4 * length src"
  "length (CEscape_loop False False False src) = length src \<Longrightarrow> CEscape_loop False False False src = src"
proof (induction src)
  case (Cons c src)
  have t: "1 \<le> length (CEscape_loop False False False [c])" "length (CEscape_loop False False False [c]) \<le> 4"
    using token_length [of c] escape_len_range [of "uc c"] by linarith+
  { case 1 show ?case unfolding CEscape_loop_Cons [of c src] length_append using Cons(1) t by simp }
  { case 2 show ?case unfolding CEscape_loop_Cons [of c src] length_append using Cons(2) t by simp }
  { case 3
    then have "length (CEscape_loop False False False [c]) = 1" "CEscape_loop False False False src = src"
      unfolding CEscape_loop_Cons [of c src] length_append using Cons(1,3) t by simp_all
    moreover have "CEscape_loop False False False [c] = [c]" if "length (CEscape_loop False False False [c]) = 1"
      using that by (auto split: if_splits)
    ultimately show ?case unfolding CEscape_loop_Cons [of c src] by simp }
qed simp_all

text \<open>
  The copy loop stays inside a buffer with three bytes to spare, and what it leaves before its position is the
  escaped string.
\<close>

lemma copy_sequences_eq:
  assumes "d + length (CEscape_loop False False False src) + 3 \<le> length buf"
  shows "\<exists>buf'. copy_sequences src d buf = Some buf' \<and>
    take (d + length (CEscape_loop False False False src)) buf' = take d buf @ CEscape_loop False False False src"
  using assms
proof (induction src arbitrary: d buf)
  case (Cons c src)
  define tok where "tok = CEscape_loop False False False [c]"
  define seq where "seq = map chr (kCEscapedSequence (uc c))"
  define esc where "esc = CEscape_loop False False False src"
  have e: "CEscape_loop False False False (c # src) = tok @ esc" unfolding tok_def esc_def by (rule CEscape_loop_Cons)
  have len: "nat (kCEscapedLen ! nat (uc c)) = length tok" unfolding kCEscapedLen_nth tok_def token_length [symmetric] by simp
  have seq: "length seq = 4" "take (length tok) seq = tok"
    using kCEscapedSequence_token [of c] unfolding len [symmetric] seq_def take_map
    by (simp_all add: kCEscapedSequence_length tok_def)
  have "length tok \<ge> 1" "length tok \<le> 4" using token_length [of c] escape_len_range [of "uc c"] unfolding tok_def by linarith+
  then have fits: "d + 4 \<le> length buf" using Cons.prems unfolding e by simp
  define buf1 where "buf1 = take d buf @ seq @ drop (d + 4) buf"
  have w: "buffer_write d seq buf = Some buf1" using fits by (simp add: buffer_write_def seq buf1_def)
  have b1: "length buf1 = length buf" "take (d + length tok) buf1 = take d buf @ tok"
    using fits seq \<open>length tok \<le> 4\<close> by (simp_all add: buf1_def)
  obtain buf' where b: "copy_sequences src (d + length tok) buf1 = Some buf'"
      "take (d + length tok + length esc) buf' = take (d + length tok) buf1 @ esc"
    using Cons.IH [of "d + length tok" buf1] Cons.prems unfolding e b1(1) esc_def by auto
  show ?case unfolding e using b b1(2) w
    by (simp add: len seq_def [symmetric] add.assoc)
qed simp

lemma CEscape_eq:
  assumes "int (length src) \<le> 2 ^ 61"
  shows "CEscape src = Some (CEscapeInternal src False False)"
proof -
  define esc where "esc = CEscape_loop False False False src"
  have "length esc \<le> 4 * length src" unfolding esc_def by (rule CEscape_loop_length)
  then have b: "int (length esc) \<le> 2 ^ 63" using assms by simp
  then have "CEscapedLength src = Some (int (length esc))"
    unfolding CEscapedLength_def Let_def esc_def by (subst escaped_length_loop_eq) simp_all
  moreover obtain buf' where "copy_sequences src 0 (replicate (nat (int (length esc) + 3)) CHR 0x00) = Some buf'" "take (length esc) buf' = esc"
    using copy_sequences_eq [of 0 src "replicate (nat (int (length esc) + 3)) CHR 0x00"] unfolding esc_def [symmetric]
    by (auto simp: nat_add_distrib)
  moreover have "src = esc" if "length esc = length src" using CEscape_loop_length(3) that unfolding esc_def by metis
  ultimately show ?thesis
    using b unfolding CEscape_def CEscapeAndAppendInternal_def CEscapeInternal_def esc_def [symmetric] by (simp add: Let_def)
qed

section \<open>Properties\<close>

text \<open>
  C22: Unescaping undoes each of the four escapers, whatever the destination held before; and the table-driven
  CEscape neither aborts nor writes outside its buffer, and gives what the general escaper gives.
\<close>

theorem c_escape_roundtrip:
  assumes "length s \<le> 2 ^ 61"
  shows "CEscape s = Some (CEscapeInternal s False False) \<and> CUnescape (CEscapeInternal s False False) dest = Some (None, s) \<and>
    CUnescape (CHexEscape s) dest = Some (None, s) \<and> CUnescape (Utf8SafeCEscape s) dest = Some (None, s) \<and>
    CUnescape (Utf8SafeCHexEscape s) dest = Some (None, s)"
proof -
  have "int (length s) \<le> int (2 ^ 61)" using assms by (simp only: of_nat_le_iff)
  then have "CEscape s = Some (CEscapeInternal s False False)" by (intro CEscape_eq) simp
  moreover have "CUnescape (CEscapeInternal s use_hex utf8_safe) dest = Some (None, s)" for use_hex utf8_safe
    unfolding CUnescape_defined CEscapeInternal_def CEscape_loop_unescape by simp
  ultimately show ?thesis unfolding CHexEscape_def Utf8SafeCEscape_def Utf8SafeCHexEscape_def by blast
qed

theorem c_escape_roundtrip_witness: "\<exists>e. CEscape [CHR 0x0A, CHR ''a''] = Some e \<and> CUnescape e [] = Some (None, [CHR 0x0A, CHR ''a''])"
  using c_escape_roundtrip [of "[CHR 0x0A, CHR ''a'']" "[]"] by auto

text \<open>
  C23: Unescaping stays inside its buffer, valid input or not: it always returns, writes at most as many
  characters as it reads, leaves the destination empty on an error, and unescaping a string into itself, where
  the loop overwrites the text it is reading, gives the message or string that a separate destination gives.
\<close>

theorem c_unescape_in_place:
  assumes "n \<le> length dest"
  shows "\<exists>e out. CUnescape (take n dest) other = Some (e, out) \<and> CUnescape_in_place n dest = Some (e, out) \<and>
    length out \<le> n \<and> (e = None \<or> out = [])"
proof (cases "CUnescapeInternal False (take n dest) []")
  case (Inl e)
  then show ?thesis unfolding CUnescape_defined CUnescape_in_place_eq [OF assms] by simp
next
  case (Inr out)
  then show ?thesis using CUnescapeInternal_length [OF Inr] assms
    unfolding CUnescape_defined CUnescape_in_place_eq [OF assms] by simp
qed

theorem c_unescape_in_place_witness:
  "\<exists>e out. CUnescape_in_place 3 [CHR 0x5C, CHR ''n'', CHR ''c'', CHR ''d''] = Some (e, out) \<and> length out \<le> 3 \<and> (e = None \<or> out = [])"
  using c_unescape_in_place [of 3 "[CHR 0x5C, CHR ''n'', CHR ''c'', CHR ''d'']" "[]"] by auto

end
