(* ===== verification/Node_Set.thy ===== *)
theory Node_Set
  imports Abseil_Prelude "HOL-Library.Monad_Syntax"
begin

text \<open>
  The hash set of \<^verbatim>\<open>synchronization/internal/graphcycles.cc\<close>: open addressing with linear probing, tombstones
  and doubling. A search on a table with no empty slot would not end: it is a partial function whose value
  None is not returning, and the operations are shown to return. The interface the deadlock detector uses is
  a locale, interpreted on these definitions.
\<close>

unbundle bit_operations_syntax

section \<open>The hash set\<close>

abbreviation kEmpty :: int where
  "kEmpty \<equiv> - 1"

abbreviation kDel :: int where
  "kDel \<equiv> - 2"

definition kInline :: nat where
  "kInline = 8"

record NodeSet =
  table :: "int list"
  occupied :: nat

definition NodeSet_Init :: NodeSet where
  "NodeSet_Init = \<lparr>table = replicate kInline kEmpty, occupied = 0\<rparr>"

definition node_hash :: "int \<Rightarrow> nat" where
  "node_hash a = nat (a mod 2 ^ 32 * 41 mod 2 ^ 32)"

text \<open>The probing loop; \<^term>\<open>del\<close> is the first deleted slot seen, if any.\<close>

partial_function (option) probe_loop :: "int \<Rightarrow> int list \<Rightarrow> nat \<Rightarrow> nat option \<Rightarrow> nat option" where
  "probe_loop v t i del =
    (let e = t ! i; mask = length t - 1
     in if v = e then Some i
        else if e = kEmpty then Some (case del of None \<Rightarrow> i | Some j \<Rightarrow> j)
        else probe_loop v t (i + 1 AND mask) (if e = kDel \<and> del = None then Some i else del))"

definition FindIndex :: "int list \<Rightarrow> int \<Rightarrow> nat option" where
  "FindIndex t v = probe_loop v t (node_hash v AND (length t - 1)) None"

definition NodeSet_contains :: "NodeSet \<Rightarrow> int \<Rightarrow> bool option" where
  "NodeSet_contains s v = do { i \<leftarrow> FindIndex (table s) v; Some (table s ! i = v) }"

text \<open>A loop over a list whose body may fail.\<close>

primrec fold_opt :: "('a \<Rightarrow> 's \<Rightarrow> 's option) \<Rightarrow> 'a list \<Rightarrow> 's \<Rightarrow> 's option" where
  "fold_opt f [] s = Some s"
| "fold_opt f (x # xs) s = do { s \<leftarrow> f x s; fold_opt f xs s }"

text \<open>
  Insertion calls Grow, which calls insertion on the doubled table; the first argument bounds the depth of
  that recursion, and depth two is enough (\<^verbatim>\<open>NodeSet_insert_spec\<close>).
\<close>

primrec insert_depth :: "nat \<Rightarrow> int \<Rightarrow> NodeSet \<Rightarrow> (bool \<times> NodeSet) option" where
  "insert_depth 0 v s = None"
| "insert_depth (Suc n) v s =
    do {
      i \<leftarrow> FindIndex (table s) v;
      if table s ! i = v then Some (False, s)
      else do {
        let occ = (if table s ! i = kEmpty then occupied s + 1 else occupied s);
        let t = (table s)[i := v];
        if occ \<ge> length t - length t div 4 then do {
          s \<leftarrow> fold_opt (\<lambda>e s. if e \<ge> 0 then map_option snd (insert_depth n e s) else Some s) t
                 \<lparr>table = replicate (length t * 2) kEmpty, occupied = 0\<rparr>;
          Some (True, s)
        }
        else Some (True, \<lparr>table = t, occupied = occ\<rparr>)
      }
    }"

definition NodeSet_insert :: "int \<Rightarrow> NodeSet \<Rightarrow> (bool \<times> NodeSet) option" where
  "NodeSet_insert v s = insert_depth 2 v s"

definition NodeSet_erase :: "int \<Rightarrow> NodeSet \<Rightarrow> NodeSet option" where
  "NodeSet_erase v s =
    do {
      i \<leftarrow> FindIndex (table s) v;
      Some (if table s ! i = v then s\<lparr>table := (table s)[i := kDel]\<rparr> else s)
    }"

text \<open>Iteration: the next element at or after the cursor, and the elements a loop over the set visits.\<close>

function NodeSet_Next :: "NodeSet \<Rightarrow> nat \<Rightarrow> (nat \<times> int) option" where
  "NodeSet_Next s cursor =
    (if cursor < length (table s) then
       let v = table s ! cursor; cursor = cursor + 1
       in if v \<ge> 0 then Some (cursor, v) else NodeSet_Next s cursor
     else None)"
  by auto
termination by (relation "measure (\<lambda>(s, cursor). length (table s) - cursor)") auto

declare NodeSet_Next.simps [simp del]

lemma NodeSet_Next_cursor: "NodeSet_Next s cursor = Some (cursor', v) \<Longrightarrow> cursor < cursor' \<and> cursor' \<le> length (table s)"
proof (induction s cursor rule: NodeSet_Next.induct)
  case (1 s cursor)
  then show ?case by (subst (asm) (2) NodeSet_Next.simps) (fastforce simp: Let_def split: if_splits)
qed

function hash_for_each :: "NodeSet \<Rightarrow> nat \<Rightarrow> int list" where
  "hash_for_each s cursor =
    (case NodeSet_Next s cursor of
       None \<Rightarrow> []
     | Some (cursor, elem) \<Rightarrow> elem # hash_for_each s cursor)"
  by auto
termination
proof (relation "measure (\<lambda>(s, cursor). length (table s) - cursor)", goal_cases)
  case (2 s cursor a c e)
  then show ?case using NodeSet_Next_cursor [of s cursor c e] by (simp add: diff_less_mono2)
qed simp

declare hash_for_each.simps [simp del]

section \<open>Iteration\<close>

lemma hash_for_each_filter: "hash_for_each s cursor = filter (\<lambda>v. v \<ge> 0) (drop cursor (table s))"
proof (induction "length (table s) - cursor" arbitrary: cursor rule: less_induct)
  case less
  show ?case
  proof (cases "cursor < length (table s)")
    case True
    have d: "drop cursor (table s) = table s ! cursor # drop (cursor + 1) (table s)" using True by (simp add: Cons_nth_drop_Suc)
    have IH: "hash_for_each s (cursor + 1) = filter (\<lambda>v. v \<ge> 0) (drop (cursor + 1) (table s))" using less True by simp
    have n: "NodeSet_Next s cursor = (if table s ! cursor \<ge> 0 then Some (cursor + 1, table s ! cursor) else NodeSet_Next s (cursor + 1))"
      using True by (subst NodeSet_Next.simps) (simp add: Let_def)
    show ?thesis
    proof (cases "table s ! cursor \<ge> 0")
      case True
      then show ?thesis unfolding d by (subst hash_for_each.simps) (simp add: n IH [simplified])
    next
      case False
      then have "hash_for_each s cursor = hash_for_each s (cursor + 1)"
        unfolding hash_for_each.simps [of s cursor] hash_for_each.simps [of s "cursor + 1"] n by simp
      then show ?thesis unfolding d IH using False by simp
    qed
  next
    case False
    then have "NodeSet_Next s cursor = None" by (subst NodeSet_Next.simps) simp
    then show ?thesis using False by (subst hash_for_each.simps) simp
  qed
qed

section \<open>The probe sequence\<close>

definition table_size :: "nat \<Rightarrow> bool" where
  "table_size n \<longleftrightarrow> (\<exists>k \<ge> 3. n = 2 ^ k)"

lemma table_size_pos: "table_size n \<Longrightarrow> 0 < n"
  by (auto simp: table_size_def)

lemma table_size_double: "table_size n \<Longrightarrow> table_size (n * 2)"
  unfolding table_size_def by (metis le_SucI power_Suc2)

lemma table_size_mask: "table_size n \<Longrightarrow> i AND (n - 1) = i mod n"
  unfolding table_size_def by (metis mask_eq_exp_minus_1 take_bit_eq_mask take_bit_eq_mod)

text \<open>The slot tried after m steps.\<close>

definition slot :: "int list \<Rightarrow> int \<Rightarrow> nat \<Rightarrow> nat" where
  "slot t v m = (node_hash v + m) mod length t"

lemma slot_less: "table_size (length t) \<Longrightarrow> slot t v m < length t"
  unfolding slot_def by (rule mod_less_divisor) (rule table_size_pos)

lemma slot_surj:
  assumes "i < length t"
  obtains m where "m < length t" "slot t v m = i"
proof -
  define n where "n = length t"
  define m where "m = (i + (n - node_hash v mod n)) mod n"
  have n: "0 < n" using assms unfolding n_def by linarith
  have "(node_hash v + m) mod n = (node_hash v mod n + (i + (n - node_hash v mod n))) mod n"
    unfolding m_def by (simp add: mod_simps)
  also have "node_hash v mod n + (i + (n - node_hash v mod n)) = i + n"
    using mod_less_divisor [OF n, of "node_hash v"] by linarith
  finally have "slot t v m = i" using assms by (simp add: slot_def n_def)
  moreover have "m < length t" using n by (simp add: m_def n_def)
  ultimately show ?thesis using that by blast
qed

text \<open>
  What the loop returns when the first slot that holds the element or nothing is d steps on: that slot, or, where
  the element is absent, the first deleted slot on the way.
\<close>

lemma probe_loop_spec:
  assumes "table_size (length t)" "\<forall>m. k \<le> m \<and> m < d \<longrightarrow> t ! slot t v m \<noteq> v \<and> t ! slot t v m \<noteq> kEmpty"
    "t ! slot t v d = v \<or> t ! slot t v d = kEmpty" "v \<ge> 0" "k \<le> d"
    "\<forall>j. del = Some j \<longrightarrow> (\<exists>m < d. j = slot t v m \<and> t ! j = kDel)"
  shows "\<exists>i m. probe_loop v t (slot t v k) del = Some i \<and> i = slot t v m \<and> m \<le> d \<and>
    (if t ! slot t v d = v then m = d else t ! i = kEmpty \<or> t ! i = kDel)"
  using assms
proof (induction "d - k" arbitrary: k del)
  case 0
  then have "k = d" by simp
  then show ?case using 0 by (subst probe_loop.simps) (auto simp: Let_def split: option.splits intro: less_imp_le)
next
  case (Suc n)
  have k: "k < d" using Suc.hyps by simp
  have e: "t ! slot t v k \<noteq> v" "t ! slot t v k \<noteq> kEmpty" using Suc.prems(2) k by auto
  have next_slot: "(slot t v k + 1) AND (length t - 1) = slot t v (Suc k)"
    unfolding table_size_mask [OF Suc.prems(1)] by (simp add: slot_def mod_simps)
  define del' where "del' = (if t ! slot t v k = kDel \<and> del = None then Some (slot t v k) else del)"
  have step: "probe_loop v t (slot t v k) del = probe_loop v t (slot t v (Suc k)) del'"
    using e by (subst probe_loop.simps) (simp add: Let_def next_slot [simplified] del'_def)
  show ?case
    unfolding step
  proof (rule Suc.hyps(1))
    show "\<forall>j. del' = Some j \<longrightarrow> (\<exists>m < d. j = slot t v m \<and> t ! j = kDel)"
      using Suc.prems(6) k unfolding del'_def by auto
  qed (use Suc k in auto)
qed

section \<open>Invariant\<close>

text \<open>An element can be found: no slot before its own on its probe sequence is empty.\<close>

definition reachable_slot :: "int list \<Rightarrow> nat \<Rightarrow> bool" where
  "reachable_slot t i \<longleftrightarrow> (\<exists>m. i = slot t (t ! i) m \<and> (\<forall>m' < m. t ! slot t (t ! i) m' \<noteq> kEmpty))"

definition used :: "int list \<Rightarrow> nat set" where
  "used t = {i. i < length t \<and> t ! i \<noteq> kEmpty}"

definition table_ok :: "NodeSet \<Rightarrow> bool" where
  "table_ok s \<longleftrightarrow>
    table_size (length (table s)) \<and> occupied s = card (used (table s)) \<and> occupied s < length (table s) \<and>
    (\<forall>e \<in> set (table s). e \<ge> kDel) \<and>
    (\<forall>i < length (table s). table s ! i \<ge> 0 \<longrightarrow> reachable_slot (table s) i) \<and>
    (\<forall>i < length (table s). \<forall>j < length (table s). table s ! i = table s ! j \<and> table s ! i \<ge> 0 \<longrightarrow> i = j)"

definition NodeSet_ok :: "NodeSet \<Rightarrow> bool" where
  "NodeSet_ok s \<longleftrightarrow> table_ok s \<and> occupied s < length (table s) - length (table s) div 4"

text \<open>The set a table stands for.\<close>

definition members :: "NodeSet \<Rightarrow> int set" where
  "members s = {v. v \<ge> 0 \<and> v \<in> set (table s)}"

lemma finite_used: "finite (used t)"
  by (simp add: used_def)

lemma table_has_empty:
  assumes "table_ok s"
  obtains i where "i < length (table s)" "table s ! i = kEmpty"
proof -
  have "used (table s) \<noteq> {..<length (table s)}" using assms unfolding table_ok_def by (metis card_lessThan nat_neq_iff)
  then show ?thesis using that unfolding used_def by blast
qed

text \<open>The first slot on the probe sequence that is empty or holds the element.\<close>

lemma first_stop:
  assumes "table_ok s"
  obtains d where "table s ! slot (table s) v d = v \<or> table s ! slot (table s) v d = kEmpty"
    "\<forall>m < d. table s ! slot (table s) v m \<noteq> v \<and> table s ! slot (table s) v m \<noteq> kEmpty"
proof -
  obtain i where i: "i < length (table s)" "table s ! i = kEmpty" using table_has_empty [OF assms] .
  obtain m where m: "slot (table s) v m = i" using slot_surj [OF i(1)] by blast
  define P where "P m \<longleftrightarrow> table s ! slot (table s) v m = v \<or> table s ! slot (table s) v m = kEmpty" for m
  have "P m" using i m by (simp add: P_def)
  then have "P (LEAST m. P m)" "\<forall>m' < (LEAST m. P m). \<not> P m'" by (auto intro: LeastI dest: not_less_Least)
  then show ?thesis using that unfolding P_def by blast
qed

text \<open>
  The search: it ends, at the element's slot if the element is present, and otherwise at a free slot where
  it can be found again.
\<close>

lemma FindIndex_spec:
  assumes "table_ok s" "v \<ge> 0"
  obtains i m where "FindIndex (table s) v = Some i" "i < length (table s)" "i = slot (table s) v m"
    "\<forall>m' < m. table s ! slot (table s) v m' \<noteq> kEmpty"
    "if v \<in> members s then table s ! i = v else table s ! i = kEmpty \<or> table s ! i = kDel"
proof -
  define t where "t = table s"
  have ts: "table_size (length t)" using assms(1) by (simp add: table_ok_def t_def)
  obtain d where d: "t ! slot t v d = v \<or> t ! slot t v d = kEmpty" "\<forall>m < d. t ! slot t v m \<noteq> v \<and> t ! slot t v m \<noteq> kEmpty"
    using first_stop [OF assms(1)] unfolding t_def by blast
  have start: "node_hash v AND (length t - 1) = slot t v 0" unfolding table_size_mask [OF ts] by (simp add: slot_def)
  obtain i m where i: "FindIndex t v = Some i" "i = slot t v m" "m \<le> d"
      "if t ! slot t v d = v then m = d else t ! i = kEmpty \<or> t ! i = kDel"
    using probe_loop_spec [OF ts, of 0 d v None] d assms(2) unfolding FindIndex_def start by auto
  have less: "i < length t" unfolding i(2) by (rule slot_less [OF ts])
  have found: "t ! slot t v d = v" if mem: "v \<in> members s"
  proof -
    obtain j where j: "j < length t" "t ! j = v" using mem unfolding members_def t_def by (auto simp: in_set_conv_nth)
    then have "reachable_slot t j" using assms unfolding table_ok_def t_def by blast
    then obtain m' where m': "j = slot t v m'" "\<forall>m'' < m'. t ! slot t v m'' \<noteq> kEmpty"
      unfolding reachable_slot_def j(2) by blast
    have "t ! slot t v m' = v" using j(2) m'(1) by simp
    then have "d \<le> m'" using d(2) by (metis not_le)
    then show ?thesis using d(1) j m' by (metis le_neq_implies_less)
  qed
  have "v \<in> members s" if "t ! slot t v d = v"
    using that assms(2) nth_mem [OF slot_less [OF ts, of v d]] unfolding members_def t_def by simp
  with found have mem: "v \<in> members s \<longleftrightarrow> t ! slot t v d = v" by blast
  have "\<forall>m' < m. t ! slot t v m' \<noteq> kEmpty" using d(2) i(3) by simp
  moreover have "if v \<in> members s then t ! i = v else t ! i = kEmpty \<or> t ! i = kDel"
    using i(2,4) unfolding mem by (simp split: if_splits)
  ultimately show ?thesis using that i(1,2) less unfolding t_def by blast
qed

lemma NodeSet_contains_spec: "NodeSet_ok s \<Longrightarrow> v \<ge> 0 \<Longrightarrow> NodeSet_contains s v = Some (v \<in> members s)"
proof -
  assume a: "NodeSet_ok s" "v \<ge> 0"
  then have "table_ok s" by (simp add: NodeSet_ok_def)
  then obtain i where "FindIndex (table s) v = Some i"
      "if v \<in> members s then table s ! i = v else table s ! i = kEmpty \<or> table s ! i = kDel"
    using FindIndex_spec [of s v] a(2) by metis
  then show ?thesis using a(2) by (cases "v \<in> members s") (auto simp: NodeSet_contains_def)
qed

section \<open>Insertion and removal\<close>

text \<open>Filling or marking a slot keeps the probe sequences of the other elements free of empty slots.\<close>

lemma slot_update [simp]: "slot (t[i := v]) = slot t"
  by (simp add: slot_def fun_eq_iff)

lemma reachable_slot_update:
  assumes "reachable_slot t j" "x \<noteq> kEmpty" "j \<noteq> i"
  shows "reachable_slot (t[i := x]) j"
proof -
  have keep: "t[i := x] ! k \<noteq> kEmpty" if "t ! k \<noteq> kEmpty" for k
    using that assms(2) by (cases "i < length t") (auto simp: nth_list_update list_update_beyond)
  have e: "t[i := x] ! j = t ! j" using assms(3) by simp
  obtain m where "j = slot t (t ! j) m" "\<forall>m' < m. t ! slot t (t ! j) m' \<noteq> kEmpty"
    using assms(1) unfolding reachable_slot_def by blast
  then show ?thesis unfolding reachable_slot_def e slot_update using keep by blast
qed

lemma used_update: "i < length t \<Longrightarrow> x \<noteq> kEmpty \<Longrightarrow> used (t[i := x]) = insert i (used t)"
  by (auto simp: used_def nth_list_update)

lemma members_update:
  assumes "table_ok s" "i < length (table s)"
  shows "members (s\<lparr>table := (table s)[i := x], occupied := occ\<rparr>) =
    members s - {table s ! i} \<union> (if x \<ge> 0 then {x} else {})"
proof -
  have "v \<in> set ((table s)[i := x]) \<longleftrightarrow> v = x \<or> (v \<in> set (table s) \<and> v \<noteq> table s ! i)" if v: "v \<ge> 0" for v
  proof -
    have "j = i" if "j < length (table s)" "table s ! j = table s ! i" "table s ! j \<ge> 0" for j
      using assms that unfolding table_ok_def by blast
    then show ?thesis using assms(2) v
      by (auto simp: in_set_conv_nth nth_list_update) metis+
  qed
  then show ?thesis unfolding members_def by auto
qed

lemma table_ok_insert:
  assumes ok: "table_ok s" and v: "v \<ge> 0" "v \<notin> members s" and i: "i < length (table s)" "i = slot (table s) v m"
    and path: "\<forall>m' < m. table s ! slot (table s) v m' \<noteq> kEmpty" and free: "table s ! i = kEmpty \<or> table s ! i = kDel"
    and occ: "occ = (if table s ! i = kEmpty then occupied s + 1 else occupied s)" "occ < length (table s)"
  shows "table_ok \<lparr>table = (table s)[i := v], occupied = occ\<rparr>"
proof -
  define t where "t = table s"
  note ok' = ok [unfolded table_ok_def, folded t_def]
  have nv: "v \<noteq> kEmpty" using v by simp
  have "card (insert i (used t)) = occ"
    using occ(1) ok' i(1) finite_used [of t] unfolding t_def [symmetric] by (auto simp: used_def insert_absorb)
  then have card: "card (used (t[i := v])) = occ" using used_update [OF _ nv] i(1) by (simp add: t_def)
  have "reachable_slot (t[i := v]) i"
    unfolding reachable_slot_def using i path nv by (intro exI [of _ m]) (auto simp: t_def nth_list_update)
  then have reach: "reachable_slot (t[i := v]) j" if "j < length t" "t[i := v] ! j \<ge> 0" for j
    using reachable_slot_update [of t j v i] ok' nv that by (cases "j = i") auto
  have "t ! j \<noteq> v" if "j < length t" for j using v that unfolding members_def t_def by force
  then have inj: "j = k" if "j < length t" "k < length t" "t[i := v] ! j = t[i := v] ! k" "t[i := v] ! j \<ge> 0" for j k
  proof (cases "j = i \<or> k = i")
    case True
    then show ?thesis using that(3) \<open>\<And>j. j < length t \<Longrightarrow> t ! j \<noteq> v\<close> that(1,2) by (metis nth_list_update_eq nth_list_update_neq)
  next
    case False
    then have "t ! j = t ! k" "t ! j \<ge> 0" using that(3,4) by simp_all
    then show ?thesis using ok' that(1,2) by blast
  qed
  have "\<forall>e \<in> set (t[i := v]). e \<ge> kDel" using ok' v(1) set_update_subset_insert [of t i v] by fastforce
  then show ?thesis
    using ok' card reach inj occ(2) unfolding table_ok_def by (simp add: t_def [symmetric])
qed

lemma NodeSet_Init_ok: "NodeSet_ok NodeSet_Init" "members NodeSet_Init = {}"
proof -
  have "table_size 8" unfolding table_size_def by (rule exI [of _ 3]) simp
  then show "NodeSet_ok NodeSet_Init" "members NodeSet_Init = {}"
    by (auto simp: NodeSet_ok_def table_ok_def NodeSet_Init_def kInline_def used_def members_def)
qed

lemma empty_table_ok: "table_size n \<Longrightarrow> table_ok \<lparr>table = replicate n kEmpty, occupied = 0\<rparr>"
  by (auto simp: table_ok_def used_def table_size_pos)

text \<open>Insertion up to the test whether the table must grow.\<close>

lemma insert_depth_cases:
  assumes ok: "table_ok s" and v: "v \<ge> 0" and load: "occupied s < length (table s) - length (table s) div 4"
  obtains "v \<in> members s" "\<And>n. insert_depth (Suc n) v s = Some (False, s)"
  | t occ where "v \<notin> members s" "table_ok \<lparr>table = t, occupied = occ\<rparr>" "members \<lparr>table = t, occupied = occ\<rparr> = insert v (members s)"
      "length t = length (table s)" "occ \<le> occupied s + 1"
      "\<And>n. insert_depth (Suc n) v s =
        (if occ \<ge> length t - length t div 4 then
           do { s \<leftarrow> fold_opt (\<lambda>e s. if e \<ge> 0 then map_option snd (insert_depth n e s) else Some s) t
                 \<lparr>table = replicate (length t * 2) kEmpty, occupied = 0\<rparr>;
                Some (True, s) }
         else Some (True, \<lparr>table = t, occupied = occ\<rparr>))"
proof -
  obtain i m where i: "FindIndex (table s) v = Some i" "i < length (table s)" "i = slot (table s) v m"
      "\<forall>m' < m. table s ! slot (table s) v m' \<noteq> kEmpty"
      "if v \<in> members s then table s ! i = v else table s ! i = kEmpty \<or> table s ! i = kDel"
    using FindIndex_spec [OF ok v] .
  show ?thesis
  proof (cases "v \<in> members s")
    case True
    then show ?thesis using that(1) i(1,5) by simp
  next
    case False
    have free: "table s ! i = kEmpty \<or> table s ! i = kDel" using i(5) False by simp
    define occ where "occ = (if table s ! i = kEmpty then occupied s + 1 else occupied s)"
    define t where "t = (table s)[i := v]"
    have n4: "length (table s) div 4 \<ge> 1"
    proof -
      have "table_size (length (table s))" using ok by (simp add: table_ok_def)
      then obtain k where "k \<ge> 3" "length (table s) = 2 ^ k" by (auto simp: table_size_def)
      then have "(4 :: nat) \<le> length (table s)" using power_increasing [of 3 k "2 :: nat"] by simp
      then show ?thesis by (simp add: Suc_le_eq div_greater_zero_iff)
    qed
    then have "occ < length (table s)" using load by (auto simp: occ_def)
    then have ok': "table_ok \<lparr>table = t, occupied = occ\<rparr>"
      unfolding t_def by (rule table_ok_insert [OF ok v False i(2,3,4) free occ_def])
    have nv: "table s ! i \<noteq> v" using free v by auto
    have "table s ! i \<notin> members s" using free by (auto simp: members_def)
    then have "members (s\<lparr>table := t, occupied := occ\<rparr>) = insert v (members s)"
      unfolding t_def members_update [OF ok i(2)] using v by auto
    then have "members \<lparr>table = t, occupied = occ\<rparr> = insert v (members s)" by (simp add: members_def)
    moreover have "insert_depth (Suc n) v s = (if occ \<ge> length t - length t div 4 then
           do { s \<leftarrow> fold_opt (\<lambda>e s. if e \<ge> 0 then map_option snd (insert_depth n e s) else Some s) t
                 \<lparr>table = replicate (length t * 2) kEmpty, occupied = 0\<rparr>;
                Some (True, s) }
         else Some (True, \<lparr>table = t, occupied = occ\<rparr>))" for n
      using i(1) nv by (simp add: occ_def t_def Let_def)
    ultimately show ?thesis using that(2) [of t occ] False ok' by (simp add: t_def occ_def)
  qed
qed

lemma insert_depth_in_place:
  assumes ok: "table_ok s" and v: "v \<ge> 0" and room: "occupied s + 1 < length (table s) - length (table s) div 4"
  shows "\<exists>s'. insert_depth (Suc n) v s = Some (v \<notin> members s, s') \<and> NodeSet_ok s' \<and> members s' = insert v (members s) \<and>
    length (table s') = length (table s) \<and> occupied s' \<le> occupied s + 1"
proof -
  have "occupied s < length (table s) - length (table s) div 4" using room by simp
  from ok v this show ?thesis
  proof (cases rule: insert_depth_cases)
    case 1
    then show ?thesis using ok room by (auto simp: NodeSet_ok_def simp del: insert_depth.simps)
  next
    case (2 t occ)
    then show ?thesis using room by (simp add: NodeSet_ok_def del: insert_depth.simps)
  qed
qed

text \<open>Copying the elements into a table with room for all of them.\<close>

lemma regrow:
  assumes "table_ok s" "occupied s + length (filter (\<lambda>e. e \<ge> 0) xs) < length (table s) - length (table s) div 4"
  shows "\<exists>s'. fold_opt (\<lambda>e s. if e \<ge> 0 then map_option snd (insert_depth (Suc n) e s) else Some s) xs s = Some s' \<and>
    NodeSet_ok s' \<and> members s' = members s \<union> {e \<in> set xs. e \<ge> 0}"
  using assms
proof (induction xs arbitrary: s)
  case Nil
  then show ?case by (simp add: NodeSet_ok_def)
next
  case (Cons e xs)
  show ?case
  proof (cases "e \<ge> 0")
    case True
    have "occupied s + 1 < length (table s) - length (table s) div 4" using Cons.prems(2) True by simp
    then obtain s' where s': "insert_depth (Suc n) e s = Some (e \<notin> members s, s')" "NodeSet_ok s'" "members s' = insert e (members s)"
        "length (table s') = length (table s)" "occupied s' \<le> occupied s + 1"
      using insert_depth_in_place [OF Cons.prems(1) True] by blast
    have "table_ok s'" using s'(2) by (simp add: NodeSet_ok_def)
    moreover have "occupied s' + length (filter (\<lambda>e. e \<ge> 0) xs) < length (table s') - length (table s') div 4"
      using Cons.prems(2) True s'(4,5) by simp
    ultimately show ?thesis using Cons.IH [of s'] s'(1,3) True by (auto simp del: insert_depth.simps)
  next
    case False
    then have "occupied s + length (filter (\<lambda>e. e \<ge> 0) xs) < length (table s) - length (table s) div 4"
      using Cons.prems(2) by simp
    from Cons.IH [OF Cons.prems(1) this] show ?thesis using False by (auto simp del: insert_depth.simps)
  qed
qed

lemma filter_used: "length (filter (\<lambda>e. e \<ge> 0) t) \<le> card (used t)"
  unfolding length_filter_conv_card by (rule card_mono [OF finite_used]) (auto simp: used_def)

lemma NodeSet_insert_spec:
  assumes ok: "NodeSet_ok s" and v: "v \<ge> 0"
  shows "\<exists>s'. NodeSet_insert v s = Some (v \<notin> members s, s') \<and> NodeSet_ok s' \<and> members s' = insert v (members s)"
proof -
  define n where "n = length (table s)"
  have tok: "table_ok s" and load: "occupied s < n - n div 4" using ok by (auto simp: NodeSet_ok_def n_def)
  have n: "table_size n" "0 < n" using tok table_size_pos by (auto simp: table_ok_def n_def)
  have depth: "NodeSet_insert v s = insert_depth (Suc (Suc 0)) v s" by (simp only: NodeSet_insert_def numeral_2_eq_2)
  from tok v load [unfolded n_def] show ?thesis
  proof (cases rule: insert_depth_cases)
    case 1
    then show ?thesis using ok unfolding depth by (auto simp del: insert_depth.simps)
  next
    case (2 t occ)
    define new where "new = \<lparr>table = replicate (length t * 2) kEmpty, occupied = 0\<rparr>"
    have "length (filter (\<lambda>e. e \<ge> 0) t) \<le> n - n div 4"
      using filter_used [of t] 2(2,5) load by (simp add: table_ok_def)
    moreover have "n - n div 4 < n * 2 - n * 2 div 4"
    proof -
      have "n * 2 div 4 < n" using n(2) by (simp add: div_less_iff_less_mult)
      moreover have "n - n div 4 \<le> n" by simp
      ultimately show ?thesis by linarith
    qed
    ultimately have "occupied new + length (filter (\<lambda>e. e \<ge> 0) t) < length (table new) - length (table new) div 4"
      using 2(4) by (simp add: new_def n_def)
    moreover have "table_ok new" unfolding new_def 2(4) n_def [symmetric] by (intro empty_table_ok table_size_double n(1))
    ultimately obtain s' where "fold_opt (\<lambda>e s. if e \<ge> 0 then map_option snd (insert_depth (Suc 0) e s) else Some s) t new = Some s'"
        "NodeSet_ok s'" "members s' = members new \<union> {e \<in> set t. e \<ge> 0}"
      using regrow [of new t 0] by blast
    moreover have "members new = {}" unfolding new_def members_def by auto
    moreover have "{e \<in> set t. e \<ge> 0} = insert v (members s)"
      unfolding 2(3) [symmetric] unfolding members_def by auto
    ultimately have grown: "fold_opt (\<lambda>e s. if e \<ge> 0 then map_option snd (insert_depth (Suc 0) e s) else Some s) t new = Some s'"
        "NodeSet_ok s'" "members s' = insert v (members s)" by simp_all
    show ?thesis
    proof (cases "occ \<ge> length t - length t div 4")
      case True
      then show ?thesis unfolding depth 2(6) new_def [symmetric] grown(1) using grown(2,3) 2(1) by simp
    next
      case False
      then show ?thesis unfolding depth 2(6) using 2(1-3) by (simp add: NodeSet_ok_def)
    qed
  qed
qed

lemma NodeSet_erase_spec:
  assumes ok: "NodeSet_ok s" and v: "v \<ge> 0"
  shows "\<exists>s'. NodeSet_erase v s = Some s' \<and> NodeSet_ok s' \<and> members s' = members s - {v}"
proof -
  have tok: "table_ok s" using ok by (simp add: NodeSet_ok_def)
  obtain i m where i: "FindIndex (table s) v = Some i" "i < length (table s)" "i = slot (table s) v m"
      "\<forall>m' < m. table s ! slot (table s) v m' \<noteq> kEmpty"
      "if v \<in> members s then table s ! i = v else table s ! i = kEmpty \<or> table s ! i = kDel"
    using FindIndex_spec [OF tok v] .
  show ?thesis
  proof (cases "v \<in> members s")
    case True
    define s' where "s' = s\<lparr>table := (table s)[i := kDel]\<rparr>"
    have e: "table s ! i = v" using i(5) True by simp
    have "used ((table s)[i := kDel]) = used (table s)" using e v i(2) by (auto simp: used_def nth_list_update)
    moreover have "set ((table s)[i := kDel]) \<subseteq> insert kDel (set (table s))" by (rule set_update_subset_insert)
    moreover have "reachable_slot ((table s)[i := kDel]) j" if "j < length (table s)" "(table s)[i := kDel] ! j \<ge> 0" for j
      using that reachable_slot_update [of "table s" j kDel i] tok i(2) by (cases "j = i") (auto simp: table_ok_def)
    moreover have "j = k" if "j < length (table s)" "k < length (table s)" "(table s)[i := kDel] ! j = (table s)[i := kDel] ! k"
        "(table s)[i := kDel] ! j \<ge> 0" for j k
      using that tok i(2) unfolding table_ok_def by (cases "j = i"; cases "k = i") auto
    ultimately have "NodeSet_ok s'"
      using ok unfolding NodeSet_ok_def table_ok_def s'_def by auto
    moreover have "members s' = members s - {v}"
      using members_update [OF tok i(2), of "occupied s" kDel] unfolding s'_def e by simp
    ultimately show ?thesis using i(1) e by (simp add: NodeSet_erase_def s'_def)
  next
    case False
    then show ?thesis using i(1,5) v ok by (auto simp: NodeSet_erase_def)
  qed
qed

lemma hash_for_each_members: "set (hash_for_each s 0) = members s"
  unfolding hash_for_each_filter members_def by auto

lemma hash_for_each_distinct:
  assumes "NodeSet_ok s"
  shows "distinct (hash_for_each s 0)"
proof -
  have inj: "i = j" if "i < length (table s)" "j < length (table s)" "table s ! i = table s ! j" "table s ! i \<ge> 0" for i j
    using assms that unfolding NodeSet_ok_def table_ok_def by blast
  have "distinct (filter (\<lambda>v. v \<ge> 0) t)"
    if "\<forall>i j. i < length t \<longrightarrow> j < length t \<longrightarrow> t ! i = t ! j \<longrightarrow> t ! i \<ge> 0 \<longrightarrow> i = j" for t :: "int list"
    using that
  proof (induction t)
    case (Cons x t)
    have step: "i = j" if "i < length t" "j < length t" "t ! i = t ! j" "t ! i \<ge> 0" for i j
      using Cons.prems [rule_format, of "Suc i" "Suc j"] that by simp
    moreover have "x \<notin> set t" if "x \<ge> 0"
    proof
      assume "x \<in> set t"
      then obtain j where "j < length t" "t ! j = x" by (auto simp: in_set_conv_nth)
      then show False using Cons.prems [rule_format, of 0 "Suc j"] that by simp
    qed
    ultimately show ?case using Cons.IH by auto
  qed simp
  then show ?thesis unfolding hash_for_each_filter using inj by simp
qed

section \<open>The interface\<close>

text \<open>
  What the deadlock detector relies on: every operation returns and keeps the invariant, and stands for the
  operation on sets.
\<close>

locale int_set =
  fixes init :: "'s" and ins :: "int \<Rightarrow> 's \<Rightarrow> (bool \<times> 's) option" and del :: "int \<Rightarrow> 's \<Rightarrow> 's option"
    and mem :: "'s \<Rightarrow> int \<Rightarrow> bool option" and elems :: "'s \<Rightarrow> int list"
    and ok :: "'s \<Rightarrow> bool" and abs :: "'s \<Rightarrow> int set"
  assumes init: "ok init" "abs init = {}"
    and ins: "ok s \<Longrightarrow> v \<ge> 0 \<Longrightarrow> \<exists>s'. ins v s = Some (v \<notin> abs s, s') \<and> ok s' \<and> abs s' = insert v (abs s)"
    and del: "ok s \<Longrightarrow> v \<ge> 0 \<Longrightarrow> \<exists>s'. del v s = Some s' \<and> ok s' \<and> abs s' = abs s - {v}"
    and mem: "ok s \<Longrightarrow> v \<ge> 0 \<Longrightarrow> mem s v = Some (v \<in> abs s)"
    and elems: "ok s \<Longrightarrow> set (elems s) = abs s" "ok s \<Longrightarrow> distinct (elems s)" "\<forall>v \<in> abs s. v \<ge> 0"
begin

text \<open>Inserting elements one after another and pushing the new ones on a stack.\<close>

lemma push_new:
  assumes "ok s" "\<forall>w \<in> set ws. w \<ge> 0"
  shows "\<exists>s' new. fold_opt (\<lambda>w (s, stack). do { (fresh, s) \<leftarrow> ins w s; Some (s, if fresh then w # stack else stack) }) ws (s, stack) =
      Some (s', new @ stack) \<and> ok s' \<and> abs s' = abs s \<union> set ws \<and> set new = set ws - abs s \<and> distinct new"
  using assms
proof (induction ws arbitrary: s stack)
  case (Cons w ws)
  obtain s1 where s1: "ins w s = Some (w \<notin> abs s, s1)" "ok s1" "abs s1 = insert w (abs s)"
    using ins [OF Cons.prems(1), of w] Cons.prems(2) by auto
  define stack1 where "stack1 = (if w \<notin> abs s then w # stack else stack)"
  obtain s' new where r: "fold_opt (\<lambda>w (s, stack). do { (fresh, s) \<leftarrow> ins w s; Some (s, if fresh then w # stack else stack) }) ws (s1, stack1) =
      Some (s', new @ stack1)" "ok s'" "abs s' = abs s1 \<union> set ws" "set new = set ws - abs s1" "distinct new"
    using Cons.IH [OF s1(2), of stack1] Cons.prems(2) by auto
  define new' where "new' = (if w \<notin> abs s then new @ [w] else new)"
  have "new @ stack1 = new' @ stack" by (simp add: stack1_def new'_def)
  moreover have "set new' = set (w # ws) - abs s" "distinct new'" using r(4,5) s1(3) by (auto simp: new'_def)
  ultimately show ?case using r s1 by (intro exI [of _ s'] exI [of _ new']) (auto simp: stack1_def)
qed simp

end

interpretation node_set: int_set NodeSet_Init NodeSet_insert NodeSet_erase NodeSet_contains "\<lambda>s. hash_for_each s 0" NodeSet_ok members
proof unfold_locales
  show "\<forall>v \<in> members s. v \<ge> 0" for s by (simp add: members_def)
qed (simp_all add: NodeSet_Init_ok NodeSet_insert_spec NodeSet_erase_spec NodeSet_contains_spec hash_for_each_members hash_for_each_distinct)

section \<open>Sequences of operations\<close>

datatype set_op = Insert int | Erase int | Contains int | Clear

primrec op_arg_ok :: "set_op \<Rightarrow> bool" where
  "op_arg_ok (Insert v) = (v \<ge> 0)"
| "op_arg_ok (Erase v) = (v \<ge> 0)"
| "op_arg_ok (Contains v) = (v \<ge> 0)"
| "op_arg_ok Clear = True"

primrec run_op :: "set_op \<Rightarrow> NodeSet \<Rightarrow> (bool \<times> NodeSet) option" where
  "run_op (Insert v) s = NodeSet_insert v s"
| "run_op (Erase v) s = map_option (Pair False) (NodeSet_erase v s)"
| "run_op (Contains v) s = map_option (\<lambda>b. (b, s)) (NodeSet_contains s v)"
| "run_op Clear s = Some (False, NodeSet_Init)"

primrec run_ops :: "set_op list \<Rightarrow> NodeSet \<Rightarrow> (bool list \<times> NodeSet) option" where
  "run_ops [] s = Some ([], s)"
| "run_ops (x # xs) s = do { (b, s) \<leftarrow> run_op x s; (bs, s) \<leftarrow> run_ops xs s; Some (b # bs, s) }"

primrec set_semantics :: "set_op \<Rightarrow> int set \<Rightarrow> bool \<times> int set" where
  "set_semantics (Insert v) A = (v \<notin> A, insert v A)"
| "set_semantics (Erase v) A = (False, A - {v})"
| "set_semantics (Contains v) A = (v \<in> A, A)"
| "set_semantics Clear A = (False, {})"

primrec sets_semantics :: "set_op list \<Rightarrow> int set \<Rightarrow> bool list \<times> int set" where
  "sets_semantics [] A = ([], A)"
| "sets_semantics (x # xs) A = (let (b, A) = set_semantics x A; (bs, A) = sets_semantics xs A in (b # bs, A))"

lemma run_op_refines:
  assumes "NodeSet_ok s" "op_arg_ok x"
  shows "\<exists>s'. run_op x s = Some (fst (set_semantics x (members s)), s') \<and> NodeSet_ok s' \<and> members s' = snd (set_semantics x (members s))"
proof (cases x)
  case (Insert v)
  then show ?thesis using node_set.ins [OF assms(1), of v] assms(2) by auto
next
  case (Erase v)
  then show ?thesis using node_set.del [OF assms(1), of v] assms(2) by auto
next
  case (Contains v)
  then show ?thesis using node_set.mem [OF assms(1), of v] assms by auto
next
  case Clear
  then show ?thesis using node_set.init by auto
qed

lemma run_ops_refines:
  assumes "NodeSet_ok s" "list_all op_arg_ok xs"
  shows "\<exists>s'. run_ops xs s = Some (fst (sets_semantics xs (members s)), s') \<and> NodeSet_ok s' \<and> members s' = snd (sets_semantics xs (members s))"
  using assms
proof (induction xs arbitrary: s)
  case (Cons x xs)
  obtain s1 where "run_op x s = Some (fst (set_semantics x (members s)), s1)" "NodeSet_ok s1" "members s1 = snd (set_semantics x (members s))"
    using run_op_refines [OF Cons.prems(1)] Cons.prems(2) by auto
  then show ?case using Cons.IH [of s1] Cons.prems(2) by (auto simp: split_def Let_def)
qed simp

text \<open>
  C3: Any sequence of insertions, removals, lookups and resets on the hash set returns, whatever the
  collisions and however often the table fills up and grows, and gives the answers sets give; iterating
  afterwards visits every element once and nothing else.
\<close>

theorem node_set_refines_sets:
  assumes "list_all op_arg_ok xs"
  shows "\<exists>s. run_ops xs NodeSet_Init = Some (fst (sets_semantics xs {}), s) \<and>
    set (hash_for_each s 0) = snd (sets_semantics xs {}) \<and> distinct (hash_for_each s 0)"
  using run_ops_refines [OF node_set.init(1) assms] node_set.elems unfolding node_set.init(2) by blast

theorem node_set_refines_sets_witness:
  "\<exists>s. run_ops [Insert 3, Insert 11, Erase 3, Contains 11] NodeSet_Init = Some ([True, True, False, True], s) \<and> set (hash_for_each s 0) = {11}"
proof -
  have "list_all op_arg_ok [Insert 3, Insert 11, Erase 3, Contains 11]" by simp
  from node_set_refines_sets [OF this] show ?thesis by auto
qed

end
