(* ===== verification/Rank_Order.thy ===== *)
theory Rank_Order
  imports Abseil_Prelude "HOL-Library.Multiset"
begin

text \<open>
  The order maintenance behind the deadlock detector of \<^verbatim>\<open>synchronization/internal/graphcycles.cc\<close>, on graphs as
  relations: ranks that increase along every edge show that a graph has no cycle, and after an edge against the
  ranks is added it is enough to sort the nodes found by two bounded searches into the ranks these nodes had.
\<close>

section \<open>Ranks\<close>

definition increasing :: "('a \<times> 'a) set \<Rightarrow> ('a \<Rightarrow> int) \<Rightarrow> bool" where
  "increasing E rk \<longleftrightarrow> (\<forall>(u, v) \<in> E. rk u < rk v)"

lemma increasing_trancl:
  assumes "increasing E rk" "(u, v) \<in> E\<^sup>+"
  shows "rk u < rk v"
  using assms(2) by (induction rule: trancl_induct) (use assms(1) in \<open>auto simp: increasing_def\<close>)

lemma increasing_rtrancl: "increasing E rk \<Longrightarrow> (u, v) \<in> E\<^sup>* \<Longrightarrow> u = v \<or> rk u < rk v"
  by (metis increasing_trancl rtrancl_eq_or_trancl)

lemma increasing_acyclic: "increasing E rk \<Longrightarrow> acyclic E"
  using increasing_trancl [of E rk] by (force simp: acyclic_def)

section \<open>Positions in sorted lists\<close>

lemma nth_le_subset:
  fixes as ms :: "int list"
  assumes "sorted ms" "sorted as" "distinct as" "set as \<subseteq> set ms" "i < length as"
  shows "ms ! i \<le> as ! i"
proof (rule ccontr)
  assume less: "\<not> ms ! i \<le> as ! i"
  have "a \<in> set (take i ms)" if mem: "a \<in> set (take (Suc i) as)" for a
  proof -
    obtain l where l: "l \<le> i" "l < length as" "as ! l = a" using mem by (auto simp: in_set_conv_nth less_Suc_eq_le)
    have "a \<le> as ! i" using sorted_nth_mono [OF assms(2) l(1) assms(5)] l(3) by simp
    moreover have "a \<in> set ms" using l(2,3) assms(4) nth_mem by blast
    then obtain k where k: "k < length ms" "ms ! k = a" by (auto simp: in_set_conv_nth)
    ultimately have "k < i" using less sorted_nth_mono [OF assms(1), of i k] by (cases "k < i") auto
    then show ?thesis using k by (auto simp: in_set_conv_nth)
  qed
  then have "card (set (take (Suc i) as)) \<le> card (set (take i ms))" by (intro card_mono) auto
  also have "\<dots> \<le> i" using card_length [of "take i ms"] by simp
  finally show False using distinct_card [of "take (Suc i) as"] assms(3,5) by simp
qed

lemma nth_ge_subset:
  fixes as ms :: "int list"
  assumes "sorted ms" "sorted as" "distinct as" "set as \<subseteq> set ms" "length ms = n + length as" "i < length as"
  shows "as ! i \<le> ms ! (n + i)"
proof (rule ccontr)
  assume less: "\<not> as ! i \<le> ms ! (n + i)"
  have "a \<in> set (drop (Suc (n + i)) ms)" if mem: "a \<in> set (drop i as)" for a
  proof -
    obtain l where l: "i + l < length as" "as ! (i + l) = a"
      using mem by (fastforce simp: in_set_conv_nth less_diff_conv add.commute)
    have "as ! i \<le> a" using sorted_nth_mono [OF assms(2), of i "i + l"] l by simp
    moreover have "a \<in> set ms" using l assms(4) nth_mem by blast
    then obtain k where k: "k < length ms" "ms ! k = a" by (auto simp: in_set_conv_nth)
    ultimately have "n + i < k" using less sorted_nth_mono [OF assms(1), of k "n + i"] assms(5,6) by (cases "n + i < k") auto
    then have "drop (Suc (n + i)) ms ! (k - Suc (n + i)) = a" "k - Suc (n + i) < length (drop (Suc (n + i)) ms)"
      using k by (simp_all add: diff_less_mono)
    then show ?thesis by (metis nth_mem)
  qed
  then have "card (set (drop i as)) \<le> card (set (drop (Suc (n + i)) ms))" by (intro card_mono) auto
  also have "\<dots> \<le> length as - Suc i" using card_length [of "drop (Suc (n + i)) ms"] assms(5) by simp
  finally show False using distinct_card [of "drop i as"] assms(3,6) by simp
qed

lemma sorted_nth_less:
  fixes ms :: "int list"
  assumes "sorted ms" "distinct ms" "i < j" "j < length ms"
  shows "ms ! i < ms ! j"
proof -
  have "ms ! i \<le> ms ! j" using sorted_nth_mono [OF assms(1) less_imp_le [OF assms(3)] assms(4)] .
  moreover have "ms ! i \<noteq> ms ! j" using nth_eq_iff_index_eq [OF assms(2), of i j] assms(3,4) by simp
  ultimately show ?thesis by simp
qed

section \<open>Merging two lists of nodes into the ranks they had\<close>

text \<open>
  The nodes of bs, then those of fs, both in the order of their ranks, get the sorted list ms of all these ranks.
\<close>

definition merged_ranks :: "('a \<Rightarrow> int) \<Rightarrow> ('a \<Rightarrow> int) \<Rightarrow> 'a list \<Rightarrow> 'a list \<Rightarrow> int list \<Rightarrow> bool" where
  "merged_ranks rk rk' bs fs ms \<longleftrightarrow>
    distinct (map rk (bs @ fs)) \<and> sorted (map rk bs) \<and> sorted (map rk fs) \<and>
    sorted ms \<and> mset ms = mset (map rk (bs @ fs)) \<and> map rk' (bs @ fs) = ms \<and> (\<forall>v. v \<notin> set (bs @ fs) \<longrightarrow> rk' v = rk v)"

lemma merged_ranksD:
  assumes "merged_ranks rk rk' bs fs ms"
  shows "sorted ms" "distinct ms" "length ms = length bs + length fs" "set ms = rk ` set (bs @ fs)" "map rk' (bs @ fs) = ms"
    "\<And>i. i < length bs \<Longrightarrow> rk' (bs ! i) = ms ! i" "\<And>j. j < length fs \<Longrightarrow> rk' (fs ! j) = ms ! (length bs + j)"
    "\<And>v. v \<notin> set bs \<Longrightarrow> v \<notin> set fs \<Longrightarrow> rk' v = rk v"
    "sorted (map rk bs)" "sorted (map rk fs)" "distinct (map rk bs)" "distinct (map rk fs)"
proof -
  note m = assms [unfolded merged_ranks_def]
  have map: "map rk' (bs @ fs) = ms" using m by blast
  show "sorted ms" "sorted (map rk bs)" "sorted (map rk fs)" "map rk' (bs @ fs) = ms" using m by blast+
  show "distinct (map rk bs)" "distinct (map rk fs)" using m by simp_all
  show "distinct ms" using m mset_eq_imp_distinct_iff [of ms "map rk (bs @ fs)"] by blast
  show "length ms = length bs + length fs" using arg_cong [OF map, of length] by simp
  show "set ms = rk ` set (bs @ fs)" using m mset_eq_setD [of ms "map rk (bs @ fs)"] by (metis set_map)
  show "rk' (bs ! i) = ms ! i" if "i < length bs" for i unfolding map [symmetric] using that by (simp add: nth_append)
  show "rk' (fs ! j) = ms ! (length bs + j)" if "j < length fs" for j unfolding map [symmetric] using that by (simp add: nth_append)
  show "rk' v = rk v" if "v \<notin> set bs" "v \<notin> set fs" for v using m that by simp
qed

lemma merged_back:
  assumes m: "merged_ranks rk rk' bs fs ms" and u: "u \<in> set bs"
  shows "rk' u \<le> rk u"
proof -
  obtain i where i: "i < length bs" "bs ! i = u" using u by (auto simp: in_set_conv_nth)
  have "set (map rk bs) \<subseteq> set ms" using merged_ranksD(4) [OF m] by auto
  then have "ms ! i \<le> map rk bs ! i"
    using nth_le_subset [OF merged_ranksD(1,9,11) [OF m]] i(1) by simp
  then show ?thesis using merged_ranksD(6) [OF m i(1)] i by simp
qed

lemma merged_forward:
  assumes m: "merged_ranks rk rk' bs fs ms" and w: "w \<in> set fs"
  shows "rk w \<le> rk' w"
proof -
  obtain j where j: "j < length fs" "fs ! j = w" using w by (auto simp: in_set_conv_nth)
  have "set (map rk fs) \<subseteq> set ms" using merged_ranksD(4) [OF m] by auto
  then have "map rk fs ! j \<le> ms ! (length bs + j)"
    using nth_ge_subset [OF merged_ranksD(1,10,12) [OF m]] merged_ranksD(3) [OF m] j(1) by simp
  then show ?thesis using merged_ranksD(7) [OF m j(1)] j by simp
qed

lemma merged_across:
  assumes m: "merged_ranks rk rk' bs fs ms" and u: "u \<in> set bs" and v: "v \<in> set fs"
  shows "rk' u < rk' v"
proof -
  obtain i j where ij: "i < length bs" "bs ! i = u" "j < length fs" "fs ! j = v" using u v by (auto simp: in_set_conv_nth)
  then have "ms ! i < ms ! (length bs + j)"
    using sorted_nth_less [OF merged_ranksD(1,2) [OF m]] merged_ranksD(3) [OF m] by simp
  then show ?thesis using merged_ranksD(6,7) [OF m] ij by auto
qed

text \<open>Within one of the two lists the order stays.\<close>

lemma merged_within:
  assumes m: "merged_ranks rk rk' bs fs ms" and uv: "u \<in> set as" "v \<in> set as" "rk u < rk v" and "as": "as = bs \<or> as = fs"
  shows "rk' u < rk' v"
proof -
  obtain i j where ij: "i < length as" "as ! i = u" "j < length as" "as ! j = v" using uv(1,2) by (auto simp: in_set_conv_nth)
  have "sorted (map rk as)" using merged_ranksD(9,10) [OF m] "as" by blast
  then have "i < j" using sorted_nth_mono [of "map rk as" j i] uv(3) ij by (cases "i < j") auto
  then have "ms ! (n + i) < ms ! (n + j)" if "n + length as \<le> length ms" for n
    using sorted_nth_less [OF merged_ranksD(1,2) [OF m], of "n + i" "n + j"] that ij by simp
  from this [of 0] this [of "length bs"] show ?thesis
    using "as" ij merged_ranksD(3,6,7) [OF m] by auto
qed

lemma merged_image:
  assumes m: "merged_ranks rk rk' bs fs ms" and v: "v \<in> set (bs @ fs)"
  shows "rk' v \<in> rk ` set (bs @ fs)"
  using arg_cong [OF merged_ranksD(5) [OF m], of set] merged_ranksD(4) [OF m] v by (metis image_eqI set_map)

text \<open>The ranks in use stay the same.\<close>

lemma merged_permutes:
  assumes m: "merged_ranks rk rk' bs fs ms" and inj: "inj_on rk V" and L: "set (bs @ fs) \<subseteq> V"
  shows "inj_on rk' V" "rk' ` V = rk ` V"
proof -
  define L where "L = set (bs @ fs)"
  have L: "L \<subseteq> V" using L by (simp add: L_def)
  note map = merged_ranksD(5) [OF m]
  have img: "rk' ` L = rk ` L" unfolding L_def using arg_cong [OF map, of set] merged_ranksD(4) [OF m] by (metis set_map)
  have injL: "inj_on rk' L" using merged_ranksD(2) [OF m] map by (metis L_def distinct_map)
  have rest: "rk' v = rk v" if "v \<in> V - L" for v using merged_ranksD(8) [OF m] that by (simp add: L_def)
  have "rk ` L \<inter> rk ` (V - L) = {}" using inj L by (auto simp: inj_on_def)
  moreover have out: "rk' ` (V - L) = rk ` (V - L)" using rest by (rule image_cong [OF refl])
  moreover have "inj_on rk' (V - L)" using inj_on_cong [of "V - L" rk' rk] rest inj_on_subset [OF inj] by blast
  moreover have "L - (V - L) = L" "V - L - L = V - L" by blast+
  ultimately have "inj_on rk' (L \<union> (V - L))" using injL img unfolding inj_on_Un by simp
  then show "inj_on rk' V" using L by (simp add: Un_absorb1)
  have "rk' ` (L \<union> (V - L)) = rk ` (L \<union> (V - L))" unfolding image_Un img out ..
  then show "rk' ` V = rk ` V" using L by (simp add: Un_absorb1)
qed

section \<open>Reordering\<close>

text \<open>
  The edge from x to y goes against the ranks and closes no cycle. B are the nodes that reach x and F the nodes
  that y reaches, within the ranks of y and x.
\<close>

lemma searched_nodes:
  assumes edges: "E \<subseteq> V \<times> V" and inc: "increasing E rk" and xy: "x \<in> V" "y \<in> V" "rk y < rk x" and nc: "(y, x) \<notin> E\<^sup>*"
    and B: "B = {u. (u, x) \<in> E\<^sup>* \<and> rk y < rk u}" and F: "F = {w. (y, w) \<in> E\<^sup>* \<and> rk w < rk x}"
  shows "B \<inter> F = {}" "B \<union> F \<subseteq> V" "x \<in> B" "y \<in> F" "\<And>v. v \<in> B \<union> F \<Longrightarrow> rk y \<le> rk v \<and> rk v \<le> rk x"
proof -
  show "B \<inter> F = {}" using nc unfolding B F by (auto dest: rtrancl_trans)
  have "v \<in> V" if "(u, v) \<in> E\<^sup>*" "u \<in> V" for u v using that by (induction rule: rtrancl_induct) (use edges in auto)
  moreover have "u \<in> V" if "(u, v) \<in> E\<^sup>*" "v \<in> V" for u v using that by (induction rule: converse_rtrancl_induct) (use edges in auto)
  ultimately show "B \<union> F \<subseteq> V" unfolding B F using xy by auto
  show "x \<in> B" "y \<in> F" unfolding B F using xy by auto
  show "rk y \<le> rk v \<and> rk v \<le> rk x" if v: "v \<in> B \<union> F" for v
  proof -
    have "(v, x) \<in> E\<^sup>* \<and> rk y < rk v \<or> (y, v) \<in> E\<^sup>* \<and> rk v < rk x" using v unfolding B F by blast
    then show ?thesis using increasing_rtrancl [OF inc, of v x] increasing_rtrancl [OF inc, of y v] by auto
  qed
qed

text \<open>The new ranks increase along every edge, the new one included.\<close>

theorem reorder_increasing:
  assumes edges: "E \<subseteq> V \<times> V" and inj: "inj_on rk V" and inc: "increasing E rk"
    and xy: "x \<in> V" "y \<in> V" "rk y < rk x" and nc: "(y, x) \<notin> E\<^sup>*"
    and B: "set bs = {u. (u, x) \<in> E\<^sup>* \<and> rk y < rk u}" and F: "set fs = {w. (y, w) \<in> E\<^sup>* \<and> rk w < rk x}"
    and m: "merged_ranks rk rk' bs fs ms"
  shows "increasing (insert (x, y) E) rk'"
proof -
  note found = searched_nodes [OF edges inc xy nc B F]
  note same = merged_ranksD(8) [OF m]
  have bounds: "rk y \<le> rk' v \<and> rk' v \<le> rk x" if v: "v \<in> set bs \<or> v \<in> set fs" for v
  proof -
    have "rk' v \<in> rk ` set (bs @ fs)" using v by (intro merged_image [OF m]) auto
    then show ?thesis using found(5) by auto
  qed
  have "rk' u < rk' v" if e: "(u, v) \<in> E" for u v
  proof -
    have uv: "rk u < rk v" using inc e by (auto simp: increasing_def)
    have V: "u \<in> V" "v \<in> V" using e edges by auto
    consider "u \<in> set bs" "v \<in> set bs" | "u \<in> set bs" "v \<in> set fs" | "u \<in> set bs" "v \<notin> set bs" "v \<notin> set fs"
      | "u \<in> set fs" "v \<in> set bs" | "u \<in> set fs" "v \<in> set fs" | "u \<in> set fs" "v \<notin> set bs" "v \<notin> set fs"
      | "u \<notin> set bs" "u \<notin> set fs" "v \<in> set bs" | "u \<notin> set bs" "u \<notin> set fs" "v \<in> set fs"
      | "u \<notin> set bs" "u \<notin> set fs" "v \<notin> set bs" "v \<notin> set fs"
      by blast
    then show ?thesis
    proof cases
      case 3
      then show ?thesis using merged_back [OF m, of u] same [of v] uv by simp
    next
      case 4
      then have "(y, x) \<in> E\<^sup>*" using B F e by (auto intro: rtrancl_trans rtrancl_into_rtrancl)
      then show ?thesis using nc by simp
    next
      case 6
      then have r: "(y, v) \<in> E\<^sup>*" using F e by (auto intro: rtrancl_into_rtrancl)
      then have "v \<noteq> x" using nc by blast
      then have "rk v \<noteq> rk x" using inj_onD [OF inj _ V(2) xy(1)] by blast
      moreover have "\<not> rk v < rk x" using 6(3) r unfolding F by blast
      ultimately show ?thesis using bounds [of u] same [of v] 6 by simp
    next
      case 7
      then have r: "(u, x) \<in> E\<^sup>*" using B e by (auto intro: converse_rtrancl_into_rtrancl)
      then have "u \<noteq> y" using nc by blast
      then have "rk u \<noteq> rk y" using inj_onD [OF inj _ V(1) xy(2)] by blast
      moreover have "\<not> rk y < rk u" using 7(1) r unfolding B by blast
      ultimately show ?thesis using bounds [of v] same [of u] 7 by simp
    next
      case 8
      then show ?thesis using merged_forward [OF m, of v] same [of u] uv by simp
    next
      case 9
      then show ?thesis using same [of u] same [of v] uv by simp
    qed (use merged_within [OF m] merged_across [OF m] uv in blast)+
  qed
  then show ?thesis using merged_across [OF m found(3,4)] by (auto simp: increasing_def)
qed

section \<open>Bounded search\<close>

text \<open>
  The state of a search along S from a that only enters nodes satisfying A: the nodes found so far and the stack of
  nodes to look at.
\<close>

definition search_inv :: "('a \<times> 'a) set \<Rightarrow> 'a \<Rightarrow> ('a \<Rightarrow> bool) \<Rightarrow> 'a list \<Rightarrow> 'a list \<Rightarrow> bool" where
  "search_inv S a A found stack \<longleftrightarrow>
    distinct found \<and> a \<in> set found \<union> set stack \<and> (\<forall>s \<in> set found \<union> set stack. (a, s) \<in> S\<^sup>* \<and> A s) \<and>
    (\<forall>d \<in> set found. \<forall>w. (d, w) \<in> S \<and> A w \<longrightarrow> w \<in> set found \<union> set stack)"

lemma search_start: "A a \<Longrightarrow> search_inv S a A [] [a]"
  by (simp add: search_inv_def)

lemma search_skip: "search_inv S a A found (n # stack) \<Longrightarrow> n \<in> set found \<Longrightarrow> search_inv S a A found stack"
  by (auto simp: search_inv_def)

lemma search_visit:
  assumes inv: "search_inv S a A found (n # stack)" and n: "n \<notin> set found"
    and st: "set stack' = set stack \<union> {w. (n, w) \<in> S \<and> A w \<and> w \<notin> set (found @ [n])}"
  shows "search_inv S a A (found @ [n]) stack'"
proof -
  have "(a, n) \<in> S\<^sup>*" using inv by (simp add: search_inv_def)
  then have "(a, w) \<in> S\<^sup>*" if "(n, w) \<in> S" for w using that by (rule rtrancl_into_rtrancl)
  then show ?thesis using inv n unfolding search_inv_def st by auto
qed

lemma search_done:
  assumes inv: "search_inv S a A found []" and closed: "\<And>u w. (u, w) \<in> S \<Longrightarrow> A w \<Longrightarrow> A u"
  shows "set found = {w. (a, w) \<in> S\<^sup>* \<and> A w}"
proof -
  have "w \<in> set found" if "(a, w) \<in> S\<^sup>*" "A w" for w
    using that
  proof (induction rule: rtrancl_induct)
    case base
    then show ?case using inv by (simp add: search_inv_def)
  next
    case (step u w)
    then have "u \<in> set found" using closed [OF step(2,4)] by simp
    then have "w \<in> set found \<union> set []" using inv step(2,4) unfolding search_inv_def by blast
    then show ?case by simp
  qed
  moreover have "(a, w) \<in> S\<^sup>* \<and> A w" if "w \<in> set found" for w using inv that unfolding search_inv_def by blast
  ultimately show ?thesis by blast
qed

end
