(* ===== verification/Graph_Cycles.thy ===== *)
theory Graph_Cycles
  imports Node_Set Rank_Order
begin

text \<open>
  The deadlock detector of \<^verbatim>\<open>synchronization/internal/graphcycles.cc\<close>: a graph of lock acquisitions in which every
  insertion that would close a cycle is refused. Nodes live in a vector, are found by pointer through a chained
  hash table and are named by ids that carry a version; edges are kept in two hash sets per node; ranks that
  increase along the edges are maintained by the algorithm of Pearce and Kelly.

  A vector is a list. A read outside it, a failed check and a loop that does not return are the value None. The
  vectors of temporary state, which every operation clears before it uses them, are values passed between the
  functions; stacks are lists whose head is the back of the vector. Memory allocation succeeds.
\<close>

section \<open>Ids and nodes\<close>

definition MakeId :: "int \<Rightarrow> int \<Rightarrow> int" where
  "MakeId index version = (push_bit 32 (take_bit 32 version) OR take_bit 32 index)"

definition InvalidGraphId :: int where
  "InvalidGraphId = 0"

definition NodeIndex :: "int \<Rightarrow> int" where
  "NodeIndex gid = signed_take_bit 31 gid"

definition NodeVersion :: "int \<Rightarrow> int" where
  "NodeVersion gid = take_bit 32 (drop_bit 32 gid)"

type_synonym pointer = "64 word"

definition HideMask :: pointer where
  "HideMask = (push_bit 32 0xF03A5F7B OR 0xF03A5F7B)"

definition HidePtr :: "pointer \<Rightarrow> pointer" where
  "HidePtr ptr = ptr XOR HideMask"

definition UnhidePtr :: "pointer \<Rightarrow> pointer" where
  "UnhidePtr hidden = hidden XOR HideMask"

text \<open>The recorded stack trace is a list whose length is the field \<^verbatim>\<open>nstack\<close>.\<close>

record node =
  rank :: int
  version :: int
  next_hash :: int
  visited :: bool
  masked_ptr :: pointer
  in_set :: NodeSet
  out_set :: NodeSet
  priority :: int
  trace :: "int list"

record Rep =
  nodes :: "node list"
  free_nodes :: "int list"
  ptrmap :: "nat \<Rightarrow> int"

definition in_range :: "node list \<Rightarrow> int \<Rightarrow> bool" where
  "in_range ns i \<longleftrightarrow> 0 \<le> i \<and> i < int (length ns)"

definition get :: "node list \<Rightarrow> int \<Rightarrow> node option" where
  "get ns i = (if in_range ns i then Some (ns ! nat i) else None)"

definition upd :: "int \<Rightarrow> (node \<Rightarrow> node) \<Rightarrow> node list \<Rightarrow> node list" where
  "upd i f ns = ns[nat i := f (ns ! nat i)]"

definition GraphCycles_init :: Rep where
  "GraphCycles_init = \<lparr>nodes = [], free_nodes = [], ptrmap = (\<lambda>_. - 1)\<rparr>"

section \<open>The pointer table\<close>

definition kHashTableSize :: nat where
  "kHashTableSize = 262139"

definition ptr_hash :: "pointer \<Rightarrow> nat" where
  "ptr_hash ptr = unat ptr mod kHashTableSize"

partial_function (option) find_chain :: "node list \<Rightarrow> pointer \<Rightarrow> int \<Rightarrow> int option" where
  "find_chain ns masked i =
    (if i = - 1 then Some (- 1)
     else do {
       n \<leftarrow> get ns i;
       if masked_ptr n = masked then Some i else find_chain ns masked (next_hash n)
     })"

definition PointerMap_Find :: "Rep \<Rightarrow> pointer \<Rightarrow> int option" where
  "PointerMap_Find r ptr = find_chain (nodes r) (HidePtr ptr) (ptrmap r (ptr_hash ptr))"

definition PointerMap_Add :: "pointer \<Rightarrow> int \<Rightarrow> Rep \<Rightarrow> Rep option" where
  "PointerMap_Add ptr i r =
    do {
      _ \<leftarrow> get (nodes r) i;
      let head = ptrmap r (ptr_hash ptr);
      Some (r\<lparr>nodes := upd i (next_hash_update (\<lambda>_. head)) (nodes r), ptrmap := (ptrmap r)(ptr_hash ptr := i)\<rparr>)
    }"

text \<open>
  The scan of Remove: the slot that points to the current entry is the head of the chain (None) or the link of a
  node.
\<close>

partial_function (option) remove_scan :: "node list \<Rightarrow> pointer \<Rightarrow> int option \<Rightarrow> int \<Rightarrow> (int option \<times> int) option" where
  "remove_scan ns masked link index =
    (if index = - 1 then Some (link, - 1)
     else do {
       n \<leftarrow> get ns index;
       if masked_ptr n = masked then Some (link, index) else remove_scan ns masked (Some index) (next_hash n)
     })"

definition PointerMap_Remove :: "pointer \<Rightarrow> Rep \<Rightarrow> (int \<times> Rep) option" where
  "PointerMap_Remove ptr r =
    do {
      (link, index) \<leftarrow> remove_scan (nodes r) (HidePtr ptr) None (ptrmap r (ptr_hash ptr));
      if index = - 1 then Some (- 1, r)
      else do {
        n \<leftarrow> get (nodes r) index;
        let next = next_hash n;
        let r = (case link of
                   None \<Rightarrow> r\<lparr>ptrmap := (ptrmap r)(ptr_hash ptr := next)\<rparr>
                 | Some j \<Rightarrow> r\<lparr>nodes := upd j (next_hash_update (\<lambda>_. next)) (nodes r)\<rparr>);
        Some (index, r\<lparr>nodes := upd index (next_hash_update (\<lambda>_. - 1)) (nodes r)\<rparr>)
      }
    }"

section \<open>Nodes\<close>

text \<open>Whether the id is current; its node is the one at its index.\<close>

definition FindNode :: "Rep \<Rightarrow> int \<Rightarrow> bool option" where
  "FindNode r gid = do { n \<leftarrow> get (nodes r) (NodeIndex gid); Some (version n = NodeVersion gid) }"

definition GetId :: "pointer \<Rightarrow> Rep \<Rightarrow> (int \<times> Rep) option" where
  "GetId ptr r =
    do {
      i \<leftarrow> PointerMap_Find r ptr;
      if i \<noteq> - 1 then do { n \<leftarrow> get (nodes r) i; Some (MakeId i (version n), r) }
      else
        case free_nodes r of
          [] \<Rightarrow>
            do {
              let n = \<lparr>rank = signed_take_bit 31 (int (length (nodes r))), version = 1, next_hash = - 1, visited = False,
                       masked_ptr = HidePtr ptr, in_set = NodeSet_Init, out_set = NodeSet_Init, priority = 0, trace = []\<rparr>;
              r \<leftarrow> PointerMap_Add ptr (rank n) (r\<lparr>nodes := nodes r @ [n]\<rparr>);
              Some (MakeId (rank n) (version n), r)
            }
        | i # free \<Rightarrow>
            do {
              n \<leftarrow> get (nodes r) i;
              r \<leftarrow> PointerMap_Add ptr i (r\<lparr>free_nodes := free,
                     nodes := upd i (\<lambda>n. n\<lparr>masked_ptr := HidePtr ptr, priority := 0, trace := []\<rparr>) (nodes r)\<rparr>);
              Some (MakeId i (version n), r)
            }
    }"

definition erase_in :: "int \<Rightarrow> int \<Rightarrow> node list \<Rightarrow> node list option" where
  "erase_in i y ns = do { n \<leftarrow> get ns y; s \<leftarrow> NodeSet_erase i (in_set n); Some (upd y (in_set_update (\<lambda>_. s)) ns) }"

definition erase_out :: "int \<Rightarrow> int \<Rightarrow> node list \<Rightarrow> node list option" where
  "erase_out i y ns = do { n \<leftarrow> get ns y; s \<leftarrow> NodeSet_erase i (out_set n); Some (upd y (out_set_update (\<lambda>_. s)) ns) }"

definition RemoveNode :: "pointer \<Rightarrow> Rep \<Rightarrow> Rep option" where
  "RemoveNode ptr r =
    do {
      (i, r) \<leftarrow> PointerMap_Remove ptr r;
      if i = - 1 then Some r
      else do {
        x \<leftarrow> get (nodes r) i;
        ns \<leftarrow> fold_opt (erase_in i) (hash_for_each (out_set x) 0) (nodes r);
        x \<leftarrow> get ns i;
        ns \<leftarrow> fold_opt (erase_out i) (hash_for_each (in_set x) 0) ns;
        x \<leftarrow> get ns i;
        let x = x\<lparr>in_set := NodeSet_Init, out_set := NodeSet_Init, masked_ptr := HidePtr 0\<rparr>;
        Some (if version x = 2 ^ 32 - 1 then r\<lparr>nodes := upd i (\<lambda>_. x) ns\<rparr>
              else r\<lparr>nodes := upd i (\<lambda>_. x\<lparr>version := version x + 1\<rparr>) ns, free_nodes := i # free_nodes r\<rparr>)
      }
    }"

definition Ptr :: "Rep \<Rightarrow> int \<Rightarrow> pointer option" where
  "Ptr r gid =
    do {
      b \<leftarrow> FindNode r gid;
      n \<leftarrow> get (nodes r) (NodeIndex gid);
      Some (if b then UnhidePtr (masked_ptr n) else 0)
    }"

definition HasNode :: "Rep \<Rightarrow> int \<Rightarrow> bool option" where
  "HasNode r gid = FindNode r gid"

definition HasEdge :: "Rep \<Rightarrow> int \<Rightarrow> int \<Rightarrow> bool option" where
  "HasEdge r x y =
    do {
      bx \<leftarrow> FindNode r x;
      if \<not> bx then Some False
      else do {
        b_y \<leftarrow> FindNode r y;
        if \<not> b_y then Some False
        else do { n \<leftarrow> get (nodes r) (NodeIndex x); NodeSet_contains (out_set n) (NodeIndex y) }
      }
    }"

definition RemoveEdge :: "int \<Rightarrow> int \<Rightarrow> Rep \<Rightarrow> Rep option" where
  "RemoveEdge x y r =
    do {
      bx \<leftarrow> FindNode r x;
      b_y \<leftarrow> FindNode r y;
      if bx \<and> b_y then do {
        ns \<leftarrow> erase_out (NodeIndex y) (NodeIndex x) (nodes r);
        ns \<leftarrow> erase_in (NodeIndex x) (NodeIndex y) ns;
        Some (r\<lparr>nodes := ns\<rparr>)
      }
      else Some r
    }"

section \<open>Searches\<close>

text \<open>The loop over the successors in the forward search: False when it meets the upper bound.\<close>

primrec push_forward :: "node list \<Rightarrow> int \<Rightarrow> int list \<Rightarrow> int list \<Rightarrow> (bool \<times> int list) option" where
  "push_forward ns upper_bound [] stack = Some (True, stack)"
| "push_forward ns upper_bound (w # ws) stack =
    do {
      nw \<leftarrow> get ns w;
      if rank nw = upper_bound then Some (False, stack)
      else push_forward ns upper_bound ws (if \<not> visited nw \<and> rank nw < upper_bound then w # stack else stack)
    }"

primrec push_backward :: "node list \<Rightarrow> int \<Rightarrow> int list \<Rightarrow> int list \<Rightarrow> int list option" where
  "push_backward ns lower_bound [] stack = Some stack"
| "push_backward ns lower_bound (w # ws) stack =
    do {
      nw \<leftarrow> get ns w;
      push_backward ns lower_bound ws (if \<not> visited nw \<and> lower_bound < rank nw then w # stack else stack)
    }"

text \<open>A step either shortens the stack or marks a node.\<close>

definition unvisited :: "node list \<Rightarrow> nat set" where
  "unvisited ns = {i. i < length ns \<and> \<not> visited (ns ! i)}"

definition mark :: "int \<Rightarrow> node list \<Rightarrow> node list" where
  "mark n ns = upd n (visited_update (\<lambda>_. True)) ns"

lemma unvisited_mark:
  assumes "get ns n = Some nn" "\<not> visited nn"
  shows "unvisited (mark n ns) = unvisited ns - {nat n}" "card (unvisited (mark n ns)) < card (unvisited ns)"
proof -
  have n: "nat n < length ns" "\<not> visited (ns ! nat n)" using assms by (auto simp: get_def in_range_def split: if_splits)
  show e: "unvisited (mark n ns) = unvisited ns - {nat n}"
    using n by (auto simp: unvisited_def mark_def upd_def nth_list_update split: if_splits)
  have "nat n \<in> unvisited ns" using n by (simp add: unvisited_def)
  then show "card (unvisited (mark n ns)) < card (unvisited ns)"
    unfolding e by (intro psubset_card_mono) (auto simp: unvisited_def)
qed

function forward_loop :: "node list \<Rightarrow> int \<Rightarrow> int list \<Rightarrow> int list \<Rightarrow> (bool \<times> node list \<times> int list) option" where
  "forward_loop ns upper_bound stack deltaf =
    (case stack of
       [] \<Rightarrow> Some (True, ns, deltaf)
     | n # stack \<Rightarrow>
         (case get ns n of
            None \<Rightarrow> None
          | Some nn \<Rightarrow>
              if visited nn then forward_loop ns upper_bound stack deltaf
              else
                (case push_forward (mark n ns) upper_bound (hash_for_each (out_set nn) 0) stack of
                   None \<Rightarrow> None
                 | Some (go, stack) \<Rightarrow>
                     if go then forward_loop (mark n ns) upper_bound stack (deltaf @ [n])
                     else Some (False, mark n ns, deltaf @ [n]))))"
  by auto
termination
  by (relation "inv_image (less_than <*lex*> less_than) (\<lambda>(ns, upper_bound, stack, deltaf). (card (unvisited ns), length stack))")
    (auto dest: unvisited_mark(2))

function backward_loop :: "node list \<Rightarrow> int \<Rightarrow> int list \<Rightarrow> int list \<Rightarrow> (node list \<times> int list) option" where
  "backward_loop ns lower_bound stack deltab =
    (case stack of
       [] \<Rightarrow> Some (ns, deltab)
     | n # stack \<Rightarrow>
         (case get ns n of
            None \<Rightarrow> None
          | Some nn \<Rightarrow>
              if visited nn then backward_loop ns lower_bound stack deltab
              else
                (case push_backward (mark n ns) lower_bound (hash_for_each (in_set nn) 0) stack of
                   None \<Rightarrow> None
                 | Some stack \<Rightarrow> backward_loop (mark n ns) lower_bound stack (deltab @ [n]))))"
  by auto
termination
  by (relation "inv_image (less_than <*lex*> less_than) (\<lambda>(ns, lower_bound, stack, deltab). (card (unvisited ns), length stack))")
    (auto dest: unvisited_mark(2))

declare forward_loop.simps [simp del] backward_loop.simps [simp del]

definition ForwardDFS :: "node list \<Rightarrow> int \<Rightarrow> int \<Rightarrow> (bool \<times> node list \<times> int list) option" where
  "ForwardDFS ns n upper_bound = forward_loop ns upper_bound [n] []"

definition BackwardDFS :: "node list \<Rightarrow> int \<Rightarrow> int \<Rightarrow> (node list \<times> int list) option" where
  "BackwardDFS ns n lower_bound = backward_loop ns lower_bound [n] []"

section \<open>Reordering\<close>

text \<open>
  Sorting by the standard library with a comparison of ranks; ranks are distinct, so the result is determined.
\<close>

definition Sort :: "node list \<Rightarrow> int list \<Rightarrow> int list" where
  "Sort ns delta = sort_key (\<lambda>a. rank (ns ! nat a)) delta"

text \<open>The ranks that replace the entries, the entries moved, and the nodes with the marks cleared.\<close>

primrec MoveToList :: "int list \<Rightarrow> int list \<Rightarrow> node list \<Rightarrow> (int list \<times> int list \<times> node list) option" where
  "MoveToList [] dst ns = Some ([], dst, ns)"
| "MoveToList (w # src) dst ns =
    do {
      n \<leftarrow> get ns w;
      (ranks, dst, ns) \<leftarrow> MoveToList src (dst @ [w]) (upd w (visited_update (\<lambda>_. False)) ns);
      Some (rank n # ranks, dst, ns)
    }"

fun std_merge :: "int list \<Rightarrow> int list \<Rightarrow> int list" where
  "std_merge (a # as) (b # bs) = (if b < a then b # std_merge (a # as) bs else a # std_merge as (b # bs))"
| "std_merge [] bs = bs"
| "std_merge as [] = as"

fun assign_ranks :: "int list \<Rightarrow> int list \<Rightarrow> node list \<Rightarrow> node list option" where
  "assign_ranks (w # list) (m # merged) ns =
    do { _ \<leftarrow> get ns w; assign_ranks list merged (upd w (rank_update (\<lambda>_. m)) ns) }"
| "assign_ranks [] merged ns = Some ns"
| "assign_ranks (w # list) [] ns = None"

definition Reorder :: "int list \<Rightarrow> int list \<Rightarrow> node list \<Rightarrow> node list option" where
  "Reorder deltab deltaf ns =
    do {
      let deltab = Sort ns deltab;
      let deltaf = Sort ns deltaf;
      (deltab, list, ns) \<leftarrow> MoveToList deltab [] ns;
      (deltaf, list, ns) \<leftarrow> MoveToList deltaf list ns;
      let merged = std_merge deltab deltaf;
      assign_ranks list merged ns
    }"

section \<open>Edges\<close>

definition clear_visited :: "int \<Rightarrow> node list \<Rightarrow> node list option" where
  "clear_visited d ns = do { _ \<leftarrow> get ns d; Some (upd d (visited_update (\<lambda>_. False)) ns) }"

definition InsertEdge :: "int \<Rightarrow> int \<Rightarrow> Rep \<Rightarrow> (bool \<times> Rep) option" where
  "InsertEdge idx idy r =
    do {
      let x = NodeIndex idx;
      let y = NodeIndex idy;
      bx \<leftarrow> FindNode r idx;
      b_y \<leftarrow> FindNode r idy;
      nx \<leftarrow> get (nodes r) x;
      ny \<leftarrow> get (nodes r) y;
      if \<not> bx \<or> \<not> b_y then Some (True, r)
      else if x = y then Some (False, r)
      else do {
        (new, s) \<leftarrow> NodeSet_insert y (out_set nx);
        if \<not> new then Some (True, r)
        else do {
          (_, t) \<leftarrow> NodeSet_insert x (in_set ny);
          let ns = upd y (in_set_update (\<lambda>_. t)) (upd x (out_set_update (\<lambda>_. s)) (nodes r));
          if rank nx \<le> rank ny then Some (True, r\<lparr>nodes := ns\<rparr>)
          else do {
            (acyc, ns, deltaf) \<leftarrow> ForwardDFS ns y (rank nx);
            if \<not> acyc then do {
              ns \<leftarrow> erase_out y x ns;
              ns \<leftarrow> erase_in x y ns;
              ns \<leftarrow> fold_opt clear_visited deltaf ns;
              Some (False, r\<lparr>nodes := ns\<rparr>)
            }
            else do {
              (ns, deltab) \<leftarrow> BackwardDFS ns x (rank ny);
              ns \<leftarrow> Reorder deltab deltaf ns;
              Some (True, r\<lparr>nodes := ns\<rparr>)
            }
          }
        }
      }
    }"

section \<open>Paths\<close>

text \<open>The inner loop pushes the successors that were not seen before.\<close>

definition push_unseen :: "int list \<Rightarrow> NodeSet \<Rightarrow> int list \<Rightarrow> (NodeSet \<times> int list) option" where
  "push_unseen ws seen stack =
    fold_opt (\<lambda>w (seen, stack). do { (fresh, seen) \<leftarrow> NodeSet_insert w seen; Some (seen, if fresh then w # stack else stack) }) ws (seen, stack)"

text \<open>The result is the number of nodes on the path and the caller's array.\<close>

partial_function (option) path_loop ::
  "node list \<Rightarrow> int \<Rightarrow> int \<Rightarrow> NodeSet \<Rightarrow> int list \<Rightarrow> int list \<Rightarrow> int \<Rightarrow> (int \<times> int list) option" where
  "path_loop ns y max_path_len seen stack path path_len =
    (case stack of
       [] \<Rightarrow> Some (0, path)
     | n # stack \<Rightarrow>
         if n < 0 then path_loop ns y max_path_len seen stack path (path_len - 1)
         else do {
           nn \<leftarrow> get ns n;
           path \<leftarrow> (if path_len < max_path_len then
                      if 0 \<le> path_len \<and> path_len < int (length path) then Some (path[nat path_len := MakeId n (version nn)]) else None
                    else Some path);
           if n = y then Some (path_len + 1, path)
           else do {
             (seen, stack) \<leftarrow> push_unseen (hash_for_each (out_set nn) 0) seen (- 1 # stack);
             path_loop ns y max_path_len seen stack path (path_len + 1)
           }
         })"

definition FindPath :: "Rep \<Rightarrow> int \<Rightarrow> int \<Rightarrow> int \<Rightarrow> int list \<Rightarrow> (int \<times> int list) option" where
  "FindPath r idx idy max_path_len path =
    do {
      bx \<leftarrow> FindNode r idx;
      if \<not> bx then Some (0, path)
      else do {
        b_y \<leftarrow> FindNode r idy;
        if \<not> b_y then Some (0, path)
        else path_loop (nodes r) (NodeIndex idy) max_path_len NodeSet_Init [NodeIndex idx] path 0
      }
    }"

definition IsReachable :: "Rep \<Rightarrow> int \<Rightarrow> int \<Rightarrow> bool option" where
  "IsReachable r x y = do { (n, _) \<leftarrow> FindPath r x y 0 []; Some (n > 0) }"

section \<open>Stack traces\<close>

text \<open>The callback gives the trace it records in an array of the given size.\<close>

definition UpdateStackTrace :: "int \<Rightarrow> int \<Rightarrow> (int \<Rightarrow> int list) \<Rightarrow> Rep \<Rightarrow> Rep option" where
  "UpdateStackTrace gid prio get_stack_trace r =
    do {
      b \<leftarrow> FindNode r gid;
      n \<leftarrow> get (nodes r) (NodeIndex gid);
      if \<not> b \<or> priority n \<ge> prio then Some r
      else Some (r\<lparr>nodes := upd (NodeIndex gid) (\<lambda>n. n\<lparr>trace := get_stack_trace 40, priority := prio\<rparr>) (nodes r)\<rparr>)
    }"

definition GetStackTrace :: "Rep \<Rightarrow> int \<Rightarrow> int list option" where
  "GetStackTrace r gid =
    do {
      b \<leftarrow> FindNode r gid;
      n \<leftarrow> get (nodes r) (NodeIndex gid);
      Some (if b then trace n else [])
    }"

section \<open>The run-time check\<close>

text \<open>The order of the successors: None is the fatal error.\<close>

primrec check_edges :: "node list \<Rightarrow> int \<Rightarrow> int list \<Rightarrow> unit option" where
  "check_edges ns rx [] = Some ()"
| "check_edges ns rx (y # ys) = do { ny \<leftarrow> get ns y; if rx \<ge> rank ny then None else check_edges ns rx ys }"

definition check_node :: "Rep \<Rightarrow> nat \<Rightarrow> NodeSet \<Rightarrow> NodeSet option" where
  "check_node r x ranks =
    do {
      nx \<leftarrow> get (nodes r) (int x);
      let ptr = UnhidePtr (masked_ptr nx);
      found \<leftarrow> (if ptr \<noteq> 0 then PointerMap_Find r ptr else Some (int x));
      if found \<noteq> int x then None
      else if visited nx then None
      else do {
        (new, ranks) \<leftarrow> NodeSet_insert (rank nx) ranks;
        if \<not> new then None
        else do {
          _ \<leftarrow> check_edges (nodes r) (rank nx) (hash_for_each (out_set nx) 0);
          Some ranks
        }
      }
    }"

definition CheckInvariants :: "Rep \<Rightarrow> bool option" where
  "CheckInvariants r = do { _ \<leftarrow> fold_opt (check_node r) [0..<length (nodes r)] NodeSet_Init; Some True }"

section \<open>Views of the vector of nodes\<close>

text \<open>
  The proofs see the vector through functions of the index, with default values outside the vector, and through
  the fields that the graph algorithms do not touch.
\<close>

definition nd :: "node list \<Rightarrow> int \<Rightarrow> node" where
  "nd ns i = ns ! nat i"

definition rk :: "node list \<Rightarrow> int \<Rightarrow> int" where
  "rk ns i = (if in_range ns i then rank (nd ns i) else 0)"

definition vis :: "node list \<Rightarrow> int \<Rightarrow> bool" where
  "vis ns i \<longleftrightarrow> in_range ns i \<and> visited (nd ns i)"

definition outs :: "node list \<Rightarrow> int \<Rightarrow> int set" where
  "outs ns i = (if in_range ns i then members (out_set (nd ns i)) else {})"

definition ins :: "node list \<Rightarrow> int \<Rightarrow> int set" where
  "ins ns i = (if in_range ns i then members (in_set (nd ns i)) else {})"

definition edges :: "node list \<Rightarrow> (int \<times> int) set" where
  "edges ns = {(u, v). v \<in> outs ns u}"

definition core :: "node \<Rightarrow> int \<times> int \<times> pointer \<times> int \<times> int list" where
  "core n = (version n, next_hash n, masked_ptr n, priority n, trace n)"

definition sets_ok :: "node list \<Rightarrow> bool" where
  "sets_ok ns \<longleftrightarrow> (\<forall>n \<in> set ns. NodeSet_ok (in_set n) \<and> NodeSet_ok (out_set n))"

lemma get_nd: "get ns i = (if in_range ns i then Some (nd ns i) else None)"
  by (simp add: get_def nd_def)

lemma in_range_upd [simp]: "in_range (upd i f ns) = in_range ns"
  by (simp add: in_range_def upd_def fun_eq_iff)

lemma length_upd [simp]: "length (upd i f ns) = length ns"
  by (simp add: upd_def)

lemma nd_upd: "in_range ns i \<Longrightarrow> in_range ns j \<Longrightarrow> nd (upd i f ns) j = (if j = i then f (nd ns i) else nd ns j)"
  by (auto simp: nd_def upd_def in_range_def nth_list_update)

lemma nd_in_set: "in_range ns i \<Longrightarrow> nd ns i \<in> set ns"
  by (auto simp: in_range_def nd_def nat_less_iff)

named_theorems view_simps \<open>the views after an update of one node\<close>

lemma views_keep [view_simps]:
  assumes "in_range ns i"
  shows "rank (f (nd ns i)) = rank (nd ns i) \<Longrightarrow> rk (upd i f ns) = rk ns"
    "visited (f (nd ns i)) = visited (nd ns i) \<Longrightarrow> vis (upd i f ns) = vis ns"
    "out_set (f (nd ns i)) = out_set (nd ns i) \<Longrightarrow> outs (upd i f ns) = outs ns"
    "in_set (f (nd ns i)) = in_set (nd ns i) \<Longrightarrow> ins (upd i f ns) = ins ns"
    "core (f (nd ns i)) = core (nd ns i) \<Longrightarrow> map core (upd i f ns) = map core ns"
    "NodeSet_ok (in_set (f (nd ns i))) \<Longrightarrow> NodeSet_ok (out_set (f (nd ns i))) \<Longrightarrow> sets_ok ns \<Longrightarrow> sets_ok (upd i f ns)"
proof -
  show "rank (f (nd ns i)) = rank (nd ns i) \<Longrightarrow> rk (upd i f ns) = rk ns"
    "visited (f (nd ns i)) = visited (nd ns i) \<Longrightarrow> vis (upd i f ns) = vis ns"
    "out_set (f (nd ns i)) = out_set (nd ns i) \<Longrightarrow> outs (upd i f ns) = outs ns"
    "in_set (f (nd ns i)) = in_set (nd ns i) \<Longrightarrow> ins (upd i f ns) = ins ns"
    using assms by (auto simp: fun_eq_iff rk_def vis_def outs_def ins_def nd_upd split: if_splits)
  have i: "nat i < length ns" "nd ns i = ns ! nat i" using assms by (auto simp: in_range_def nd_def)
  show "core (f (nd ns i)) = core (nd ns i) \<Longrightarrow> map core (upd i f ns) = map core ns"
    unfolding upd_def map_update using i by (simp add: list_update_same_conv)
  show "NodeSet_ok (in_set (f (nd ns i))) \<Longrightarrow> NodeSet_ok (out_set (f (nd ns i))) \<Longrightarrow> sets_ok ns \<Longrightarrow> sets_ok (upd i f ns)"
    unfolding sets_ok_def upd_def i(2) using set_update_subset_insert [of ns "nat i" "f (ns ! nat i)"] by blast
qed

lemma views_change [view_simps]:
  assumes "in_range ns i"
  shows "rk (upd i (rank_update (\<lambda>_. m)) ns) = (rk ns)(i := m)"
    "vis (upd i (visited_update (\<lambda>_. b)) ns) = (vis ns)(i := b)"
    "outs (upd i (out_set_update (\<lambda>_. s)) ns) = (outs ns)(i := members s)"
    "ins (upd i (in_set_update (\<lambda>_. s)) ns) = (ins ns)(i := members s)"
  using assms by (auto simp: fun_eq_iff rk_def vis_def outs_def ins_def nd_upd)

lemma core_fields [simp]:
  "core (n\<lparr>rank := a\<rparr>) = core n" "core (n\<lparr>visited := b\<rparr>) = core n" "core (n\<lparr>in_set := s\<rparr>) = core n" "core (n\<lparr>out_set := s\<rparr>) = core n"
  by (simp_all add: core_def)

lemma sets_okD: "sets_ok ns \<Longrightarrow> in_range ns i \<Longrightarrow> NodeSet_ok (in_set (nd ns i)) \<and> NodeSet_ok (out_set (nd ns i))"
  using nd_in_set by (auto simp: sets_ok_def)

lemma same_range: "map core ns' = map core ns \<Longrightarrow> in_range ns' = in_range ns"
  by (drule map_eq_imp_length_eq) (simp add: in_range_def fun_eq_iff)

text \<open>Both directions of every edge are recorded, between nodes of the vector.\<close>

definition adj_ok :: "node list \<Rightarrow> bool" where
  "adj_ok ns \<longleftrightarrow> sets_ok ns \<and> (\<forall>u v. v \<in> outs ns u \<longleftrightarrow> u \<in> ins ns v)"

lemma edge_range: "adj_ok ns \<Longrightarrow> v \<in> outs ns u \<Longrightarrow> in_range ns u \<and> in_range ns v"
  unfolding adj_ok_def outs_def ins_def by (metis empty_iff)

lemma edges_range: "adj_ok ns \<Longrightarrow> edges ns \<subseteq> Collect (in_range ns) \<times> Collect (in_range ns)"
  using edge_range by (auto simp: edges_def)

lemma elements_out: "in_range ns u \<Longrightarrow> set (hash_for_each (out_set (nd ns u)) 0) = outs ns u"
  by (simp add: outs_def hash_for_each_members)

lemma elements_in: "in_range ns u \<Longrightarrow> set (hash_for_each (in_set (nd ns u)) 0) = ins ns u"
  by (simp add: ins_def hash_for_each_members)

end
