(* ===== verification/Graph_Insert.thy ===== *)
theory Graph_Insert
  imports Graph_Cycles
begin

text \<open>
  Correctness of edge insertion in the deadlock detector: what the two searches find, that the reordering keeps the
  ranks increasing, and that an edge is refused exactly when it would close a cycle.
\<close>

section \<open>Pushing neighbours\<close>

lemma push_forward_eq:
  assumes "\<forall>w \<in> set ws. in_range ns w"
  shows "(\<exists>w \<in> set ws. rk ns w = ub) \<Longrightarrow> \<exists>st'. push_forward ns ub ws st = Some (False, st')"
    "\<forall>w \<in> set ws. rk ns w \<noteq> ub \<Longrightarrow> push_forward ns ub ws st = Some (True, rev (filter (\<lambda>w. \<not> vis ns w \<and> rk ns w < ub) ws) @ st)"
  using assms by (induction ws arbitrary: st) (auto simp: get_nd rk_def vis_def)

lemma push_backward_eq:
  "\<forall>w \<in> set ws. in_range ns w \<Longrightarrow> push_backward ns lb ws st = Some (rev (filter (\<lambda>w. \<not> vis ns w \<and> lb < rk ns w) ws) @ st)"
  by (induction ws arbitrary: st) (auto simp: get_nd rk_def vis_def)

section \<open>Changes of marks only\<close>

definition same_graph :: "node list \<Rightarrow> node list \<Rightarrow> bool" where
  "same_graph ns ns' \<longleftrightarrow> map core ns' = map core ns \<and> outs ns' = outs ns \<and> ins ns' = ins ns \<and> rk ns' = rk ns \<and> (sets_ok ns \<longrightarrow> sets_ok ns')"

lemma same_graph_refl: "same_graph ns ns"
  by (simp add: same_graph_def)

lemma same_graph_trans: "same_graph ns ns' \<Longrightarrow> same_graph ns' ns'' \<Longrightarrow> same_graph ns ns''"
  by (simp add: same_graph_def)

lemma same_graph_range: "same_graph ns ns' \<Longrightarrow> in_range ns' = in_range ns"
  unfolding same_graph_def by (rule same_range) blast

lemma set_mark:
  assumes "in_range ns i"
  shows "same_graph ns (upd i (visited_update (\<lambda>_. b)) ns)"
  using assms sets_okD [OF _ assms] by (simp add: same_graph_def view_simps)

lemma mark_graph: "in_range ns n \<Longrightarrow> same_graph ns (mark n ns)" "in_range ns n \<Longrightarrow> vis (mark n ns) = (vis ns)(n := True)"
  unfolding mark_def by (rule set_mark, assumption) (simp add: view_simps)

section \<open>The searches\<close>

text \<open>
  The new edge from x to y is already in the vector; E are the other edges. The forward search starts at y and
  stays below the rank of x; the edge out of x is never followed.
\<close>

definition forward_inv :: "node list \<Rightarrow> int \<Rightarrow> int \<Rightarrow> (int \<times> int) set \<Rightarrow> node list \<Rightarrow> int list \<Rightarrow> int list \<Rightarrow> bool" where
  "forward_inv ns0 x y E ns st df \<longleftrightarrow>
    same_graph ns0 ns \<and> (\<forall>i. vis ns i \<longleftrightarrow> i \<in> set df) \<and> (\<forall>s \<in> set st. in_range ns0 s) \<and> (\<forall>d \<in> set df. (d, x) \<notin> E) \<and>
    search_inv E y (\<lambda>w. rk ns0 w < rk ns0 x) df st"

definition forward_result :: "node list \<Rightarrow> int \<Rightarrow> int \<Rightarrow> (int \<times> int) set \<Rightarrow> (bool \<times> node list \<times> int list) option \<Rightarrow> bool" where
  "forward_result ns0 x y E r \<longleftrightarrow>
    (case r of
       None \<Rightarrow> False
     | Some (b, ns, df) \<Rightarrow>
         same_graph ns0 ns \<and> (\<forall>i. vis ns i \<longleftrightarrow> i \<in> set df) \<and> (if b then forward_inv ns0 x y E ns [] df else (y, x) \<in> E\<^sup>*))"

text \<open>A node that is not marked yet: it is the source of an edge to x, or the search goes on behind it.\<close>

lemma forward_visit:
  assumes adj: "adj_ok ns0" and x: "in_range ns0 x" and inj: "inj_on (rk ns0) (Collect (in_range ns0))"
    and E: "\<forall>u w. u \<noteq> x \<longrightarrow> ((u, w) \<in> E \<longleftrightarrow> w \<in> outs ns0 u)"
    and inv: "forward_inv ns0 x y E ns (n # st) df" and new: "\<not> visited (nd ns n)"
    and push: "push_forward (mark n ns) (rk ns0 x) (hash_for_each (out_set (nd ns n)) 0) st = r"
  shows "(\<exists>st'. r = Some (True, st') \<and> forward_inv ns0 x y E (mark n ns) st' (df @ [n])) \<or>
    (\<exists>st'. r = Some (False, st') \<and> forward_result ns0 x y E (Some (False, mark n ns, df @ [n])))"
proof -
  note inv' = inv [unfolded forward_inv_def]
  have s: "in_range ns = in_range ns0" "outs ns = outs ns0" using inv' same_graph_range by (auto simp: same_graph_def)
  have n: "in_range ns0 n" "(y, n) \<in> E\<^sup>*" "n \<noteq> x" using inv' by (auto simp: search_inv_def)
  define ws where "ws = hash_for_each (out_set (nd ns n)) 0"
  define ms where "ms = mark n ns"
  have ws: "w \<in> set ws \<longleftrightarrow> (n, w) \<in> E" for w
    unfolding ws_def elements_out [OF n(1) [folded s(1)]] s(2) using E [rule_format, OF n(3)] by simp
  have g: "same_graph ns0 ms" and v: "vis ms = (vis ns)(n := True)"
    unfolding ms_def using mark_graph [of ns n] n(1) inv' same_graph_trans by (auto simp: s(1))
  have vis: "vis ms i \<longleftrightarrow> i \<in> set (df @ [n])" for i using inv' v by simp
  have rms: "in_range ms = in_range ns0" "rk ms = rk ns0" using g same_graph_range by (auto simp: same_graph_def)
  have wr: "\<forall>w \<in> set ws. in_range ms w" using edge_range [OF adj] ws E [rule_format, OF n(3)] rms(1) by auto
  have nv: "n \<notin> set df" using inv' new by (auto simp: vis_def)
  have hit: "(n, x) \<in> E" if w: "w \<in> set ws" "rk ns0 w = rk ns0 x" for w
    using inj_onD [OF inj w(2)] wr x rms(1) w(1) ws by simp
  show ?thesis
  proof (cases "(n, x) \<in> E")
    case True
    then have "\<exists>w \<in> set ws. rk ms w = rk ns0 x" using ws rms(2) by auto
    from push_forward_eq(1) [OF wr this] have "\<exists>st'. r = Some (False, st')" using push unfolding ms_def ws_def by blast
    moreover have "(y, x) \<in> E\<^sup>*" using n(2) True by (rule rtrancl_into_rtrancl)
    ultimately show ?thesis using g vis unfolding forward_result_def ms_def by auto
  next
    case False
    define st' where "st' = rev (filter (\<lambda>w. \<not> vis ms w \<and> rk ms w < rk ns0 x) ws) @ st"
    have "r = Some (True, st')" using push_forward_eq(2) [OF wr] False hit rms(2) push unfolding st'_def ms_def ws_def by auto
    moreover have "search_inv E y (\<lambda>w. rk ns0 w < rk ns0 x) (df @ [n]) st'"
      by (rule search_visit) (use inv' nv vis ws rms(2) in \<open>auto simp: st'_def\<close>)
    then have "forward_inv ns0 x y E ms st' (df @ [n])"
      using inv' g vis False wr rms(1) unfolding forward_inv_def st'_def by auto
    ultimately show ?thesis unfolding ms_def by blast
  qed
qed

lemma forward_loop_spec:
  assumes "adj_ok ns0" "in_range ns0 x" "inj_on (rk ns0) (Collect (in_range ns0))"
    and "\<forall>u w. u \<noteq> x \<longrightarrow> ((u, w) \<in> E \<longleftrightarrow> w \<in> outs ns0 u)"
  shows "forward_inv ns0 x y E ns st df \<Longrightarrow> ub = rk ns0 x \<Longrightarrow> forward_result ns0 x y E (forward_loop ns ub st df)"
proof (induction ns ub st df rule: forward_loop.induct)
  case (1 ns ub st df)
  note inv = 1(3) [unfolded forward_inv_def]
  show ?case
  proof (cases st)
    case Nil
    then show ?thesis using 1(3) inv by (simp add: forward_loop.simps [of ns] forward_result_def)
  next
    case (Cons n st')
    have range: "in_range ns n" using inv Cons same_graph_range by auto
    then have g: "get ns n = Some (nd ns n)" by (simp add: get_nd)
    show ?thesis
    proof (cases "visited (nd ns n)")
      case True
      then have "n \<in> set df" using inv range by (auto simp: vis_def)
      then have "forward_inv ns0 x y E ns st' df" using inv Cons search_skip unfolding forward_inv_def by fastforce
      then show ?thesis using 1(1) [OF Cons g True] 1(4) Cons g True by (simp add: forward_loop.simps [of ns])
    next
      case False
      from forward_visit [OF assms 1(3) [unfolded Cons] False refl, folded 1(4)] show ?thesis
      proof (elim disjE exE conjE)
        fix st'' assume p: "push_forward (mark n ns) ub (hash_for_each (out_set (nd ns n)) 0) st' = Some (True, st'')"
          and i: "forward_inv ns0 x y E (mark n ns) st'' (df @ [n])"
        have "forward_loop ns ub st df = forward_loop (mark n ns) ub st'' (df @ [n])"
          using Cons g False p by (simp add: forward_loop.simps [of ns])
        then show ?thesis using 1(2) [OF Cons g False p refl _ i 1(4)] by simp
      next
        fix st'' assume p: "push_forward (mark n ns) ub (hash_for_each (out_set (nd ns n)) 0) st' = Some (False, st'')"
          and i: "forward_result ns0 x y E (Some (False, mark n ns, df @ [n]))"
        have "forward_loop ns ub st df = Some (False, mark n ns, df @ [n])"
          using Cons g False p by (simp add: forward_loop.simps [of ns])
        then show ?thesis using i by simp
      qed
    qed
  qed
qed

text \<open>
  The backward search starts at x, stays above the rank of y and finds the marks F of the forward search, which it
  never meets.
\<close>

definition backward_inv :: "node list \<Rightarrow> int \<Rightarrow> int \<Rightarrow> (int \<times> int) set \<Rightarrow> int set \<Rightarrow> node list \<Rightarrow> int list \<Rightarrow> int list \<Rightarrow> bool" where
  "backward_inv ns0 x y E F ns st db \<longleftrightarrow>
    same_graph ns0 ns \<and> (\<forall>i. vis ns i \<longleftrightarrow> i \<in> F \<or> i \<in> set db) \<and> (\<forall>s \<in> set st. in_range ns0 s) \<and>
    search_inv (E\<inverse>) x (\<lambda>u. rk ns0 y < rk ns0 u) db st"

lemma backward_visit:
  assumes adj: "adj_ok ns0" and E: "\<forall>u w. w \<noteq> y \<longrightarrow> ((u, w) \<in> E \<longleftrightarrow> w \<in> outs ns0 u)" and F: "\<forall>u \<in> F. (u, x) \<notin> E\<^sup>*"
    and inv: "backward_inv ns0 x y E F ns (n # st) db" and new: "\<not> visited (nd ns n)"
    and push: "push_backward (mark n ns) (rk ns0 y) (hash_for_each (in_set (nd ns n)) 0) st = r"
  shows "\<exists>st'. r = Some st' \<and> backward_inv ns0 x y E F (mark n ns) st' (db @ [n])"
proof -
  note inv' = inv [unfolded backward_inv_def]
  have s: "in_range ns = in_range ns0" "ins ns = ins ns0" using inv' same_graph_range by (auto simp: same_graph_def)
  have n: "in_range ns0 n" "(n, x) \<in> E\<^sup>*" "n \<noteq> y" using inv' by (auto simp: search_inv_def rtrancl_converse)
  define ws where "ws = hash_for_each (in_set (nd ns n)) 0"
  define ms where "ms = mark n ns"
  have ws: "w \<in> set ws \<longleftrightarrow> (w, n) \<in> E" for w
    unfolding ws_def elements_in [OF n(1) [folded s(1)]] s(2) using E [rule_format, OF n(3)] adj by (simp add: adj_ok_def)
  have g: "same_graph ns0 ms" and v: "vis ms = (vis ns)(n := True)"
    unfolding ms_def using mark_graph [of ns n] n(1) inv' same_graph_trans by (auto simp: s(1))
  have vis: "vis ms i \<longleftrightarrow> i \<in> F \<or> i \<in> set (db @ [n])" for i using inv' v by simp
  have rms: "in_range ms = in_range ns0" "rk ms = rk ns0" using g same_graph_range by (auto simp: same_graph_def)
  have wr: "\<forall>w \<in> set ws. in_range ms w" using edge_range [OF adj] ws E [rule_format, OF n(3)] rms(1) by auto
  have nv: "n \<notin> set db" using inv' new n(1) by (auto simp: vis_def s(1))
  have wF: "w \<notin> F" if "w \<in> set ws" for w using F that n(2) ws by (meson converse_rtrancl_into_rtrancl)
  define st' where "st' = rev (filter (\<lambda>w. \<not> vis ms w \<and> rk ns0 y < rk ms w) ws) @ st"
  have "r = Some st'" using push_backward_eq [OF wr] push unfolding st'_def ms_def ws_def by auto
  moreover have "search_inv (E\<inverse>) x (\<lambda>u. rk ns0 y < rk ns0 u) (db @ [n]) st'"
    by (rule search_visit) (use inv' nv vis ws wF rms(2) in \<open>auto simp: st'_def\<close>)
  then have "backward_inv ns0 x y E F ms st' (db @ [n])"
    using inv' g vis wr rms(1) unfolding backward_inv_def st'_def by auto
  ultimately show ?thesis unfolding ms_def by blast
qed

lemma backward_loop_spec:
  assumes "adj_ok ns0" and "\<forall>u w. w \<noteq> y \<longrightarrow> ((u, w) \<in> E \<longleftrightarrow> w \<in> outs ns0 u)" and F: "\<forall>u \<in> F. (u, x) \<notin> E\<^sup>*"
  shows "backward_inv ns0 x y E F ns st db \<Longrightarrow> lb = rk ns0 y \<Longrightarrow>
    \<exists>ns' db'. backward_loop ns lb st db = Some (ns', db') \<and> backward_inv ns0 x y E F ns' [] db'"
proof (induction ns lb st db rule: backward_loop.induct)
  case (1 ns lb st db)
  note inv = 1(3) [unfolded backward_inv_def]
  show ?case
  proof (cases st)
    case Nil
    then show ?thesis using 1(3) by (simp add: backward_loop.simps [of ns])
  next
    case (Cons n st')
    have range: "in_range ns n" and r: "(n, x) \<in> E\<^sup>*"
      using inv Cons same_graph_range by (auto simp: search_inv_def rtrancl_converse)
    then have g: "get ns n = Some (nd ns n)" by (simp add: get_nd)
    show ?thesis
    proof (cases "visited (nd ns n)")
      case True
      then have "n \<in> set db" using inv range F r by (auto simp: vis_def)
      then have "backward_inv ns0 x y E F ns st' db" using inv Cons search_skip unfolding backward_inv_def by fastforce
      then show ?thesis using 1(1) [OF Cons g True] 1(4) Cons g True by (simp add: backward_loop.simps [of ns])
    next
      case False
      obtain st'' where p: "push_backward (mark n ns) lb (hash_for_each (in_set (nd ns n)) 0) st' = Some st''"
          and i: "backward_inv ns0 x y E F (mark n ns) st'' (db @ [n])"
        using backward_visit [OF assms 1(3) [unfolded Cons] False refl, folded 1(4)] by blast
      have "backward_loop ns lb st db = backward_loop (mark n ns) lb st'' (db @ [n])"
        using Cons g False p by (simp add: backward_loop.simps [of ns])
      then show ?thesis using 1(2) [OF Cons g False p i 1(4)] by simp
    qed
  qed
qed

text \<open>What the searches find.\<close>

lemma ForwardDFS_spec:
  assumes "adj_ok ns" "in_range ns x" "in_range ns y" "inj_on (rk ns) (Collect (in_range ns))" "rk ns y < rk ns x"
    and "\<forall>u w. u \<noteq> x \<longrightarrow> ((u, w) \<in> E \<longleftrightarrow> w \<in> outs ns u)" and "\<forall>i. \<not> vis ns i"
  shows "forward_result ns x y E (ForwardDFS ns y (rk ns x))"
proof -
  have "forward_inv ns x y E ns [y] []"
    using assms by (auto simp: forward_inv_def same_graph_refl intro: search_start)
  from forward_loop_spec [OF assms(1,2,4,6) this refl] show ?thesis by (simp add: ForwardDFS_def)
qed

lemma forward_found:
  assumes inv: "forward_inv ns0 x y E ns [] df" and inc: "increasing E (rk ns0)" and xy: "x \<noteq> y"
  shows "set df = {w. (y, w) \<in> E\<^sup>* \<and> rk ns0 w < rk ns0 x}" "(y, x) \<notin> E\<^sup>*" "distinct df"
proof -
  note inv' = inv [unfolded forward_inv_def]
  have "search_inv E y (\<lambda>w. rk ns0 w < rk ns0 x) df []" using inv' by blast
  then show df: "set df = {w. (y, w) \<in> E\<^sup>* \<and> rk ns0 w < rk ns0 x}"
    by (rule search_done) (use inc in \<open>auto simp: increasing_def\<close>)
  show "distinct df" using inv' by (simp add: search_inv_def)
  show "(y, x) \<notin> E\<^sup>*"
  proof
    assume "(y, x) \<in> E\<^sup>*"
    then obtain z where z: "(y, z) \<in> E\<^sup>*" "(z, x) \<in> E" using xy by (metis rtranclE)
    then have "z \<in> set df" using df inc by (auto simp: increasing_def)
    then show False using inv' z(2) by blast
  qed
qed

lemma BackwardDFS_spec:
  assumes adj: "adj_ok ns0" and E: "\<forall>u w. w \<noteq> y \<longrightarrow> ((u, w) \<in> E \<longleftrightarrow> w \<in> outs ns0 u)" and F: "\<forall>u \<in> F. (u, x) \<notin> E\<^sup>*"
    and x: "in_range ns0 x" "rk ns0 y < rk ns0 x" and inc: "increasing E (rk ns0)" and ns: "same_graph ns0 ns" "\<forall>i. vis ns i \<longleftrightarrow> i \<in> F"
  shows "\<exists>ns' db. BackwardDFS ns x (rk ns0 y) = Some (ns', db) \<and> same_graph ns0 ns' \<and> (\<forall>i. vis ns' i \<longleftrightarrow> i \<in> F \<or> i \<in> set db) \<and>
    set db = {u. (u, x) \<in> E\<^sup>* \<and> rk ns0 y < rk ns0 u} \<and> distinct db"
proof -
  have "backward_inv ns0 x y E F ns [x] []"
    using x ns by (auto simp: backward_inv_def intro: search_start)
  from backward_loop_spec [OF adj E F this refl] obtain ns' db where
    r: "backward_loop ns (rk ns0 y) [x] [] = Some (ns', db)" and i: "backward_inv ns0 x y E F ns' [] db" by blast
  have s: "search_inv (E\<inverse>) x (\<lambda>u. rk ns0 y < rk ns0 u) db []" using i by (simp add: backward_inv_def)
  then have "set db = {u. (x, u) \<in> (E\<inverse>)\<^sup>* \<and> rk ns0 y < rk ns0 u}"
    by (rule search_done) (use inc in \<open>auto simp: increasing_def\<close>)
  then have "set db = {u. (u, x) \<in> E\<^sup>* \<and> rk ns0 y < rk ns0 u}" by (simp add: rtrancl_converse)
  then show ?thesis using r i s by (auto simp: BackwardDFS_def backward_inv_def search_inv_def)
qed

section \<open>Reordering\<close>

lemma Sort_spec:
  assumes "\<forall>d \<in> set delta. in_range ns d"
  shows "sorted (map (rk ns) (Sort ns delta))" "mset (Sort ns delta) = mset delta"
proof -
  show m: "mset (Sort ns delta) = mset delta" by (simp add: Sort_def)
  have "map (rk ns) (Sort ns delta) = map (\<lambda>a. rank (ns ! nat a)) (Sort ns delta)"
    using assms mset_eq_setD [OF m] by (simp add: rk_def nd_def)
  moreover have "sorted (map (\<lambda>a. rank (ns ! nat a)) (Sort ns delta))" unfolding Sort_def by (rule sorted_sort_key)
  ultimately show "sorted (map (rk ns) (Sort ns delta))" by metis
qed

lemma MoveToList_spec:
  assumes "\<forall>w \<in> set src. in_range ns w"
  shows "\<exists>ns'. MoveToList src dst ns = Some (map (rk ns) src, dst @ src, ns') \<and> same_graph ns ns' \<and> vis ns' = (\<lambda>i. vis ns i \<and> i \<notin> set src)"
  using assms
proof (induction src arbitrary: dst ns)
  case Nil
  then show ?case by (simp add: same_graph_refl)
next
  case (Cons w src)
  define ns1 where "ns1 = upd w (visited_update (\<lambda>_. False)) ns"
  have g: "same_graph ns ns1" and v: "vis ns1 = (vis ns)(w := False)" using Cons.prems set_mark [of ns w False] by (simp_all add: ns1_def view_simps)
  have r: "rk ns1 = rk ns" using g by (simp add: same_graph_def)
  obtain ns' where m: "MoveToList src (dst @ [w]) ns1 = Some (map (rk ns) src, (dst @ [w]) @ src, ns')" "same_graph ns1 ns'"
      "vis ns' = (\<lambda>i. vis ns1 i \<and> i \<notin> set src)"
    using Cons.IH [of ns1 "dst @ [w]"] Cons.prems by (auto simp: ns1_def r [unfolded ns1_def])
  then have "MoveToList (w # src) dst ns = Some (map (rk ns) (w # src), dst @ w # src, ns')"
    using Cons.prems by (simp add: get_nd ns1_def [symmetric] rk_def)
  moreover have "vis ns' = (\<lambda>i. vis ns i \<and> i \<notin> set (w # src))" unfolding m(3) v by auto
  ultimately show ?case using same_graph_trans [OF g m(2)] by blast
qed

lemma std_merge_mset: "mset (std_merge as bs) = mset as + mset bs"
  by (induction as bs rule: std_merge.induct) auto

lemma std_merge_sorted: "sorted as \<Longrightarrow> sorted bs \<Longrightarrow> sorted (std_merge as bs)"
proof (induction as bs rule: std_merge.induct)
  case (1 a as b bs)
  have "set (std_merge xs ys) = set xs \<union> set ys" for xs ys using arg_cong [OF std_merge_mset [of xs ys], of set_mset] by simp
  then show ?case using 1 by auto
qed auto

text \<open>Same edges and other fields; ranks may differ.\<close>

definition same_edges :: "node list \<Rightarrow> node list \<Rightarrow> bool" where
  "same_edges ns ns' \<longleftrightarrow> map core ns' = map core ns \<and> outs ns' = outs ns \<and> ins ns' = ins ns \<and> (sets_ok ns \<longrightarrow> sets_ok ns')"

lemma same_edges_trans: "same_edges ns ns' \<Longrightarrow> same_edges ns' ns'' \<Longrightarrow> same_edges ns ns''"
  by (simp add: same_edges_def)

lemma same_graph_edges: "same_graph ns ns' \<Longrightarrow> same_edges ns ns'"
  by (simp add: same_edges_def same_graph_def)

lemma assign_ranks_spec:
  assumes "\<forall>w \<in> set list. in_range ns w" "distinct list" "length merged = length list"
  shows "\<exists>ns'. assign_ranks list merged ns = Some ns' \<and> same_edges ns ns' \<and> vis ns' = vis ns \<and>
    map (rk ns') list = merged \<and> (\<forall>i. i \<notin> set list \<longrightarrow> rk ns' i = rk ns i)"
  using assms
proof (induction list merged ns rule: assign_ranks.induct)
  case (1 w list m merged ns)
  define ns1 where "ns1 = upd w (rank_update (\<lambda>_. m)) ns"
  have w: "in_range ns w" using 1(2) by simp
  have e: "same_edges ns ns1" "vis ns1 = vis ns" "rk ns1 = (rk ns)(w := m)"
    using w sets_okD [OF _ w] by (simp_all add: ns1_def same_edges_def view_simps)
  obtain ns' where r: "assign_ranks list merged ns1 = Some ns'" "same_edges ns1 ns'" "vis ns' = vis ns1"
      "map (rk ns') list = merged" "\<forall>i. i \<notin> set list \<longrightarrow> rk ns' i = rk ns1 i"
    using 1 w by (auto simp: get_nd ns1_def)
  have "assign_ranks (w # list) (m # merged) ns = Some ns'" using r(1) w by (simp add: get_nd ns1_def)
  moreover have "map (rk ns') (w # list) = m # merged" "\<forall>i. i \<notin> set (w # list) \<longrightarrow> rk ns' i = rk ns i"
    using r(4,5) e(3) 1(3) by auto
  ultimately show ?case using same_edges_trans [OF e(1) r(2)] r(3) e(2) by auto
qed (auto simp: same_edges_def)

lemma Reorder_spec:
  assumes range: "\<forall>w \<in> set deltab \<union> set deltaf. in_range ns w" and dist: "distinct (deltab @ deltaf)"
    and inj: "inj_on (rk ns) (Collect (in_range ns))"
  shows "\<exists>ns' bs fs ms. Reorder deltab deltaf ns = Some ns' \<and> same_edges ns ns' \<and>
    vis ns' = (\<lambda>i. vis ns i \<and> i \<notin> set deltab \<and> i \<notin> set deltaf) \<and> set bs = set deltab \<and> set fs = set deltaf \<and>
    merged_ranks (rk ns) (rk ns') bs fs ms"
proof -
  define bs fs where bf: "bs = Sort ns deltab" "fs = Sort ns deltaf"
  have sorted: "sorted (map (rk ns) bs)" "sorted (map (rk ns) fs)" and m: "mset bs = mset deltab" "mset fs = mset deltaf"
    unfolding bf using Sort_spec range by (simp_all del: set_append)
  have set: "set bs = set deltab" "set fs = set deltaf" using m mset_eq_setD by blast+
  have d: "distinct (bs @ fs)" using dist m by (metis mset_append mset_eq_imp_distinct_iff)
  obtain ns1 where 1: "MoveToList bs [] ns = Some (map (rk ns) bs, bs, ns1)" "same_graph ns ns1" "vis ns1 = (\<lambda>i. vis ns i \<and> i \<notin> set bs)"
    using MoveToList_spec [of bs ns "[]"] range set by auto
  obtain ns2 where 2: "MoveToList fs bs ns1 = Some (map (rk ns1) fs, bs @ fs, ns2)" "same_graph ns1 ns2" "vis ns2 = (\<lambda>i. vis ns1 i \<and> i \<notin> set fs)"
    using MoveToList_spec [of fs ns1 bs] range set same_graph_range [OF 1(2)] by auto
  have g: "same_graph ns ns2" "rk ns1 = rk ns" "rk ns2 = rk ns" using 1(2) 2(2) by (auto simp: same_graph_def)
  define ms where "ms = std_merge (map (rk ns) bs) (map (rk ns) fs)"
  have ms: "sorted ms" "mset ms = mset (map (rk ns) (bs @ fs))"
    unfolding ms_def using std_merge_sorted [OF sorted] by (simp_all add: std_merge_mset)
  have "length ms = length (bs @ fs)" using mset_eq_length [OF ms(2)] by simp
  then obtain ns' where 3: "assign_ranks (bs @ fs) ms ns2 = Some ns'" "same_edges ns2 ns'" "vis ns' = vis ns2"
      "map (rk ns') (bs @ fs) = ms" "\<forall>i. i \<notin> set (bs @ fs) \<longrightarrow> rk ns' i = rk ns2 i"
    using assign_ranks_spec [of "bs @ fs" ns2 ms] d range set same_graph_range [OF g(1)] by auto
  have "Reorder deltab deltaf ns = Some ns'"
    unfolding Reorder_def Let_def bf [symmetric] using 1(1) 2(1) 3(1) g(2) by (simp add: ms_def)
  moreover have "inj_on (rk ns) (set (bs @ fs))" by (rule inj_on_subset [OF inj]) (use range set in auto)
  then have "distinct (map (rk ns) (bs @ fs))" unfolding distinct_map using d by blast
  then have "merged_ranks (rk ns) (rk ns') bs fs ms"
    unfolding merged_ranks_def using sorted ms 3(4,5) g(3) by auto
  moreover have "vis ns' = (\<lambda>i. vis ns i \<and> i \<notin> set deltab \<and> i \<notin> set deltaf)" unfolding 3(3) 2(3) 1(3) set by auto
  ultimately show ?thesis using same_edges_trans [OF same_graph_edges [OF g(1)] 3(2)] set by blast
qed

section \<open>The invariant of the graph\<close>

text \<open>
  No marks are left, both directions of every edge are recorded, the ranks are a permutation of the indices and
  increase along the edges.
\<close>

definition graph_ok :: "node list \<Rightarrow> bool" where
  "graph_ok ns \<longleftrightarrow>
    adj_ok ns \<and> (\<forall>i. \<not> vis ns i) \<and> inj_on (rk ns) (Collect (in_range ns)) \<and>
    rk ns ` Collect (in_range ns) = {0..<int (length ns)} \<and> increasing (edges ns) (rk ns)"

lemma graph_ok_acyclic: "graph_ok ns \<Longrightarrow> acyclic (edges ns)"
  unfolding graph_ok_def using increasing_acyclic by blast

text \<open>Adding and removing one end of an edge.\<close>

lemma erase_out_spec:
  assumes "sets_ok ns" "in_range ns x" "y \<ge> 0"
  shows "\<exists>ns'. erase_out y x ns = Some ns' \<and> outs ns' = (outs ns)(x := outs ns x - {y}) \<and> ins ns' = ins ns \<and> rk ns' = rk ns \<and>
    vis ns' = vis ns \<and> map core ns' = map core ns \<and> sets_ok ns'"
proof -
  have ok: "NodeSet_ok (in_set (nd ns x))" "NodeSet_ok (out_set (nd ns x))" using sets_okD assms by auto
  obtain s where "NodeSet_erase y (out_set (nd ns x)) = Some s" "NodeSet_ok s" "members s = members (out_set (nd ns x)) - {y}"
    using node_set.del [OF ok(2) assms(3)] by blast
  then show ?thesis using assms(1,2) ok by (simp add: erase_out_def get_nd view_simps outs_def)
qed

lemma erase_in_spec:
  assumes "sets_ok ns" "in_range ns y" "x \<ge> 0"
  shows "\<exists>ns'. erase_in x y ns = Some ns' \<and> ins ns' = (ins ns)(y := ins ns y - {x}) \<and> outs ns' = outs ns \<and> rk ns' = rk ns \<and>
    vis ns' = vis ns \<and> map core ns' = map core ns \<and> sets_ok ns'"
proof -
  have ok: "NodeSet_ok (in_set (nd ns y))" "NodeSet_ok (out_set (nd ns y))" using sets_okD assms by auto
  obtain s where "NodeSet_erase x (in_set (nd ns y)) = Some s" "NodeSet_ok s" "members s = members (in_set (nd ns y)) - {x}"
    using node_set.del [OF ok(1) assms(3)] by blast
  then show ?thesis using assms(1,2) ok by (simp add: erase_in_def get_nd view_simps ins_def)
qed

lemma erase_edge:
  assumes adj: "adj_ok ns" and x: "in_range ns x" and y: "in_range ns y"
  shows "\<exists>ns1 ns'. erase_out y x ns = Some ns1 \<and> erase_in x y ns1 = Some ns' \<and> adj_ok ns' \<and> edges ns' = edges ns - {(x, y)} \<and>
    rk ns' = rk ns \<and> vis ns' = vis ns \<and> map core ns' = map core ns"
proof -
  have ok: "sets_ok ns" and sym: "\<forall>u v. v \<in> outs ns u \<longleftrightarrow> u \<in> ins ns v" using adj by (auto simp: adj_ok_def)
  have nonneg: "x \<ge> 0" "y \<ge> 0" using x y by (auto simp: in_range_def)
  obtain ns1 where 1: "erase_out y x ns = Some ns1" "outs ns1 = (outs ns)(x := outs ns x - {y})" "ins ns1 = ins ns" "rk ns1 = rk ns"
      "vis ns1 = vis ns" "map core ns1 = map core ns" "sets_ok ns1" using erase_out_spec [OF ok x nonneg(2)] by blast
  have y1: "in_range ns1 y" using same_range [OF 1(6)] y by simp
  obtain ns' where 2: "erase_in x y ns1 = Some ns'" "ins ns' = (ins ns1)(y := ins ns1 y - {x})" "outs ns' = outs ns1" "rk ns' = rk ns1"
      "vis ns' = vis ns1" "map core ns' = map core ns1" "sets_ok ns'" using erase_in_spec [OF 1(7) y1 nonneg(1)] by blast
  have "adj_ok ns'" unfolding adj_ok_def using 1 2 sym by auto
  moreover have "edges ns' = edges ns - {(x, y)}" unfolding edges_def using 1(2) 2(3) by (auto split: if_splits)
  ultimately show ?thesis using 1 2 by auto
qed

lemma add_edge:
  assumes adj: "adj_ok ns" and x: "in_range ns x" and y: "in_range ns y" and xy: "x \<noteq> y"
    and s: "NodeSet_ok s" "members s = insert y (members (out_set (nd ns x)))"
    and t: "NodeSet_ok t" "members t = insert x (members (in_set (nd ns y)))"
    and ns': "ns' = upd y (in_set_update (\<lambda>_. t)) (upd x (out_set_update (\<lambda>_. s)) ns)"
  shows "adj_ok ns'" "edges ns' = insert (x, y) (edges ns)" "rk ns' = rk ns" "vis ns' = vis ns" "map core ns' = map core ns"
proof -
  have ok: "sets_ok ns" and sym: "\<forall>u v. v \<in> outs ns u \<longleftrightarrow> u \<in> ins ns v" using adj by (auto simp: adj_ok_def)
  define ns1 where "ns1 = upd x (out_set_update (\<lambda>_. s)) ns"
  have okx: "NodeSet_ok (in_set (nd ns x))" using sets_okD [OF ok x] by blast
  have 1: "outs ns1 = (outs ns)(x := insert y (outs ns x))" "ins ns1 = ins ns" "rk ns1 = rk ns" "vis ns1 = vis ns" "map core ns1 = map core ns" "sets_ok ns1"
    unfolding ns1_def using x okx s ok by (simp_all add: view_simps outs_def)
  have y1: "in_range ns1 y" using y by (simp add: ns1_def)
  have oky: "NodeSet_ok (out_set (nd ns1 y))" using sets_okD [OF 1(6) y1] by blast
  have "nd ns1 y = nd ns y" using xy x y by (simp add: ns1_def nd_upd)
  then have 2: "ins ns' = (ins ns1)(y := insert x (ins ns1 y))" "outs ns' = outs ns1" "rk ns' = rk ns1" "vis ns' = vis ns1" "map core ns' = map core ns1" "sets_ok ns'"
    unfolding ns' ns1_def [symmetric] using y1 oky t 1(6) by (simp_all add: view_simps ins_def)
  show "adj_ok ns'" unfolding adj_ok_def using 1 2 sym by auto
  show "edges ns' = insert (x, y) (edges ns)" unfolding edges_def using 1(1) 2(2) by (auto split: if_splits)
  show "rk ns' = rk ns" "vis ns' = vis ns" "map core ns' = map core ns" using 1 2 by simp_all
qed

lemma clear_visited_spec:
  assumes "\<forall>d \<in> set ds. in_range ns d"
  shows "\<exists>ns'. fold_opt clear_visited ds ns = Some ns' \<and> same_graph ns ns' \<and> vis ns' = (\<lambda>i. vis ns i \<and> i \<notin> set ds)"
  using assms
proof (induction ds arbitrary: ns)
  case Nil
  then show ?case by (simp add: same_graph_refl)
next
  case (Cons d ds)
  define ns1 where "ns1 = upd d (visited_update (\<lambda>_. False)) ns"
  have g: "same_graph ns ns1" and v: "vis ns1 = (vis ns)(d := False)" using Cons.prems set_mark [of ns d False] by (simp_all add: ns1_def view_simps)
  obtain ns' where m: "fold_opt clear_visited ds ns1 = Some ns'" "same_graph ns1 ns'" "vis ns' = (\<lambda>i. vis ns1 i \<and> i \<notin> set ds)"
    using Cons.IH [of ns1] Cons.prems by (auto simp: ns1_def)
  then have "fold_opt clear_visited (d # ds) ns = Some ns'"
    using Cons.prems by (simp add: clear_visited_def get_nd ns1_def [symmetric])
  moreover have "vis ns' = (\<lambda>i. vis ns i \<and> i \<notin> set (d # ds))" unfolding m(3) v by auto
  ultimately show ?case using same_graph_trans [OF g m(2)] by blast
qed

section \<open>Insertion\<close>

lemma graph_ok_same_ranks:
  assumes "graph_ok ns" "adj_ok ns'" "map core ns' = map core ns" "rk ns' = rk ns" "\<forall>i. \<not> vis ns' i" "increasing (edges ns') (rk ns)"
  shows "graph_ok ns'"
  using assms same_range [OF assms(3)] map_eq_imp_length_eq [OF assms(3)] unfolding graph_ok_def by simp

text \<open>A refused edge: the vector is as before.\<close>

lemma refused:
  assumes ok: "graph_ok ns" and xy: "in_range ns x" "in_range ns y" and new: "(x, y) \<notin> edges ns"
    and n1: "adj_ok ns1" "edges ns1 = insert (x, y) (edges ns)" "rk ns1 = rk ns" "map core ns1 = map core ns"
    and n2: "same_graph ns1 ns2" "\<forall>i. vis ns2 i \<longleftrightarrow> i \<in> set df"
  shows "\<exists>n3 n4 ns'. erase_out y x ns2 = Some n3 \<and> erase_in x y n3 = Some n4 \<and> fold_opt clear_visited df n4 = Some ns' \<and>
    graph_ok ns' \<and> edges ns' = edges ns \<and> map core ns' = map core ns"
proof -
  have s: "outs ns2 = outs ns1" "ins ns2 = ins ns1" "rk ns2 = rk ns" "map core ns2 = map core ns" using n2(1) n1(3,4) by (simp_all add: same_graph_def)
  have adj2: "adj_ok ns2" using n1(1) n2(1) s by (simp add: adj_ok_def same_graph_def)
  have e2: "edges ns2 = insert (x, y) (edges ns)" using n1(2) s(1) by (simp add: edges_def)
  obtain n3 n4 where 4: "erase_out y x ns2 = Some n3" "erase_in x y n3 = Some n4" "adj_ok n4" "edges n4 = edges ns2 - {(x, y)}"
      "rk n4 = rk ns2" "vis n4 = vis ns2" "map core n4 = map core ns2"
    using erase_edge [OF adj2, of x y] xy same_range [OF s(4)] by auto
  have df: "\<forall>d \<in> set df. in_range n4 d" using n2(2) same_range [OF 4(7)] by (auto simp: vis_def)
  obtain ns' where 5: "fold_opt clear_visited df n4 = Some ns'" "same_graph n4 ns'" "vis ns' = (\<lambda>i. vis n4 i \<and> i \<notin> set df)"
    using clear_visited_spec [OF df] by blast
  have e: "edges ns' = edges ns" using 4(4) e2 new 5(2) by (auto simp: same_graph_def edges_def)
  have core: "map core ns' = map core ns" and r: "rk ns' = rk ns" using 4 5(2) s by (simp_all add: same_graph_def)
  have "adj_ok ns'" using 4(3) 5(2) by (simp add: adj_ok_def same_graph_def)
  moreover have "increasing (edges ns') (rk ns)" using ok e by (simp add: graph_ok_def)
  ultimately have "graph_ok ns'" using graph_ok_same_ranks [OF ok _ core r] 5(3) 4(6) n2(2) by simp
  then show ?thesis using 4 5 e core by auto
qed

text \<open>An accepted edge: the nodes found by the two searches are reordered.\<close>

lemma accepted:
  assumes ok: "graph_ok ns" and xy: "in_range ns x" "in_range ns y" "x \<noteq> y" "rk ns y < rk ns x" and new: "(x, y) \<notin> edges ns"
    and n1: "adj_ok ns1" "edges ns1 = insert (x, y) (edges ns)" "rk ns1 = rk ns" "map core ns1 = map core ns"
    and inv: "forward_inv ns1 x y (edges ns) ns2 [] df"
  shows "(y, x) \<notin> (edges ns)\<^sup>* \<and> (\<exists>n3 db ns'. BackwardDFS ns2 x (rk ns y) = Some (n3, db) \<and> Reorder db df n3 = Some ns' \<and>
    graph_ok ns' \<and> edges ns' = insert (x, y) (edges ns) \<and> map core ns' = map core ns)"
proof -
  define E where "E = edges ns"
  have inc: "increasing E (rk ns1)" and inj: "inj_on (rk ns1) (Collect (in_range ns1))" and EV: "E \<subseteq> Collect (in_range ns1) \<times> Collect (in_range ns1)"
    using ok edges_range [of ns] n1(3) same_range [OF n1(4)] by (auto simp: graph_ok_def E_def)
  note range = same_range [OF n1(4)]
  note F = forward_found [OF inv [folded E_def] inc xy(3)]
  have Eo: "\<forall>u w. w \<noteq> y \<longrightarrow> ((u, w) \<in> E \<longleftrightarrow> w \<in> outs ns1 u)" using n1(2) unfolding E_def edges_def by fastforce
  have FB: "\<forall>u \<in> set df. (u, x) \<notin> E\<^sup>*" using F(1,2) by (auto dest: rtrancl_trans)
  have g2: "same_graph ns1 ns2" "\<forall>i. vis ns2 i \<longleftrightarrow> i \<in> set df" using inv by (auto simp: forward_inv_def)
  have x1: "in_range ns1 x" "rk ns1 y < rk ns1 x" using xy n1(3) range by simp_all
  obtain n3 db where b: "BackwardDFS ns2 x (rk ns1 y) = Some (n3, db)" "same_graph ns1 n3" "\<forall>i. vis n3 i \<longleftrightarrow> i \<in> set df \<or> i \<in> set db"
      "set db = {u. (u, x) \<in> E\<^sup>* \<and> rk ns1 y < rk ns1 u}" "distinct db"
    using BackwardDFS_spec [OF n1(1) Eo FB x1 inc g2] by blast
  have y1: "in_range ns1 y" using xy(2) range by simp
  note found = searched_nodes [OF EV inc, of x y, OF _ _ x1(2) F(2) b(4) F(1), simplified, OF x1(1) y1]
  have r3: "in_range n3 = in_range ns1" "rk n3 = rk ns1" using b(2) same_graph_range by (auto simp: same_graph_def)
  obtain ns' bs fs ms where o: "Reorder db df n3 = Some ns'" "same_edges n3 ns'" "vis ns' = (\<lambda>i. vis n3 i \<and> i \<notin> set db \<and> i \<notin> set df)"
      "set bs = set db" "set fs = set df" "merged_ranks (rk ns1) (rk ns') bs fs ms"
  proof -
    have "\<forall>w \<in> set db \<union> set df. in_range n3 w" "distinct (db @ df)" "inj_on (rk n3) (Collect (in_range n3))"
      using found(1,2) F(3) b(5) inj by (auto simp: r3)
    from Reorder_spec [OF this] that show ?thesis unfolding r3(2) by blast
  qed
  have core: "map core ns' = map core ns" using o(2) b(2) n1(4) by (simp add: same_edges_def same_graph_def)
  have outs: "outs ns' = outs ns1" "ins ns' = ins ns1" using o(2) b(2) by (simp_all add: same_edges_def same_graph_def)
  then have e: "edges ns' = insert (x, y) E" using n1(2) by (simp add: edges_def E_def)
  have adj: "adj_ok ns'" using n1(1) o(2) b(2) outs by (simp add: adj_ok_def same_edges_def same_graph_def)
  have "increasing (insert (x, y) E) (rk ns')"
    by (rule reorder_increasing [OF EV inj inc _ _ x1(2) F(2) _ _ o(6)]) (use x1 y1 b(4) F(1) o(4,5) in auto)
  moreover have "inj_on (rk ns') (Collect (in_range ns1))" "rk ns' ` Collect (in_range ns1) = rk ns1 ` Collect (in_range ns1)"
    using merged_permutes [OF o(6) inj] found(2) o(4,5) by auto
  moreover have "\<forall>i. \<not> vis ns' i" using o(3) b(3) by auto
  ultimately have "graph_ok ns'"
    using ok adj e n1(3) range same_range [OF core] map_eq_imp_length_eq [OF core] unfolding graph_ok_def by simp
  then show ?thesis using F(2) b(1) o(1) core e n1(3) unfolding E_def by auto
qed

lemma insert_against_ranks:
  assumes ok: "graph_ok ns" and xy: "in_range ns x" "in_range ns y" "x \<noteq> y" "rk ns y < rk ns x" and new: "(x, y) \<notin> edges ns"
    and n1: "adj_ok ns1" "edges ns1 = insert (x, y) (edges ns)" "rk ns1 = rk ns" "vis ns1 = vis ns" "map core ns1 = map core ns"
  shows "\<exists>ns2 df. ForwardDFS ns1 y (rk ns x) = Some ((y, x) \<notin> (edges ns)\<^sup>*, ns2, df) \<and>
    (if (y, x) \<in> (edges ns)\<^sup>*
     then \<exists>n3 n4 ns'. erase_out y x ns2 = Some n3 \<and> erase_in x y n3 = Some n4 \<and> fold_opt clear_visited df n4 = Some ns' \<and>
       graph_ok ns' \<and> edges ns' = edges ns \<and> map core ns' = map core ns
     else \<exists>n3 db ns'. BackwardDFS ns2 x (rk ns y) = Some (n3, db) \<and> Reorder db df n3 = Some ns' \<and>
       graph_ok ns' \<and> edges ns' = insert (x, y) (edges ns) \<and> map core ns' = map core ns)"
proof -
  note range = same_range [OF n1(5)]
  have "\<forall>u w. u \<noteq> x \<longrightarrow> ((u, w) \<in> edges ns \<longleftrightarrow> w \<in> outs ns1 u)" using n1(2) unfolding edges_def by fastforce
  then have "forward_result ns1 x y (edges ns) (ForwardDFS ns1 y (rk ns1 x))"
    using ok xy n1(1,3,4) range by (intro ForwardDFS_spec) (auto simp: graph_ok_def)
  then obtain b ns2 df where f: "ForwardDFS ns1 y (rk ns x) = Some (b, ns2, df)" "same_graph ns1 ns2" "\<forall>i. vis ns2 i \<longleftrightarrow> i \<in> set df"
      "if b then forward_inv ns1 x y (edges ns) ns2 [] df else (y, x) \<in> (edges ns)\<^sup>*"
    unfolding n1(3) by (auto simp: forward_result_def split: option.splits)
  show ?thesis
  proof (cases b)
    case True
    then have "forward_inv ns1 x y (edges ns) ns2 [] df" using f(4) by simp
    from accepted [OF ok xy new n1(1-3,5) this] show ?thesis using f(1) True by simp
  next
    case False
    then show ?thesis using f refused [OF ok xy(1,2) new n1(1-3,5) f(2,3)] by simp
  qed
qed

lemma FindNode_True: "FindNode r gid = Some b \<Longrightarrow> in_range (nodes r) (NodeIndex gid)"
  by (auto simp: FindNode_def get_nd split: if_splits)

text \<open>Insertion between two different nodes, up to the searches and from them on.\<close>

definition insert_searches :: "Rep \<Rightarrow> int \<Rightarrow> int \<Rightarrow> node list \<Rightarrow> (bool \<times> Rep) option" where
  "insert_searches r x y ns1 =
    do {
        (acyc, ns2, deltaf) \<leftarrow> ForwardDFS ns1 y (rk (nodes r) x);
        if \<not> acyc then do {
          n3 \<leftarrow> erase_out y x ns2; n4 \<leftarrow> erase_in x y n3; n5 \<leftarrow> fold_opt clear_visited deltaf n4; Some (False, r\<lparr>nodes := n5\<rparr>)
        }
        else do { (n3, deltab) \<leftarrow> BackwardDFS ns2 x (rk (nodes r) y); n4 \<leftarrow> Reorder deltab deltaf n3; Some (True, r\<lparr>nodes := n4\<rparr>) }
      }"

lemma InsertEdge_start:
  assumes ok: "graph_ok (nodes r)" and ids: "FindNode r idx = Some True" "FindNode r idy = Some True"
    and x: "x = NodeIndex idx" and y: "y = NodeIndex idy" and xy: "x \<noteq> y" and ns: "ns = nodes r"
  obtains ns1 where "adj_ok ns1" "edges ns1 = insert (x, y) (edges ns)" "rk ns1 = rk ns" "vis ns1 = vis ns" "map core ns1 = map core ns"
    "InsertEdge idx idy r =
      (if (x, y) \<in> edges ns then Some (True, r)
       else if rk ns x \<le> rk ns y then Some (True, r\<lparr>nodes := ns1\<rparr>)
       else insert_searches r x y ns1)"
proof -
  have rg: "in_range ns x" "in_range ns y" using FindNode_True ids x y ns by auto
  have adj: "adj_ok ns" using ok by (auto simp: graph_ok_def ns)
  have sets: "NodeSet_ok (out_set (nd ns x))" "NodeSet_ok (in_set (nd ns y))" and nonneg: "x \<ge> 0" "y \<ge> 0"
    using sets_okD adj rg by (auto simp: adj_ok_def in_range_def)
  obtain s where s: "NodeSet_insert y (out_set (nd ns x)) = Some (y \<notin> members (out_set (nd ns x)), s)" "NodeSet_ok s"
      "members s = insert y (members (out_set (nd ns x)))" using node_set.ins [OF sets(1) nonneg(2)] by blast
  obtain t where t: "NodeSet_insert x (in_set (nd ns y)) = Some (x \<notin> members (in_set (nd ns y)), t)" "NodeSet_ok t"
      "members t = insert x (members (in_set (nd ns y)))" using node_set.ins [OF sets(2) nonneg(1)] by blast
  have mem: "y \<in> members (out_set (nd ns x)) \<longleftrightarrow> (x, y) \<in> edges ns" using rg(1) by (simp add: edges_def outs_def)
  have g: "get ns x = Some (nd ns x)" "get ns y = Some (nd ns y)" using rg by (simp_all add: get_nd)
  have rx: "rank (nd ns x) = rk ns x" "rank (nd ns y) = rk ns y" using rg by (simp_all add: rk_def)
  show ?thesis
    by (rule that [OF add_edge [OF adj rg xy s(2,3) t(2,3) refl]])
      (use xy in \<open>simp add: InsertEdge_def Let_def x [symmetric] y [symmetric] ids ns [symmetric] g s(1) t(1) mem rx insert_searches_def cong: if_cong\<close>)
qed

text \<open>
  Insertion with two current ids: the answer is whether the graph stays acyclic, and only then the edge is added.
\<close>

lemma InsertEdge_spec:
  assumes ok: "graph_ok (nodes r)" and ids: "FindNode r idx = Some True" "FindNode r idy = Some True"
    and x: "x = NodeIndex idx" and y: "y = NodeIndex idy" and E: "E = edges (nodes r)"
  shows "\<exists>ns. InsertEdge idx idy r = Some ((y, x) \<notin> E\<^sup>*, r\<lparr>nodes := ns\<rparr>) \<and> graph_ok ns \<and>
    map core ns = map core (nodes r) \<and> edges ns = (if (y, x) \<in> E\<^sup>* then E else insert (x, y) E)"
proof (cases "x = y")
  case True
  have "in_range (nodes r) x" using FindNode_True ids x by auto
  then have "InsertEdge idx idy r = Some (False, r)" using True ids x y by (simp add: InsertEdge_def Let_def get_nd)
  then show ?thesis using ok True E by (intro exI [of _ "nodes r"]) simp
next
  case xy: False
  obtain ns1 where n1: "adj_ok ns1" "edges ns1 = insert (x, y) (edges (nodes r))" "rk ns1 = rk (nodes r)" "vis ns1 = vis (nodes r)" "map core ns1 = map core (nodes r)"
    and i: "InsertEdge idx idy r = (if (x, y) \<in> edges (nodes r) then Some (True, r)
       else if rk (nodes r) x \<le> rk (nodes r) y then Some (True, r\<lparr>nodes := ns1\<rparr>) else insert_searches r x y ns1)"
    using InsertEdge_start [OF ok ids x y xy refl] .
  have rg: "in_range (nodes r) x" "in_range (nodes r) y" using FindNode_True ids x y by auto
  have inc: "increasing E (rk (nodes r))" using ok by (auto simp: graph_ok_def E)
  have down: "rk (nodes r) y < rk (nodes r) x" if "(y, x) \<in> E\<^sup>*" using increasing_rtrancl [OF inc that] xy by auto
  consider "(x, y) \<in> E" | "(x, y) \<notin> E" "rk (nodes r) x \<le> rk (nodes r) y" | "(x, y) \<notin> E" "rk (nodes r) y < rk (nodes r) x" by linarith
  then show ?thesis
  proof cases
    case 1
    then have "(y, x) \<notin> E\<^sup>*" using down inc by (fastforce simp: increasing_def)
    then show ?thesis using ok 1 i E by (intro exI [of _ "nodes r"]) auto
  next
    case 2
    then have nc: "(y, x) \<notin> E\<^sup>*" using down by auto
    have "rk (nodes r) x \<noteq> rk (nodes r) y" using ok rg xy by (auto simp: graph_ok_def dest: inj_onD)
    then have "increasing (edges ns1) (rk (nodes r))" using inc 2(2) n1(2) by (simp add: increasing_def E)
    then have "graph_ok ns1" using graph_ok_same_ranks [OF ok n1(1,5,3)] n1(4) ok by (simp add: graph_ok_def)
    then show ?thesis using nc 2 n1(2,5) i E by (intro exI [of _ ns1]) simp
  next
    case 3
    then show ?thesis
      using insert_against_ranks [OF ok rg xy 3(2) 3(1) [unfolded E] n1] i unfolding E insert_searches_def
      by (cases "(y, x) \<in> (edges (nodes r))\<^sup>*") fastforce+
  qed
qed

end
