(* ===== verification/Graph_State.thy ===== *)
theory Graph_State
  imports Graph_Insert
begin

text \<open>
  The state of the deadlock detector as a whole: ids, the table from pointers to nodes with its chains through the
  nodes, adding and removing nodes, and the invariant that every operation keeps.
\<close>

section \<open>Ids and hidden pointers\<close>

lemma not_bit_large:
  fixes i :: int
  assumes "0 \<le> i" "i < 2 ^ n" "n \<le> m"
  shows "\<not> bit i m"
proof -
  have "i = take_bit n i" using assms by (simp add: take_bit_eq_mod)
  then show ?thesis using assms(3) by (metis bit_take_bit_iff not_le)
qed

lemma NodeIndex_MakeId:
  assumes "0 \<le> i" "i < 2 ^ 31"
  shows "NodeIndex (MakeId i v) = i"
proof (rule bit_eqI)
  fix n
  have high: "\<not> bit i m" if "31 \<le> m" for m using not_bit_large [OF assms that] .
  show "bit (NodeIndex (MakeId i v)) n \<longleftrightarrow> bit i n"
    unfolding NodeIndex_def MakeId_def bit_signed_take_bit_iff bit_or_iff bit_push_bit_iff bit_take_bit_iff
    using high [of n] high [of 31] by (cases "n \<le> 31") (auto simp: min_def)
qed

lemma NodeVersion_MakeId: "0 \<le> v \<Longrightarrow> v < 2 ^ 32 \<Longrightarrow> NodeVersion (MakeId i v) = v"
proof (rule bit_eqI)
  fix n assume v: "0 \<le> v" "v < 2 ^ 32"
  show "bit (NodeVersion (MakeId i v)) n \<longleftrightarrow> bit v n"
    unfolding NodeVersion_def MakeId_def bit_take_bit_iff bit_drop_bit_eq comp_def bit_or_iff bit_push_bit_iff
    using not_bit_large [OF v, of n] by (cases "n < 32") auto
qed

lemma UnhidePtr_HidePtr [simp]: "UnhidePtr (HidePtr p) = p" "HidePtr (UnhidePtr q) = q"
  by (simp_all add: UnhidePtr_def HidePtr_def xor.assoc)

lemma HidePtr_inject [simp]: "HidePtr p = HidePtr q \<longleftrightarrow> p = q"
  by (metis UnhidePtr_HidePtr(1))

section \<open>Views of the other fields\<close>

definition nxt :: "node list \<Rightarrow> int \<Rightarrow> int" where
  "nxt ns i = (if in_range ns i then next_hash (nd ns i) else - 1)"

definition msk :: "node list \<Rightarrow> int \<Rightarrow> pointer" where
  "msk ns i = (if in_range ns i then masked_ptr (nd ns i) else 0)"

definition ver :: "node list \<Rightarrow> int \<Rightarrow> int" where
  "ver ns i = (if in_range ns i then version (nd ns i) else 0)"

lemma core_views: "map core ns' = map core ns \<Longrightarrow> nxt ns' = nxt ns \<and> msk ns' = msk ns \<and> ver ns' = ver ns"
proof -
  assume c: "map core ns' = map core ns"
  have "core (nd ns' i) = core (nd ns i)" if "in_range ns i" for i
    using arg_cong [OF c, of "\<lambda>xs. xs ! nat i"] that map_eq_imp_length_eq [OF c] by (auto simp: nd_def in_range_def nat_less_iff)
  then show ?thesis using same_range [OF c] by (auto simp: fun_eq_iff nxt_def msk_def ver_def core_def)
qed

lemma other_views_keep [view_simps]:
  assumes "in_range ns i"
  shows "next_hash (f (nd ns i)) = next_hash (nd ns i) \<Longrightarrow> nxt (upd i f ns) = nxt ns"
    "masked_ptr (f (nd ns i)) = masked_ptr (nd ns i) \<Longrightarrow> msk (upd i f ns) = msk ns"
    "version (f (nd ns i)) = version (nd ns i) \<Longrightarrow> ver (upd i f ns) = ver ns"
  using assms by (auto simp: fun_eq_iff nxt_def msk_def ver_def nd_upd)

lemma other_views_change [view_simps]:
  assumes "in_range ns i"
  shows "nxt (upd i (next_hash_update (\<lambda>_. j)) ns) = (nxt ns)(i := j)"
    "masked_ptr (f (nd ns i)) = p \<Longrightarrow> msk (upd i f ns) = (msk ns)(i := p)"
    "version (f (nd ns i)) = v \<Longrightarrow> ver (upd i f ns) = (ver ns)(i := v)"
  using assms by (auto simp: fun_eq_iff nxt_def msk_def ver_def nd_upd)

section \<open>Chains\<close>

primrec linked :: "(int \<Rightarrow> int) \<Rightarrow> int \<Rightarrow> int list \<Rightarrow> bool" where
  "linked h i [] \<longleftrightarrow> i = - 1"
| "linked h i (j # js) \<longleftrightarrow> i = j \<and> i \<noteq> - 1 \<and> linked h (h j) js"

lemma linked_cong: "\<forall>j \<in> set js. h j = h' j \<Longrightarrow> linked h i js = linked h' i js"
  by (induction js arbitrary: i) auto

lemma linked_unlink:
  "linked h i (as @ j # bs) \<Longrightarrow> distinct (as @ j # bs) \<Longrightarrow> as \<noteq> [] \<Longrightarrow> linked (h(last as := h j, j := - 1)) i (as @ bs)"
proof (induction as arbitrary: i)
  case (Cons a as)
  show ?case
  proof (cases "as = []")
    case True
    define h' where "h' = h(a := h j, j := - 1)"
    have "linked h' (h j) bs = linked h (h j) bs" using Cons.prems by (intro linked_cong) (auto simp: h'_def)
    moreover have "h' a = h j" using Cons.prems by (simp add: h'_def)
    ultimately have "linked h' i (a # bs)" using Cons.prems True by simp
    then show ?thesis by (simp only: True h'_def last.simps append_Nil append_Cons if_True simp_thms)
  next
    case False
    then show ?thesis using Cons by auto
  qed
qed simp

lemma find_chain_eq:
  assumes "linked (nxt ns) i js" "\<forall>j \<in> set js. in_range ns j"
  shows "find_chain ns m i = Some (case find (\<lambda>j. msk ns j = m) js of None \<Rightarrow> - 1 | Some j \<Rightarrow> j)"
  using assms
proof (induction js arbitrary: i)
  case Nil
  then show ?case by (subst find_chain.simps) simp
next
  case (Cons j js)
  then show ?case by (subst find_chain.simps) (auto simp: get_nd msk_def nxt_def)
qed

lemma remove_scan_eq:
  assumes "linked (nxt ns) i js" "\<forall>j \<in> set js. in_range ns j"
  shows "(\<forall>j \<in> set js. msk ns j \<noteq> m) \<Longrightarrow> \<exists>l. remove_scan ns m lk i = Some (l, - 1)"
    "js = as @ j # bs \<Longrightarrow> msk ns j = m \<Longrightarrow> \<forall>a \<in> set as. msk ns a \<noteq> m \<Longrightarrow>
      remove_scan ns m lk i = Some (if as = [] then lk else Some (last as), j)"
proof -
  show "(\<forall>j \<in> set js. msk ns j \<noteq> m) \<Longrightarrow> \<exists>l. remove_scan ns m lk i = Some (l, - 1)"
    using assms
  proof (induction js arbitrary: i lk)
    case Nil
    then show ?case by (subst remove_scan.simps) simp
  next
    case (Cons j js)
    then show ?case by (subst remove_scan.simps) (auto simp: get_nd msk_def nxt_def)
  qed
  show "js = as @ j # bs \<Longrightarrow> msk ns j = m \<Longrightarrow> \<forall>a \<in> set as. msk ns a \<noteq> m \<Longrightarrow>
      remove_scan ns m lk i = Some (if as = [] then lk else Some (last as), j)"
    using assms
  proof (induction as arbitrary: i js lk)
    case Nil
    then show ?case by (subst remove_scan.simps) (auto simp: get_nd msk_def)
  next
    case (Cons a as)
    then show ?case by (subst remove_scan.simps) (auto simp: get_nd msk_def nxt_def)
  qed
qed

section \<open>The invariant\<close>

text \<open>
  chain b lists the nodes in bucket b of the pointer table. Nodes in no bucket have no pointer; free nodes are
  among them.
\<close>

definition live :: "(nat \<Rightarrow> int list) \<Rightarrow> int set" where
  "live chain = (\<Union>b. set (chain b))"

definition chains_ok :: "node list \<Rightarrow> (nat \<Rightarrow> int) \<Rightarrow> (nat \<Rightarrow> int list) \<Rightarrow> bool" where
  "chains_ok ns tab chain \<longleftrightarrow>
    (\<forall>b. linked (nxt ns) (tab b) (chain b) \<and> distinct (chain b)) \<and>
    (\<forall>b. \<forall>i \<in> set (chain b). in_range ns i \<and> ptr_hash (UnhidePtr (msk ns i)) = b) \<and>
    inj_on (msk ns) (live chain) \<and> (\<forall>i. in_range ns i \<and> i \<notin> live chain \<longrightarrow> msk ns i = HidePtr 0)"

definition rep_ok :: "Rep \<Rightarrow> bool" where
  "rep_ok r \<longleftrightarrow>
    graph_ok (nodes r) \<and> length (nodes r) \<le> 2 ^ 31 \<and> (\<forall>i. in_range (nodes r) i \<longrightarrow> 1 \<le> ver (nodes r) i \<and> ver (nodes r) i < 2 ^ 32) \<and>
    distinct (free_nodes r) \<and> (\<forall>i \<in> set (free_nodes r). in_range (nodes r) i) \<and>
    (\<exists>chain. chains_ok (nodes r) (ptrmap r) chain \<and> set (free_nodes r) \<inter> live chain = {})"

text \<open>The node of a pointer, if it has one.\<close>

definition node_of :: "node list \<Rightarrow> (nat \<Rightarrow> int list) \<Rightarrow> pointer \<Rightarrow> int \<Rightarrow> bool" where
  "node_of ns chain p i \<longleftrightarrow> i \<in> live chain \<and> msk ns i = HidePtr p"

lemma node_of_chain: "chains_ok ns tab chain \<Longrightarrow> node_of ns chain p i \<longleftrightarrow> i \<in> set (chain (ptr_hash p)) \<and> msk ns i = HidePtr p"
  unfolding node_of_def live_def chains_ok_def by (metis UN_iff UNIV_I UnhidePtr_HidePtr(1))

lemma node_of_unique: "chains_ok ns tab chain \<Longrightarrow> node_of ns chain p i \<Longrightarrow> node_of ns chain p j \<Longrightarrow> i = j"
  unfolding node_of_def chains_ok_def by (metis inj_onD)

lemma Find_spec:
  assumes "chains_ok (nodes r) (ptrmap r) chain"
  shows "node_of (nodes r) chain p i \<Longrightarrow> PointerMap_Find r p = Some i"
    "\<forall>i. \<not> node_of (nodes r) chain p i \<Longrightarrow> PointerMap_Find r p = Some (- 1)"
proof -
  have l: "linked (nxt (nodes r)) (ptrmap r (ptr_hash p)) (chain (ptr_hash p))" "\<forall>j \<in> set (chain (ptr_hash p)). in_range (nodes r) j"
    using assms by (auto simp: chains_ok_def)
  note f = find_chain_eq [OF l, of "HidePtr p"]
  show "PointerMap_Find r p = Some i" if i: "node_of (nodes r) chain p i"
  proof (cases "find (\<lambda>j. msk (nodes r) j = HidePtr p) (chain (ptr_hash p))")
    case None
    then show ?thesis using i node_of_chain [OF assms] by (auto simp: find_None_iff)
  next
    case (Some j)
    then have "node_of (nodes r) chain p j" using node_of_chain [OF assms] by (auto simp: find_Some_iff)
    then show ?thesis using f Some node_of_unique [OF assms i] by (simp add: PointerMap_Find_def)
  qed
  show "PointerMap_Find r p = Some (- 1)" if "\<forall>i. \<not> node_of (nodes r) chain p i"
    using f that node_of_chain [OF assms] by (cases "find (\<lambda>j. msk (nodes r) j = HidePtr p) (chain (ptr_hash p))")
      (auto simp: PointerMap_Find_def find_Some_iff)
qed

text \<open>Chains do not share nodes.\<close>

lemma chains_disjoint: "chains_ok ns tab chain \<Longrightarrow> i \<in> set (chain b) \<Longrightarrow> i \<in> set (chain c) \<Longrightarrow> b = c"
  unfolding chains_ok_def by metis

lemma chains_ok_core: "chains_ok ns tab chain \<Longrightarrow> map core ns' = map core ns \<Longrightarrow> chains_ok ns' tab chain"
  using core_views [of ns' ns] same_range [of ns' ns] by (simp add: chains_ok_def)

lemma chains_ok_add:
  assumes ok: "chains_ok ns tab chain" and i: "i \<notin> live chain" "in_range ns' i" "i \<ge> 0"
    and rest: "\<And>j. in_range ns' j \<Longrightarrow> j \<noteq> i \<Longrightarrow> in_range ns j \<and> nxt ns' j = nxt ns j \<and> msk ns' j = msk ns j"
    and old: "\<And>j. in_range ns j \<Longrightarrow> in_range ns' j"
    and new: "nxt ns' i = tab (ptr_hash p)" "msk ns' i = HidePtr p" and fresh: "\<forall>j. \<not> node_of ns chain p j"
  shows "chains_ok ns' (tab(ptr_hash p := i)) (chain(ptr_hash p := i # chain (ptr_hash p)))"
    "live (chain(ptr_hash p := i # chain (ptr_hash p))) = insert i (live chain)"
proof -
  define chain' where "chain' = chain(ptr_hash p := i # chain (ptr_hash p))"
  show l: "live chain' = insert i (live chain)" by (auto simp: live_def chain'_def split: if_splits)
  note ok' = ok [unfolded chains_ok_def]
  have ne: "j \<noteq> i" "in_range ns j" if "j \<in> set (chain b)" for j b using that i(1) ok' by (auto simp: live_def)
  have "linked (nxt ns') (tab b) (chain b)" for b
    using ok' linked_cong [of "chain b" "nxt ns'" "nxt ns"] rest ne old by metis
  then have 1: "linked (nxt ns') ((tab(ptr_hash p := i)) b) (chain' b) \<and> distinct (chain' b)" for b
    using ok' new(1) ne i(3) by (auto simp: chain'_def)
  have 2: "in_range ns' j \<and> ptr_hash (UnhidePtr (msk ns' j)) = b" if "j \<in> set (chain' b)" for j b
  proof (cases "j = i")
    case True
    then show ?thesis using that ne i(2) new(2) by (auto simp: chain'_def split: if_splits)
  next
    case False
    then have "j \<in> set (chain b)" using that by (auto simp: chain'_def split: if_splits)
    then show ?thesis using ok' rest [of j] old False by auto
  qed
  have same: "msk ns' j = msk ns j" if "j \<in> live chain" for j using that ne rest old by (auto simp: live_def)
  have "inj_on (msk ns') (live chain)" using ok' inj_on_cong [of "live chain" "msk ns'" "msk ns"] same by blast
  moreover have "msk ns' i \<notin> msk ns' ` (live chain - {i})" using fresh same new(2) unfolding node_of_def by auto
  ultimately have 3: "inj_on (msk ns') (live chain')" unfolding l by simp
  have 4: "msk ns' j = HidePtr 0" if "in_range ns' j" "j \<notin> live chain'" for j
    using that l ok' rest [of j] by auto
  show "chains_ok ns' (tab(ptr_hash p := i)) chain'" unfolding chains_ok_def using 1 2 3 4 by blast
qed

lemma chains_ok_remove:
  assumes ok: "chains_ok ns tab chain" and b: "chain b = as @ i # bs"
    and range: "in_range ns' = in_range ns" and m: "msk ns' = (msk ns)(i := HidePtr 0)"
    and unlink: "if as = [] then tab' = tab(b := nxt ns i) \<and> nxt ns' = (nxt ns)(i := - 1)
      else tab' = tab \<and> nxt ns' = (nxt ns)(last as := nxt ns i, i := - 1)"
  shows "chains_ok ns' tab' (chain(b := as @ bs))" "live (chain(b := as @ bs)) = live chain - {i}"
proof -
  define chain' where "chain' = chain(b := as @ bs)"
  note ok' = ok [unfolded chains_ok_def]
  have d: "distinct (as @ i # bs)" and lb: "linked (nxt ns) (tab b) (as @ i # bs)" using ok' b by metis+
  have iff: "j \<in> set (chain' c) \<longleftrightarrow> j \<in> set (chain c) \<and> j \<noteq> i" for j c
  proof (cases "c = b")
    case True
    then show ?thesis using b d by (auto simp: chain'_def)
  next
    case False
    moreover have "i \<in> set (chain b)" using b by simp
    ultimately show ?thesis using chains_disjoint [OF ok] by (auto simp: chain'_def)
  qed
  then show l: "live chain' = live chain - {i}" by (auto simp: live_def)
  have 1: "linked (nxt ns') (tab' c) (chain' c)" for c
  proof (cases "c = b")
    case True
    show ?thesis
    proof (cases "as = []")
      case True
      have "linked (nxt ns') (nxt ns i) bs = linked (nxt ns) (nxt ns i) bs" using unlink True d by (intro linked_cong) auto
      then show ?thesis using True lb unlink \<open>c = b\<close> by (simp add: chain'_def)
    next
      case False
      then show ?thesis using linked_unlink [OF lb d False] unlink \<open>c = b\<close> by (simp add: chain'_def)
    qed
  next
    case False
    have "j \<notin> set (as @ [i])" if "j \<in> set (chain c)" for j using chains_disjoint [OF ok that, of b] False b by auto
    then have "\<forall>j \<in> set (chain c). nxt ns' j = nxt ns j" using unlink last_in_set [of as] by (fastforce split: if_splits)
    then have "linked (nxt ns') (tab c) (chain c)" using ok' linked_cong [of "chain c" "nxt ns'" "nxt ns"] by blast
    then show ?thesis using False unlink by (auto simp: chain'_def split: if_splits)
  qed
  have 2: "distinct (chain' c)" for c using ok' d by (simp add: chain'_def)
  have 3: "in_range ns' j \<and> ptr_hash (UnhidePtr (msk ns' j)) = c" if "j \<in> set (chain' c)" for j c
    using that iff ok' range m by auto
  have "inj_on (msk ns') (live chain')" using ok' unfolding l m by (auto simp: inj_on_def)
  moreover have "msk ns' j = HidePtr 0" if "in_range ns' j" "j \<notin> live chain'" for j using that ok' l range m by auto
  ultimately show "chains_ok ns' tab' chain'" unfolding chains_ok_def using 1 2 3 by blast
qed

text \<open>
  Removal from the table: the chain of the pointer loses its node, nothing else changes.
\<close>

lemma Remove_absent:
  assumes "chains_ok (nodes r) (ptrmap r) chain" "\<forall>i. \<not> node_of (nodes r) chain p i"
  shows "PointerMap_Remove p r = Some (- 1, r)"
proof -
  have l: "linked (nxt (nodes r)) (ptrmap r (ptr_hash p)) (chain (ptr_hash p))" "\<forall>j \<in> set (chain (ptr_hash p)). in_range (nodes r) j"
    using assms(1) by (auto simp: chains_ok_def)
  then show ?thesis using remove_scan_eq(1) [OF l, of "HidePtr p" None] assms(2) node_of_chain [OF assms(1), of p]
    by (auto simp: PointerMap_Remove_def)
qed

lemma Remove_present:
  assumes ok: "chains_ok (nodes r) (ptrmap r) chain" and i: "node_of (nodes r) chain p i"
  obtains as bs r' where "chain (ptr_hash p) = as @ i # bs" "PointerMap_Remove p r = Some (i, r')"
    "in_range (nodes r') = in_range (nodes r)" "outs (nodes r') = outs (nodes r)" "ins (nodes r') = ins (nodes r)" "rk (nodes r') = rk (nodes r)"
    "vis (nodes r') = vis (nodes r)" "sets_ok (nodes r) \<longrightarrow> sets_ok (nodes r')" "msk (nodes r') = msk (nodes r)" "ver (nodes r') = ver (nodes r)"
    "length (nodes r') = length (nodes r)" "free_nodes r' = free_nodes r"
    "if as = [] then ptrmap r' = (ptrmap r)(ptr_hash p := nxt (nodes r) i) \<and> nxt (nodes r') = (nxt (nodes r))(i := - 1)
      else ptrmap r' = ptrmap r \<and> nxt (nodes r') = (nxt (nodes r))(last as := nxt (nodes r) i, i := - 1)"
proof -
  define ns where "ns = nodes r"
  have l: "linked (nxt ns) (ptrmap r (ptr_hash p)) (chain (ptr_hash p))" "\<forall>j \<in> set (chain (ptr_hash p)). in_range ns j"
    using ok by (auto simp: chains_ok_def ns_def)
  have im: "i \<in> set (chain (ptr_hash p))" "msk ns i = HidePtr p" using i node_of_chain [OF ok] by (auto simp: ns_def)
  then obtain as bs where c: "chain (ptr_hash p) = as @ i # bs" by (auto simp: in_set_conv_decomp)
  have d: "distinct (as @ i # bs)" using ok c unfolding chains_ok_def by metis
  have "\<forall>a \<in> set as. msk ns a \<noteq> HidePtr p"
  proof (intro ballI notI)
    fix a assume a: "a \<in> set as" "msk ns a = HidePtr p"
    then have "node_of (nodes r) chain p a" using node_of_chain [OF ok] c by (simp add: ns_def)
    then show False using node_of_unique [OF ok i] a(1) d by auto
  qed
  then have scan: "remove_scan ns (HidePtr p) None (ptrmap r (ptr_hash p)) = Some (if as = [] then None else Some (last as), i)"
    using remove_scan_eq(2) [OF l c im(2)] by simp
  have ri: "in_range ns i" "i \<noteq> - 1" and ra: "as \<noteq> [] \<Longrightarrow> in_range ns (last as)" using l(2) c by (auto simp: in_range_def)
  define ns1 where "ns1 = (if as = [] then ns else upd (last as) (next_hash_update (\<lambda>_. nxt ns i)) ns)"
  define ns2 where "ns2 = upd i (next_hash_update (\<lambda>_. - 1)) ns1"
  define r' where "r' = r\<lparr>nodes := ns2, ptrmap := (if as = [] then (ptrmap r)(ptr_hash p := nxt ns i) else ptrmap r)\<rparr>"
  have nx: "next_hash (nd ns i) = nxt ns i" using ri by (simp add: nxt_def)
  have rem: "PointerMap_Remove p r = Some (i, r')"
    using scan ri(2) by (simp add: PointerMap_Remove_def ns_def [symmetric] get_nd ri(1) nx r'_def ns2_def ns1_def)
  have r1: "in_range ns1 = in_range ns" "length ns1 = length ns" by (simp_all add: ns1_def)
  have 1: "outs ns1 = outs ns \<and> ins ns1 = ins ns \<and> rk ns1 = rk ns \<and> vis ns1 = vis ns \<and> msk ns1 = msk ns \<and> ver ns1 = ver ns \<and> (sets_ok ns \<longrightarrow> sets_ok ns1)"
    using ra sets_okD by (auto simp: ns1_def view_simps)
  have 2: "outs ns2 = outs ns1 \<and> ins ns2 = ins ns1 \<and> rk ns2 = rk ns1 \<and> vis ns2 = vis ns1 \<and> msk ns2 = msk ns1 \<and> ver ns2 = ver ns1 \<and> (sets_ok ns1 \<longrightarrow> sets_ok ns2)"
    using ri(1) sets_okD [of ns1 i] by (auto simp: ns2_def view_simps r1)
  have 3: "nxt ns2 = (if as = [] then (nxt ns)(i := - 1) else (nxt ns)(last as := nxt ns i, i := - 1))"
    using ri(1) ra by (simp add: ns2_def ns1_def view_simps)
  show ?thesis
    by (rule that [OF c rem]) (use 1 2 3 in \<open>simp_all add: r'_def ns_def [symmetric] r1 ns2_def\<close>)
qed

section \<open>Adding nodes\<close>

lemma graph_ok_views:
  assumes "graph_ok ns" "outs ns' = outs ns" "ins ns' = ins ns" "rk ns' = rk ns" "vis ns' = vis ns" "length ns' = length ns" "sets_ok ns'"
  shows "graph_ok ns'"
proof -
  have "in_range ns' = in_range ns" using assms(6) by (simp add: in_range_def fun_eq_iff)
  moreover have "edges ns' = edges ns" using assms(2) by (simp add: edges_def)
  ultimately show ?thesis using assms unfolding graph_ok_def adj_ok_def by simp
qed

lemma append_views:
  assumes "rank n = int (length ns)" "\<not> visited n" "members (in_set n) = {}" "members (out_set n) = {}" "ns' = ns @ [n]" "k = int (length ns)"
  shows "in_range ns' i \<longleftrightarrow> in_range ns i \<or> i = k" "\<not> in_range ns k"
    "outs ns' = outs ns" "ins ns' = ins ns" "vis ns' = vis ns" "rk ns' = (rk ns)(k := k)"
    "nxt ns' = (nxt ns)(k := next_hash n)" "msk ns' = (msk ns)(k := masked_ptr n)" "ver ns' = (ver ns)(k := version n)"
proof -
  have r: "in_range ns' j \<longleftrightarrow> in_range ns j \<or> j = k" for j using assms(5,6) by (auto simp: in_range_def)
  then show "in_range ns' i \<longleftrightarrow> in_range ns i \<or> i = k" .
  show k: "\<not> in_range ns k" using assms(6) by (simp add: in_range_def)
  have old: "nd ns' j = nd ns j" if "in_range ns j" for j using that assms(5) by (auto simp: nd_def in_range_def nth_append nat_less_iff)
  have new: "nd ns' k = n" using assms(5,6) by (simp add: nd_def)
  show "outs ns' = outs ns" "ins ns' = ins ns" "vis ns' = vis ns" "rk ns' = (rk ns)(k := k)"
    "nxt ns' = (nxt ns)(k := next_hash n)" "msk ns' = (msk ns)(k := masked_ptr n)" "ver ns' = (ver ns)(k := version n)"
    using assms(1-4,6) k old new
    by (auto simp: fun_eq_iff outs_def ins_def vis_def rk_def nxt_def msk_def ver_def r)
qed

lemma graph_ok_append:
  assumes ok: "graph_ok ns" and n: "rank n = int (length ns)" "\<not> visited n" "in_set n = NodeSet_Init" "out_set n = NodeSet_Init"
  shows "graph_ok (ns @ [n])" "edges (ns @ [n]) = edges ns"
proof -
  define k where "k = int (length ns)"
  note e = node_set.init
  note v = append_views [OF n(1,2) _ _ refl k_def, unfolded n(3,4), OF e(2) e(2)]
  show edges: "edges (ns @ [n]) = edges ns" using v(3) by (simp add: edges_def)
  have V: "Collect (in_range (ns @ [n])) = insert k (Collect (in_range ns))" using v(1) by auto
  have img: "rk ns ` Collect (in_range ns) = {0..<k}" and inj: "inj_on (rk ns) (Collect (in_range ns))" using ok by (auto simp: graph_ok_def k_def)
  have same: "(rk ns)(k := k) ` Collect (in_range ns) = rk ns ` Collect (in_range ns)" using v(2) by (auto simp: image_def)
  have "inj_on ((rk ns)(k := k)) (Collect (in_range ns))" using inj v(2) by (auto simp: inj_on_def)
  then have "inj_on ((rk ns)(k := k)) (insert k (Collect (in_range ns)))" using v(2) same img by (auto simp: inj_on_insert)
  moreover have "(rk ns)(k := k) ` insert k (Collect (in_range ns)) = {0..<int (length (ns @ [n]))}"
    unfolding image_insert same img by (auto simp: k_def)
  moreover have "adj_ok (ns @ [n])" using ok v(3,4) n(3,4) e(1) by (auto simp: graph_ok_def adj_ok_def sets_ok_def)
  moreover have "increasing (edges ns) ((rk ns)(k := k))"
    using ok edges_range [of ns] v(2) by (auto simp: graph_ok_def increasing_def)
  ultimately show "graph_ok (ns @ [n])" using ok unfolding graph_ok_def V v(5,6) edges by simp
qed

text \<open>What an id that the state issued says.\<close>

lemma FindNode_iff: "FindNode r g = (if in_range (nodes r) (NodeIndex g) then Some (ver (nodes r) (NodeIndex g) = NodeVersion g) else None)"
  by (simp add: FindNode_def get_nd ver_def)

lemma Ptr_iff:
  "Ptr r g = (if in_range (nodes r) (NodeIndex g)
     then Some (if ver (nodes r) (NodeIndex g) = NodeVersion g then UnhidePtr (msk (nodes r) (NodeIndex g)) else 0) else None)"
  by (simp add: Ptr_def FindNode_iff get_nd msk_def)

lemma MakeId_current:
  assumes "rep_ok r" "in_range (nodes r) i"
  shows "NodeIndex (MakeId i (ver (nodes r) i)) = i" "NodeVersion (MakeId i (ver (nodes r) i)) = ver (nodes r) i"
  using assms by (auto simp: rep_ok_def in_range_def intro!: NodeIndex_MakeId NodeVersion_MakeId)

lemma Add_spec:
  assumes "in_range (nodes r) i"
  shows "PointerMap_Add p i r =
    Some (r\<lparr>nodes := upd i (next_hash_update (\<lambda>_. ptrmap r (ptr_hash p))) (nodes r), ptrmap := (ptrmap r)(ptr_hash p := i)\<rparr>)"
  using assms by (simp add: PointerMap_Add_def get_nd Let_def)

text \<open>
  The three ways GetId takes: the pointer is known, a new node is appended, a free node is used again. In the
  last two the pointer is entered for a node that had none.
\<close>

definition enters :: "pointer \<Rightarrow> int \<Rightarrow> Rep \<Rightarrow> Rep \<Rightarrow> bool" where
  "enters p i r r' \<longleftrightarrow>
    rep_ok r' \<and> edges (nodes r') = edges (nodes r) \<and> in_range (nodes r') i \<and> msk (nodes r') i = HidePtr p \<and>
    (\<forall>j. in_range (nodes r) j \<longrightarrow> in_range (nodes r') j \<and> ver (nodes r') j = ver (nodes r) j) \<and>
    (\<forall>j. in_range (nodes r) j \<longrightarrow> msk (nodes r') j = msk (nodes r) j \<or> j = i \<and> msk (nodes r) j = HidePtr 0) \<and> PointerMap_Find r' p = Some i"

lemma GetId_known:
  assumes ok: "rep_ok r" and c: "chains_ok (nodes r) (ptrmap r) chain" and i: "node_of (nodes r) chain p i"
  shows "GetId p r = Some (MakeId i (ver (nodes r) i), r) \<and> enters p i r r"
proof -
  have "in_range (nodes r) i" "msk (nodes r) i = HidePtr p"
    using i c unfolding node_of_chain [OF c] by (auto simp: chains_ok_def)
  moreover from this have "i \<noteq> - 1" by (auto simp: in_range_def)
  ultimately show ?thesis using Find_spec(1) [OF c i] ok by (simp add: GetId_def get_nd ver_def enters_def)
qed

lemma enter_spec:
  assumes ok: "rep_ok r" and c: "chains_ok (nodes r) (ptrmap r) chain" and fl: "set (free_nodes r) \<inter> live chain = {}"
    and p: "\<forall>i. \<not> node_of (nodes r) chain p i" and k: "k \<notin> live chain"
    and n1: "graph_ok ns1" "edges ns1 = edges (nodes r)" "\<And>j. in_range ns1 j \<longleftrightarrow> in_range (nodes r) j \<or> j = k" "length ns1 \<le> 2 ^ 31"
    and v1: "\<And>j. j \<noteq> k \<Longrightarrow> msk ns1 j = msk (nodes r) j \<and> nxt ns1 j = nxt (nodes r) j" "msk ns1 k = HidePtr p"
      "\<And>j. in_range (nodes r) j \<Longrightarrow> ver ns1 j = ver (nodes r) j" "1 \<le> ver ns1 k" "ver ns1 k < 2 ^ 32"
    and f1: "distinct fr" "set fr \<subseteq> set (free_nodes r) - {k}"
  shows "\<exists>r'. PointerMap_Add p k (r\<lparr>nodes := ns1, free_nodes := fr\<rparr>) = Some r' \<and> enters p k r r' \<and> ver (nodes r') = ver ns1"
proof -
  define ns2 where "ns2 = upd k (next_hash_update (\<lambda>_. ptrmap r (ptr_hash p))) ns1"
  define chain' where "chain' = chain(ptr_hash p := k # chain (ptr_hash p))"
  define r' where "r' = r\<lparr>nodes := ns2, free_nodes := fr, ptrmap := (ptrmap r)(ptr_hash p := k)\<rparr>"
  have k1: "in_range ns1 k" "k \<ge> 0" using n1(3) by (auto simp: in_range_def)
  have so: "sets_ok ns1" using n1(1) by (simp add: graph_ok_def adj_ok_def)
  have s: "outs ns2 = outs ns1" "ins ns2 = ins ns1" "rk ns2 = rk ns1" "vis ns2 = vis ns1" "msk ns2 = msk ns1" "ver ns2 = ver ns1"
      "nxt ns2 = (nxt ns1)(k := ptrmap r (ptr_hash p))" "sets_ok ns2" "in_range ns2 = in_range ns1" "length ns2 = length ns1"
    using k1(1) sets_okD [OF so k1(1)] so by (simp_all add: ns2_def view_simps)
  have c': "chains_ok ns2 ((ptrmap r)(ptr_hash p := k)) chain'" "live chain' = insert k (live chain)"
    unfolding chain'_def by (rule chains_ok_add [OF c k, of ns2]; use k1 n1(3) v1 s p in auto)+
  have "node_of ns2 chain' p k" using c'(2) v1(2) s(5) by (simp add: node_of_def)
  then have find: "PointerMap_Find r' p = Some k" using Find_spec(1) [of r' chain' p k] c'(1) by (simp add: r'_def)
  have e: "edges ns2 = edges (nodes r)" using n1(2) s(1) by (simp add: edges_def)
  have "graph_ok ns2" by (rule graph_ok_views [OF n1(1)]) (use s in simp_all)
  moreover have "1 \<le> ver ns2 j \<and> ver ns2 j < 2 ^ 32" if "in_range ns2 j" for j
    using that ok v1(3-5) n1(3) s(6,9) by (auto simp: rep_ok_def)
  moreover have "\<forall>j \<in> set fr. in_range ns2 j" using f1(2) ok n1(3) s(9) by (auto simp: rep_ok_def)
  moreover have "set fr \<inter> live chain' = {}" using f1(2) fl c'(2) by auto
  ultimately have "rep_ok r'" unfolding rep_ok_def using c'(1) f1(1) n1(4) s(10) by (auto simp: r'_def)
  moreover have "\<forall>j. in_range (nodes r) j \<longrightarrow> msk ns2 j = msk (nodes r) j \<or> j = k \<and> msk (nodes r) j = HidePtr 0"
    using c k v1(1) unfolding chains_ok_def s(5) by metis
  ultimately have "enters p k r r'" unfolding enters_def using e find k1 n1(3) v1(2-5) s(5,6,9) by (auto simp: r'_def)
  moreover have "PointerMap_Add p k (r\<lparr>nodes := ns1, free_nodes := fr\<rparr>) = Some r'" using k1(1) by (simp add: Add_spec r'_def ns2_def)
  ultimately show ?thesis using s(6) by (auto simp: r'_def)
qed

lemma GetId_append:
  assumes ok: "rep_ok r" and c: "chains_ok (nodes r) (ptrmap r) chain" and fl: "set (free_nodes r) \<inter> live chain = {}"
    and p: "\<forall>i. \<not> node_of (nodes r) chain p i" and free: "free_nodes r = []" and len: "length (nodes r) < 2 ^ 31"
  shows "\<exists>k r'. GetId p r = Some (MakeId k (ver (nodes r') k), r') \<and> enters p k r r'"
proof -
  define ns where "ns = nodes r"
  define k where "k = int (length ns)"
  define n where "n = \<lparr>rank = k, version = 1, next_hash = - 1, visited = False, masked_ptr = HidePtr p, in_set = NodeSet_Init,
    out_set = NodeSet_Init, priority = 0, trace = []\<rparr>"
  have kr: "signed_take_bit 31 k = k" using len by (intro signed_take_bit_int_eq_self) (simp_all add: k_def ns_def)
  have nf: "rank n = int (length ns)" "\<not> visited n" "in_set n = NodeSet_Init" "out_set n = NodeSet_Init" by (simp_all add: n_def k_def)
  note v = append_views [OF nf(1,2) _ _ refl k_def, unfolded nf(3,4), OF node_set.init(2) node_set.init(2)]
  have gok: "graph_ok (ns @ [n])" "edges (ns @ [n]) = edges ns" using graph_ok_append [OF _ nf] ok by (auto simp: rep_ok_def ns_def)
  have e: "edges (ns @ [n]) = edges (nodes r)" using gok(2) by (simp add: ns_def)
  have kl: "k \<notin> live chain" using c v(2) by (auto simp: chains_ok_def live_def ns_def)
  have "\<exists>r'. PointerMap_Add p k (r\<lparr>nodes := ns @ [n], free_nodes := []\<rparr>) = Some r' \<and> enters p k r r' \<and> ver (nodes r') = ver (ns @ [n])"
    by (rule enter_spec [OF ok c fl p kl gok(1) e])
      (use v len in \<open>auto simp: ns_def n_def split: if_splits\<close>)
  then obtain r' where a: "PointerMap_Add p k (r\<lparr>nodes := ns @ [n]\<rparr>) = Some r'" "enters p k r r'" "ver (nodes r') = ver (ns @ [n])"
    using arg_cong [of "r\<lparr>nodes := ns @ [n], free_nodes := []\<rparr>" "r\<lparr>nodes := ns @ [n]\<rparr>" "PointerMap_Add p k"] free
    by (cases r) auto
  have "GetId p r = Some (MakeId k 1, r')"
    using Find_spec(2) [OF c p] free a(1)
    by (simp add: GetId_def ns_def [symmetric] k_def [symmetric] kr Let_def n_def [symmetric]) (simp add: n_def)
  moreover have "ver (nodes r') k = 1" unfolding a(3) v(9) by (simp add: n_def)
  ultimately show ?thesis using a(2) by metis
qed

lemma GetId_reuse:
  assumes ok: "rep_ok r" and c: "chains_ok (nodes r) (ptrmap r) chain" and fl: "set (free_nodes r) \<inter> live chain = {}"
    and p: "\<forall>i. \<not> node_of (nodes r) chain p i" and free: "free_nodes r = k # fr"
  shows "\<exists>r'. GetId p r = Some (MakeId k (ver (nodes r') k), r') \<and> enters p k r r'"
proof -
  define ns1 where "ns1 = upd k (\<lambda>n. n\<lparr>masked_ptr := HidePtr p, priority := 0, trace := []\<rparr>) (nodes r)"
  have k: "in_range (nodes r) k" "k \<notin> live chain" and d: "distinct fr" "k \<notin> set fr" using ok fl free by (auto simp: rep_ok_def)
  have so: "sets_ok (nodes r)" using ok by (simp add: rep_ok_def graph_ok_def adj_ok_def)
  have s: "outs ns1 = outs (nodes r)" "ins ns1 = ins (nodes r)" "rk ns1 = rk (nodes r)" "vis ns1 = vis (nodes r)" "ver ns1 = ver (nodes r)"
      "nxt ns1 = nxt (nodes r)" "msk ns1 = (msk (nodes r))(k := HidePtr p)" "sets_ok ns1" "in_range ns1 = in_range (nodes r)" "length ns1 = length (nodes r)"
    using k(1) sets_okD [OF so k(1)] so by (simp_all add: ns1_def view_simps)
  have g: "graph_ok ns1" by (rule graph_ok_views [of "nodes r"]) (use s ok in \<open>simp_all add: rep_ok_def\<close>)
  have e: "edges ns1 = edges (nodes r)" using s(1) by (simp add: edges_def)
  have "\<exists>r'. PointerMap_Add p k (r\<lparr>nodes := ns1, free_nodes := fr\<rparr>) = Some r' \<and> enters p k r r' \<and> ver (nodes r') = ver ns1"
    by (rule enter_spec [OF ok c fl p k(2) g e]) (use s k d free ok in \<open>auto simp: rep_ok_def\<close>)
  then obtain r' where a: "PointerMap_Add p k (r\<lparr>nodes := ns1, free_nodes := fr\<rparr>) = Some r'" "enters p k r r'" "ver (nodes r') = ver (nodes r)"
    using s(5) by auto
  have "r\<lparr>free_nodes := fr, nodes := ns1\<rparr> = r\<lparr>nodes := ns1, free_nodes := fr\<rparr>" by simp
  then have "PointerMap_Add p k (r\<lparr>free_nodes := fr, nodes := ns1\<rparr>) = Some r'" using a(1) by metis
  then have "GetId p r = Some (MakeId k (ver (nodes r) k), r')"
    using Find_spec(2) [OF c p] free k(1) by (simp add: GetId_def get_nd ns1_def [symmetric] ver_def)
  then show ?thesis using a(2,3) by auto
qed

text \<open>The id of a pointer.\<close>

lemma GetId_spec:
  assumes ok: "rep_ok r" and len: "length (nodes r) < 2 ^ 31"
  shows "\<exists>k r'. GetId p r = Some (MakeId k (ver (nodes r') k), r') \<and> enters p k r r'"
proof -
  obtain chain where c: "chains_ok (nodes r) (ptrmap r) chain" "set (free_nodes r) \<inter> live chain = {}" using ok by (auto simp: rep_ok_def)
  show ?thesis
  proof (cases "\<exists>i. node_of (nodes r) chain p i")
    case True
    then show ?thesis using GetId_known [OF ok c(1)] by blast
  next
    case False
    then show ?thesis using GetId_append [OF ok c _ _ len] GetId_reuse [OF ok c] by (cases "free_nodes r") blast+
  qed
qed

section \<open>Removing nodes\<close>

lemma fold_erase_in:
  assumes "sets_ok ns" "\<forall>y \<in> set ys. in_range ns y" "i \<ge> 0"
  shows "\<exists>ns'. fold_opt (erase_in i) ys ns = Some ns' \<and> ins ns' = (\<lambda>v. if v \<in> set ys then ins ns v - {i} else ins ns v) \<and>
    outs ns' = outs ns \<and> rk ns' = rk ns \<and> vis ns' = vis ns \<and> map core ns' = map core ns \<and> sets_ok ns'"
  using assms
proof (induction ys arbitrary: ns)
  case (Cons y ys)
  obtain n1 where 1: "erase_in i y ns = Some n1" "ins n1 = (ins ns)(y := ins ns y - {i})" "outs n1 = outs ns" "rk n1 = rk ns"
      "vis n1 = vis ns" "map core n1 = map core ns" "sets_ok n1" using erase_in_spec [of ns y i] Cons.prems by auto
  obtain ns' where 2: "fold_opt (erase_in i) ys n1 = Some ns'" "ins ns' = (\<lambda>v. if v \<in> set ys then ins n1 v - {i} else ins n1 v)"
      "outs ns' = outs n1" "rk ns' = rk n1" "vis ns' = vis n1" "map core ns' = map core n1" "sets_ok ns'"
    using Cons.IH [of n1] Cons.prems 1(7) same_range [OF 1(6)] by auto
  show ?case using 1 2 by (intro exI [of _ ns']) (auto simp: fun_eq_iff)
qed simp

lemma fold_erase_out:
  assumes "sets_ok ns" "\<forall>y \<in> set ys. in_range ns y" "i \<ge> 0"
  shows "\<exists>ns'. fold_opt (erase_out i) ys ns = Some ns' \<and> outs ns' = (\<lambda>v. if v \<in> set ys then outs ns v - {i} else outs ns v) \<and>
    ins ns' = ins ns \<and> rk ns' = rk ns \<and> vis ns' = vis ns \<and> map core ns' = map core ns \<and> sets_ok ns'"
  using assms
proof (induction ys arbitrary: ns)
  case (Cons y ys)
  obtain n1 where 1: "erase_out i y ns = Some n1" "outs n1 = (outs ns)(y := outs ns y - {i})" "ins n1 = ins ns" "rk n1 = rk ns"
      "vis n1 = vis ns" "map core n1 = map core ns" "sets_ok n1" using erase_out_spec [of ns y i] Cons.prems by auto
  obtain ns' where 2: "fold_opt (erase_out i) ys n1 = Some ns'" "outs ns' = (\<lambda>v. if v \<in> set ys then outs n1 v - {i} else outs n1 v)"
      "ins ns' = ins n1" "rk ns' = rk n1" "vis ns' = vis n1" "map core ns' = map core n1" "sets_ok ns'"
    using Cons.IH [of n1] Cons.prems 1(7) same_range [OF 1(6)] by auto
  show ?case using 1 2 by (intro exI [of _ ns']) (auto simp: fun_eq_iff)
qed simp

text \<open>The two loops that take a node out of its neighbours' sets.\<close>

lemma detach:
  assumes adj: "adj_ok ns" and inc: "increasing (edges ns) (rk ns)" and i: "in_range ns i"
  shows "\<exists>n1 n2. fold_opt (erase_in i) (hash_for_each (out_set (nd ns i)) 0) ns = Some n1 \<and>
    fold_opt (erase_out i) (hash_for_each (in_set (nd n1 i)) 0) n1 = Some n2 \<and>
    outs n2 = (\<lambda>u. outs ns u - {i}) \<and> (\<forall>v. v \<noteq> i \<longrightarrow> ins n2 v = ins ns v - {i}) \<and> rk n2 = rk ns \<and> vis n2 = vis ns \<and>
    map core n1 = map core ns \<and> map core n2 = map core ns \<and> sets_ok n2"
proof -
  have so: "sets_ok ns" and sym: "\<And>u v. v \<in> outs ns u \<longleftrightarrow> u \<in> ins ns v" and i0: "i \<ge> 0" using adj i by (auto simp: adj_ok_def in_range_def)
  have loop: "i \<notin> outs ns i" using inc by (auto simp: increasing_def edges_def)
  have "\<forall>y \<in> set (hash_for_each (out_set (nd ns i)) 0). in_range ns y" using edge_range [OF adj] by (auto simp: elements_out [OF i])
  from fold_erase_in [OF so this i0] obtain n1 where
    1: "fold_opt (erase_in i) (hash_for_each (out_set (nd ns i)) 0) ns = Some n1" "ins n1 = (\<lambda>v. if v \<in> outs ns i then ins ns v - {i} else ins ns v)"
      "outs n1 = outs ns" "rk n1 = rk ns" "vis n1 = vis ns" "map core n1 = map core ns" "sets_ok n1"
    unfolding elements_out [OF i] by blast
  have i1: "in_range n1 i" using same_range [OF 1(6)] i by simp
  have in1: "ins n1 i = ins ns i" using 1(2) loop by simp
  have "\<forall>y \<in> set (hash_for_each (in_set (nd n1 i)) 0). in_range n1 y"
    using edge_range [OF adj] sym same_range [OF 1(6)] by (auto simp: elements_in [OF i1] in1)
  from fold_erase_out [OF 1(7) this i0] obtain n2 where
    2: "fold_opt (erase_out i) (hash_for_each (in_set (nd n1 i)) 0) n1 = Some n2" "outs n2 = (\<lambda>v. if v \<in> ins ns i then outs n1 v - {i} else outs n1 v)"
      "ins n2 = ins n1" "rk n2 = rk n1" "vis n2 = vis n1" "map core n2 = map core n1" "sets_ok n2"
    unfolding elements_in [OF i1] in1 by blast
  have "outs n2 = (\<lambda>u. outs ns u - {i})" using 1(3) 2(2) sym by (auto simp: fun_eq_iff)
  moreover have "ins n2 v = ins ns v - {i}" if "v \<noteq> i" for v using 1(2) 2(3) sym by auto
  ultimately show ?thesis using 1 2 by auto
qed

lemma RemoveNode_absent:
  assumes "rep_ok r" "chains_ok (nodes r) (ptrmap r) chain" "\<forall>i. \<not> node_of (nodes r) chain p i"
  shows "RemoveNode p r = Some r"
  using Remove_absent [OF assms(2,3)] by (simp add: RemoveNode_def)

text \<open>The node itself is emptied.\<close>

definition emptied :: "int \<Rightarrow> node \<Rightarrow> node" where
  "emptied v n = n\<lparr>in_set := NodeSet_Init, out_set := NodeSet_Init, masked_ptr := HidePtr 0, version := v\<rparr>"

lemma emptied_views:
  assumes "in_range ns i" "sets_ok ns" "ns' = upd i (\<lambda>_. emptied v (nd ns i)) ns"
  shows "outs ns' = (outs ns)(i := {})" "ins ns' = (ins ns)(i := {})" "rk ns' = rk ns" "vis ns' = vis ns" "nxt ns' = nxt ns"
    "msk ns' = (msk ns)(i := HidePtr 0)" "ver ns' = (ver ns)(i := v)" "sets_ok ns'"
proof -
  show "outs ns' = (outs ns)(i := {})" "ins ns' = (ins ns)(i := {})"
    using assms(1,3) node_set.init(2) by (auto simp: fun_eq_iff outs_def ins_def nd_upd emptied_def)
  show "rk ns' = rk ns" "vis ns' = vis ns" "nxt ns' = nxt ns" "msk ns' = (msk ns)(i := HidePtr 0)" "ver ns' = (ver ns)(i := v)" "sets_ok ns'"
    using assms node_set.init(1) by (simp_all add: view_simps emptied_def)
qed

lemma emptied_graph:
  assumes ok: "graph_ok ns" and i: "in_range ns i"
    and n2: "outs n2 = (\<lambda>u. outs ns u - {i})" "\<forall>v. v \<noteq> i \<longrightarrow> ins n2 v = ins ns v - {i}" "rk n2 = rk ns" "vis n2 = vis ns" "map core n2 = map core ns" "sets_ok n2"
    and ns': "ns' = upd i (\<lambda>_. emptied v (nd n2 i)) n2"
  shows "graph_ok ns'" "edges ns' = {(u, v) \<in> edges ns. u \<noteq> i \<and> v \<noteq> i}"
proof -
  have r2: "in_range n2 = in_range ns" "length n2 = length ns" using same_range [OF n2(5)] map_eq_imp_length_eq [OF n2(5)] by auto
  note e = emptied_views [OF i [folded r2(1)] n2(6) ns']
  have r': "in_range ns' = in_range ns" "length ns' = length ns" using ns' r2 by simp_all
  show edges: "edges ns' = {(u, v) \<in> edges ns. u \<noteq> i \<and> v \<noteq> i}" unfolding edges_def e(1) n2(1) by (auto split: if_splits)
  have "adj_ok ns'" using ok n2(1,2) e(8) unfolding graph_ok_def adj_ok_def e(1,2) by auto
  moreover have "increasing (edges ns') (rk ns)" using ok edges by (auto simp: graph_ok_def increasing_def)
  ultimately show "graph_ok ns'" using ok e(3,4) n2(3,4) r' by (simp add: graph_ok_def)
qed

text \<open>The state after a node is removed.\<close>

definition leaves :: "pointer \<Rightarrow> int \<Rightarrow> Rep \<Rightarrow> Rep \<Rightarrow> bool" where
  "leaves p i r r' \<longleftrightarrow>
    rep_ok r' \<and> edges (nodes r') = {(u, v) \<in> edges (nodes r). u \<noteq> i \<and> v \<noteq> i} \<and> in_range (nodes r') = in_range (nodes r) \<and>
    ver (nodes r') = (ver (nodes r))(i := (if ver (nodes r) i = 2 ^ 32 - 1 then ver (nodes r) i else ver (nodes r) i + 1)) \<and>
    msk (nodes r') = (msk (nodes r))(i := HidePtr 0) \<and> PointerMap_Find r' p = Some (- 1)"

lemma RemoveNode_present:
  assumes ok: "rep_ok r" and c: "chains_ok (nodes r) (ptrmap r) chain" and fl: "set (free_nodes r) \<inter> live chain = {}"
    and i: "node_of (nodes r) chain p i"
  shows "\<exists>r'. RemoveNode p r = Some r' \<and> leaves p i r r'"
proof -
  obtain as bs r1 where ch: "chain (ptr_hash p) = as @ i # bs" and rem: "PointerMap_Remove p r = Some (i, r1)"
    and v1: "in_range (nodes r1) = in_range (nodes r)" "outs (nodes r1) = outs (nodes r)" "ins (nodes r1) = ins (nodes r)" "rk (nodes r1) = rk (nodes r)"
    "vis (nodes r1) = vis (nodes r)" "sets_ok (nodes r) \<longrightarrow> sets_ok (nodes r1)" "msk (nodes r1) = msk (nodes r)" "ver (nodes r1) = ver (nodes r)"
    "length (nodes r1) = length (nodes r)" "free_nodes r1 = free_nodes r"
    and unlink: "if as = [] then ptrmap r1 = (ptrmap r)(ptr_hash p := nxt (nodes r) i) \<and> nxt (nodes r1) = (nxt (nodes r))(i := - 1)
      else ptrmap r1 = ptrmap r \<and> nxt (nodes r1) = (nxt (nodes r))(last as := nxt (nodes r) i, i := - 1)"
    using Remove_present [OF c i] .
  have ri: "in_range (nodes r) i" using i c unfolding node_of_chain [OF c] by (auto simp: chains_ok_def)
  then have i1: "in_range (nodes r1) i" "i \<noteq> - 1" using v1(1) by (auto simp: in_range_def)
  have g: "graph_ok (nodes r1)" by (rule graph_ok_views [of "nodes r"]) (use v1 ok in \<open>auto simp: rep_ok_def graph_ok_def adj_ok_def\<close>)
  obtain n1 n2 where d: "fold_opt (erase_in i) (hash_for_each (out_set (nd (nodes r1) i)) 0) (nodes r1) = Some n1"
      "fold_opt (erase_out i) (hash_for_each (in_set (nd n1 i)) 0) n1 = Some n2" "outs n2 = (\<lambda>u. outs (nodes r1) u - {i})"
      "\<forall>v. v \<noteq> i \<longrightarrow> ins n2 v = ins (nodes r1) v - {i}" "rk n2 = rk (nodes r1)" "vis n2 = vis (nodes r1)"
      "map core n1 = map core (nodes r1)" "map core n2 = map core (nodes r1)" "sets_ok n2"
    using detach [OF _ _ i1(1)] g unfolding graph_ok_def by blast
  define old where "old = ver (nodes r) i"
  define v where "v = (if old = 2 ^ 32 - 1 then old else old + 1)"
  define ns3 where "ns3 = upd i (\<lambda>_. emptied v (nd n2 i)) n2"
  define r' where "r' = r1\<lparr>nodes := ns3, free_nodes := (if old = 2 ^ 32 - 1 then free_nodes r else i # free_nodes r)\<rparr>"
  have rn: "in_range n1 i" "in_range n2 i" "in_range n2 = in_range (nodes r)"
    using same_range [OF d(7)] same_range [OF d(8)] i1(1) v1(1) by auto
  have cv: "nxt n2 = nxt (nodes r1)" "msk n2 = msk (nodes r)" "ver n2 = ver (nodes r)" using core_views [OF d(8)] v1(7,8) by auto
  have vn: "version (nd n2 i) = old" using rn(2) cv(3) unfolding old_def by (metis ver_def)
  have "emptied v (nd n2 i) = (if old = 2 ^ 32 - 1 then (nd n2 i)\<lparr>in_set := NodeSet_Init, out_set := NodeSet_Init, masked_ptr := HidePtr 0\<rparr>
      else (nd n2 i)\<lparr>in_set := NodeSet_Init, out_set := NodeSet_Init, masked_ptr := HidePtr 0, version := old + 1\<rparr>)"
    using vn by (simp add: emptied_def v_def)
  then have eq: "RemoveNode p r = Some r'"
    using rem i1 d(1,2) rn(1,2) vn v1(10) by (simp add: RemoveNode_def get_nd Let_def r'_def ns3_def)
  note e = emptied_views [OF rn(2) d(9) ns3_def]
  note g3 = emptied_graph [OF g i1(1) d(3,4,5,6,8,9) ns3_def]
  have r3: "in_range ns3 = in_range (nodes r)" "length ns3 = length (nodes r)"
    using rn(3) map_eq_imp_length_eq [OF d(8)] v1(9) by (simp_all add: ns3_def)
  define chain' where "chain' = chain(ptr_hash p := as @ bs)"
  have c': "chains_ok ns3 (ptrmap r1) chain'" "live chain' = live chain - {i}"
    unfolding chain'_def using chains_ok_remove [OF c ch r3(1), of "ptrmap r1"] e(5,6) cv unlink by auto
  have "\<forall>j. \<not> node_of ns3 chain' p j"
    using c'(2) e(6) cv(2) node_of_unique [OF c i] by (auto simp: node_of_def)
  then have find: "PointerMap_Find r' p = Some (- 1)" using Find_spec(2) [of r' chain' p] c'(1) by (simp add: r'_def)
  have "1 \<le> old" "old < 2 ^ 32" using ok ri by (auto simp: rep_ok_def old_def)
  then have "1 \<le> v \<and> v < 2 ^ 32" by (simp add: v_def)
  then have "\<forall>j. in_range ns3 j \<longrightarrow> 1 \<le> ver ns3 j \<and> ver ns3 j < 2 ^ 32" using ok e(7) cv(3) r3(1) by (simp add: rep_ok_def)
  moreover have "i \<in> live chain" using i by (simp add: node_of_def)
  ultimately have "rep_ok r'" unfolding rep_ok_def using ok c' fl g3(1) r3 ri by (auto simp: r'_def rep_ok_def)
  moreover have "edges ns3 = {(u, v) \<in> edges (nodes r). u \<noteq> i \<and> v \<noteq> i}" using g3(2) v1(2) by (simp add: edges_def)
  ultimately have "leaves p i r r'"
    unfolding leaves_def using e(6,7) cv find r3(1) by (simp add: r'_def v_def old_def)
  then show ?thesis using eq by blast
qed

lemma RemoveNode_spec:
  assumes "rep_ok r"
  shows "\<exists>i r'. RemoveNode p r = Some r' \<and> PointerMap_Find r p = Some i \<and> (if i = - 1 then r' = r else leaves p i r r' \<and> in_range (nodes r) i)"
proof -
  obtain chain where c: "chains_ok (nodes r) (ptrmap r) chain" "set (free_nodes r) \<inter> live chain = {}" using assms by (auto simp: rep_ok_def)
  show ?thesis
  proof (cases "\<exists>i. node_of (nodes r) chain p i")
    case True
    then obtain i where i: "node_of (nodes r) chain p i" by blast
    then have "in_range (nodes r) i" using node_of_chain [OF c(1)] c(1) by (auto simp: chains_ok_def)
    moreover from this have "i \<noteq> - 1" by (auto simp: in_range_def)
    ultimately show ?thesis using RemoveNode_present [OF assms c i] Find_spec(1) [OF c(1) i] by auto
  next
    case False
    then show ?thesis using RemoveNode_absent [OF assms c(1)] Find_spec(2) [OF c(1)] by auto
  qed
qed

section \<open>Edges and traces\<close>

lemma rep_ok_views:
  assumes "rep_ok r" "graph_ok ns" "length ns = length (nodes r)" "nxt ns = nxt (nodes r)" "msk ns = msk (nodes r)" "ver ns = ver (nodes r)"
  shows "rep_ok (r\<lparr>nodes := ns\<rparr>)"
proof -
  have "in_range ns = in_range (nodes r)" using assms(3) by (simp add: in_range_def fun_eq_iff)
  then show ?thesis using assms by (simp add: rep_ok_def chains_ok_def)
qed

lemma rep_ok_core:
  assumes "rep_ok r" "graph_ok ns" "map core ns = map core (nodes r)"
  shows "rep_ok (r\<lparr>nodes := ns\<rparr>)"
  using rep_ok_views [OF assms(1,2)] core_views [OF assms(3)] map_eq_imp_length_eq [OF assms(3)] by simp

lemma InsertEdge_expired:
  assumes "in_range (nodes r) (NodeIndex g)" "in_range (nodes r) (NodeIndex h)" "\<not> (FindNode r g = Some True \<and> FindNode r h = Some True)"
  shows "InsertEdge g h r = Some (True, r)"
  using assms by (auto simp: InsertEdge_def FindNode_iff get_nd Let_def)

lemma InsertEdge_rep_ok:
  assumes "rep_ok r" "FindNode r g = Some True" "FindNode r h = Some True"
  shows "\<exists>r'. InsertEdge g h r = Some ((NodeIndex h, NodeIndex g) \<notin> (edges (nodes r))\<^sup>*, r') \<and> rep_ok r' \<and> map core (nodes r') = map core (nodes r) \<and>
    edges (nodes r') = (if (NodeIndex h, NodeIndex g) \<in> (edges (nodes r))\<^sup>* then edges (nodes r) else insert (NodeIndex g, NodeIndex h) (edges (nodes r)))"
  using InsertEdge_spec [OF _ assms(2,3) refl refl refl] rep_ok_core [OF assms(1)] assms(1) by (auto simp: rep_ok_def)

lemma RemoveEdge_spec:
  assumes ok: "rep_ok r" and range: "in_range (nodes r) (NodeIndex g)" "in_range (nodes r) (NodeIndex h)"
  shows "\<exists>r'. RemoveEdge g h r = Some r' \<and> rep_ok r' \<and> map core (nodes r') = map core (nodes r) \<and>
    edges (nodes r') = (if FindNode r g = Some True \<and> FindNode r h = Some True then edges (nodes r) - {(NodeIndex g, NodeIndex h)} else edges (nodes r))"
proof (cases "FindNode r g = Some True \<and> FindNode r h = Some True")
  case True
  have g: "graph_ok (nodes r)" using ok by (simp add: rep_ok_def)
  then obtain n1 n2 where e: "erase_out (NodeIndex h) (NodeIndex g) (nodes r) = Some n1" "erase_in (NodeIndex g) (NodeIndex h) n1 = Some n2" "adj_ok n2"
      "edges n2 = edges (nodes r) - {(NodeIndex g, NodeIndex h)}" "rk n2 = rk (nodes r)" "vis n2 = vis (nodes r)" "map core n2 = map core (nodes r)"
    using erase_edge range unfolding graph_ok_def by blast
  have "increasing (edges n2) (rk n2)" using g e(4,5) by (auto simp: graph_ok_def increasing_def)
  then have "graph_ok n2" using g e(3,5,6) same_range [OF e(7)] map_eq_imp_length_eq [OF e(7)] by (simp add: graph_ok_def)
  then show ?thesis using rep_ok_core [OF ok _ e(7)] True e by (simp add: RemoveEdge_def)
next
  case False
  then show ?thesis using ok range by (auto simp: RemoveEdge_def FindNode_iff)
qed

lemma HasEdge_spec:
  assumes ok: "rep_ok r" and range: "in_range (nodes r) (NodeIndex g)" "in_range (nodes r) (NodeIndex h)"
  shows "HasEdge r g h = Some (FindNode r g = Some True \<and> FindNode r h = Some True \<and> (NodeIndex g, NodeIndex h) \<in> edges (nodes r))"
proof -
  have "NodeSet_ok (out_set (nd (nodes r) (NodeIndex g)))" "NodeIndex h \<ge> 0"
    using ok range sets_okD by (auto simp: rep_ok_def graph_ok_def adj_ok_def in_range_def)
  from node_set.mem [OF this] show ?thesis using range by (auto simp: HasEdge_def FindNode_iff get_nd edges_def outs_def)
qed

lemma UpdateStackTrace_spec:
  assumes ok: "rep_ok r" and range: "in_range (nodes r) (NodeIndex g)"
  shows "\<exists>r'. UpdateStackTrace g prio f r = Some r' \<and> rep_ok r' \<and> edges (nodes r') = edges (nodes r) \<and> in_range (nodes r') = in_range (nodes r) \<and>
    msk (nodes r') = msk (nodes r) \<and> ver (nodes r') = ver (nodes r)"
proof (cases "FindNode r g = Some True \<and> priority (nd (nodes r) (NodeIndex g)) < prio")
  case True
  define ns where "ns = upd (NodeIndex g) (\<lambda>n. n\<lparr>trace := f 40, priority := prio\<rparr>) (nodes r)"
  have so: "sets_ok (nodes r)" using ok by (simp add: rep_ok_def graph_ok_def adj_ok_def)
  have v: "outs ns = outs (nodes r)" "ins ns = ins (nodes r)" "rk ns = rk (nodes r)" "vis ns = vis (nodes r)" "sets_ok ns"
      "nxt ns = nxt (nodes r)" "msk ns = msk (nodes r)" "ver ns = ver (nodes r)" "length ns = length (nodes r)" "in_range ns = in_range (nodes r)"
    using range sets_okD [OF so range] so by (simp_all add: ns_def view_simps)
  have "graph_ok ns" using graph_ok_views [OF _ v(1,2,3,4,9,5)] ok by (simp add: rep_ok_def)
  then have "rep_ok (r\<lparr>nodes := ns\<rparr>)" using rep_ok_views [OF ok] v by simp
  then show ?thesis using True range v by (simp add: UpdateStackTrace_def get_nd edges_def ns_def [symmetric])
next
  case False
  then show ?thesis using ok range by (auto simp: UpdateStackTrace_def FindNode_iff get_nd)
qed

section \<open>The run-time check\<close>

lemma check_edges_ok: "\<forall>y \<in> set ys. in_range ns y \<and> rx < rk ns y \<Longrightarrow> check_edges ns rx ys = Some ()"
proof (induction ys)
  case (Cons y ys)
  then have "check_edges ns rx ys = Some ()" by simp
  moreover have "\<not> rank (nd ns y) \<le> rx" "in_range ns y" using Cons.prems by (auto simp: rk_def)
  ultimately show ?case by (simp add: get_nd)
qed simp

lemma check_node_ok:
  assumes ok: "rep_ok r" and x: "x < length (nodes r)" and ranks: "NodeSet_ok ranks" "members ranks = (\<lambda>i. rk (nodes r) (int i)) ` {0..<x}"
  shows "\<exists>ranks'. check_node r x ranks = Some ranks' \<and> NodeSet_ok ranks' \<and> members ranks' = (\<lambda>i. rk (nodes r) (int i)) ` {0..<Suc x}"
proof -
  define ns where "ns = nodes r"
  have g: "graph_ok ns" using ok by (simp add: rep_ok_def ns_def)
  have xr: "in_range ns (int x)" using x by (simp add: in_range_def ns_def)
  obtain chain where c: "chains_ok ns (ptrmap r) chain" using ok by (auto simp: rep_ok_def ns_def)
  have find: "PointerMap_Find r (UnhidePtr (masked_ptr (nd ns (int x)))) = Some (int x)" if "UnhidePtr (masked_ptr (nd ns (int x))) \<noteq> 0"
  proof -
    have "msk ns (int x) \<noteq> HidePtr 0" using that xr by (auto simp: msk_def)
    then have "int x \<in> live chain" using c xr by (auto simp: chains_ok_def)
    then have "node_of ns chain (UnhidePtr (masked_ptr (nd ns (int x)))) (int x)" using xr by (simp add: node_of_def msk_def)
    then show ?thesis using Find_spec(1) c by (simp add: ns_def)
  qed
  have "rk ns (int x) \<in> rk ns ` Collect (in_range ns)" using xr by auto
  then have pos: "rk ns (int x) \<ge> 0" using g by (auto simp: graph_ok_def)
  have "rk ns (int x) \<noteq> rk ns (int i)" if "i < x" for i
    using g that x inj_onD [of "rk ns" "Collect (in_range ns)" "int x" "int i"] by (auto simp: graph_ok_def in_range_def ns_def)
  then have new: "rk ns (int x) \<notin> members ranks" unfolding ranks(2) ns_def [symmetric] by fastforce
  obtain ranks' where ins: "NodeSet_insert (rk ns (int x)) ranks = Some (True, ranks')" "NodeSet_ok ranks'" "members ranks' = insert (rk ns (int x)) (members ranks)"
    using node_set.ins [OF ranks(1) pos] new by auto
  have "\<forall>y \<in> outs ns (int x). in_range ns y \<and> rk ns (int x) < rk ns y"
    using g edge_range [of ns] by (auto simp: graph_ok_def increasing_def edges_def)
  then have "check_edges ns (rk ns (int x)) (hash_for_each (out_set (nd ns (int x))) 0) = Some ()"
    by (intro check_edges_ok) (simp add: elements_out [OF xr])
  moreover have "\<not> visited (nd ns (int x))" using g xr by (auto simp: graph_ok_def vis_def)
  moreover have "rank (nd ns (int x)) = rk ns (int x)" using xr by (simp add: rk_def)
  ultimately have "check_node r x ranks = Some ranks'"
    using find ins(1) xr by (auto simp: check_node_def get_nd ns_def [symmetric] Let_def)
  then show ?thesis using ins ranks(2) by (simp add: ns_def atLeast0_lessThan_Suc)
qed

lemma fold_opt_append: "fold_opt f (xs @ ys) s = do { s \<leftarrow> fold_opt f xs s; fold_opt f ys s }"
  by (induction xs arbitrary: s) (auto split: bind_splits)

lemma CheckInvariants_ok:
  assumes "rep_ok r"
  shows "CheckInvariants r = Some True"
proof -
  have "k \<le> length (nodes r) \<Longrightarrow> \<exists>s. fold_opt (check_node r) [0..<k] NodeSet_Init = Some s \<and> NodeSet_ok s \<and>
      members s = (\<lambda>i. rk (nodes r) (int i)) ` {0..<k}" for k
  proof (induction k)
    case 0
    then show ?case using node_set.init by simp
  next
    case (Suc k)
    then obtain s where "fold_opt (check_node r) [0..<k] NodeSet_Init = Some s" "NodeSet_ok s" "members s = (\<lambda>i. rk (nodes r) (int i)) ` {0..<k}" by auto
    then show ?case using check_node_ok [OF assms, of k s] Suc.prems by (simp add: fold_opt_append)
  qed
  from this [of "length (nodes r)"] show ?thesis by (auto simp: CheckInvariants_def)
qed

lemma Find_Ptr:
  assumes ok: "rep_ok r" and g: "Ptr r g = Some p" "FindNode r g = Some True" "p \<noteq> 0"
  shows "PointerMap_Find r p = Some (NodeIndex g)"
proof -
  obtain chain where c: "chains_ok (nodes r) (ptrmap r) chain" using ok by (auto simp: rep_ok_def)
  have m: "msk (nodes r) (NodeIndex g) = HidePtr p" "in_range (nodes r) (NodeIndex g)"
    using g(1,2) by (auto simp: Ptr_iff FindNode_iff split: if_splits)
  then have "NodeIndex g \<in> live chain" using c g(3) by (auto simp: chains_ok_def)
  then show ?thesis using Find_spec(1) [OF c] m(1) by (simp add: node_of_def)
qed

section \<open>Reachable states\<close>

text \<open>One call of an operation that changes the state. A node needs an index that the type of indices has.\<close>

inductive graph_step :: "Rep \<Rightarrow> Rep \<Rightarrow> bool" where
  get_id: "length (nodes r) < 2 ^ 31 \<Longrightarrow> GetId p r = Some (g, r') \<Longrightarrow> graph_step r r'"
| remove_node: "RemoveNode p r = Some r' \<Longrightarrow> graph_step r r'"
| insert_edge: "InsertEdge g h r = Some (b, r') \<Longrightarrow> graph_step r r'"
| remove_edge: "RemoveEdge g h r = Some r' \<Longrightarrow> graph_step r r'"
| update_trace: "UpdateStackTrace g prio f r = Some r' \<Longrightarrow> graph_step r r'"

inductive graph_reachable :: "Rep \<Rightarrow> bool" where
  start: "graph_reachable GraphCycles_init"
| step: "graph_reachable r \<Longrightarrow> graph_step r r' \<Longrightarrow> graph_reachable r'"

lemma init_ok: "rep_ok GraphCycles_init"
proof -
  have "chains_ok [] (\<lambda>_. - 1) (\<lambda>_. [])" by (auto simp: chains_ok_def live_def in_range_def)
  moreover have "graph_ok []"
    by (auto simp: graph_ok_def adj_ok_def sets_ok_def outs_def ins_def vis_def in_range_def edges_def increasing_def inj_on_def)
  ultimately show ?thesis by (auto simp: rep_ok_def GraphCycles_init_def in_range_def live_def)
qed

lemma InsertEdge_ok:
  assumes "rep_ok r" "InsertEdge g h r = Some (b, r')"
  shows "rep_ok r'"
proof (cases "FindNode r g = Some True \<and> FindNode r h = Some True")
  case True
  then show ?thesis using InsertEdge_rep_ok [OF assms(1)] assms(2) by fastforce
next
  case False
  have "in_range (nodes r) (NodeIndex g)" "in_range (nodes r) (NodeIndex h)"
    using assms(2) by (auto simp: InsertEdge_def Let_def FindNode_iff split: bind_splits if_splits)
  then show ?thesis using InsertEdge_expired False assms by fastforce
qed

lemma graph_step_ok: "graph_step r r' \<Longrightarrow> rep_ok r \<Longrightarrow> rep_ok r'"
proof (induction rule: graph_step.induct)
  case (get_id r p g r')
  then show ?case using GetId_spec [of r p] by (auto simp: enters_def)
next
  case (remove_node p r r')
  then show ?case using RemoveNode_spec [of r p] by (auto simp: leaves_def split: if_splits)
next
  case (insert_edge g h r b r')
  then show ?case using InsertEdge_ok by blast
next
  case (remove_edge g h r r')
  have "in_range (nodes r) (NodeIndex g)" "in_range (nodes r) (NodeIndex h)"
    using remove_edge(1) by (auto simp: RemoveEdge_def FindNode_iff split: bind_splits if_splits)
  then show ?case using RemoveEdge_spec [OF remove_edge(2)] remove_edge(1) by fastforce
next
  case (update_trace g prio f r r')
  have "in_range (nodes r) (NodeIndex g)" using update_trace(1) by (auto simp: UpdateStackTrace_def FindNode_iff split: bind_splits if_splits)
  then show ?case using UpdateStackTrace_spec [OF update_trace(2), of g prio f] update_trace(1) by auto
qed

lemma reachable_ok: "graph_reachable r \<Longrightarrow> rep_ok r"
  by (induction rule: graph_reachable.induct) (use init_ok graph_step_ok in blast)+

end
