(* ===== verification/Graph_Path.thy ===== *)
theory Graph_Path
  imports Graph_Insert
begin

text \<open>
  The search for a path: FindPath returns, it finds a path exactly when there is one, and the array it fills holds
  the ids of the nodes on a path.
\<close>

section \<open>Paths\<close>

definition is_path :: "(int \<times> int) set \<Rightarrow> int list \<Rightarrow> bool" where
  "is_path E ps \<longleftrightarrow> successively (\<lambda>u v. (u, v) \<in> E) ps"

lemma is_path_snoc: "is_path E (ps @ [n]) \<longleftrightarrow> is_path E ps \<and> (ps = [] \<or> (last ps, n) \<in> E)"
  by (auto simp: is_path_def successively_append_iff)

lemma is_path_reaches: "is_path E (u # ps) \<Longrightarrow> (u, last (u # ps)) \<in> E\<^sup>*"
proof (induction ps arbitrary: u)
  case (Cons v ps)
  then show ?case using converse_rtrancl_into_rtrancl [of u v E] by (auto simp: is_path_def)
qed simp

lemma is_path_ends: "is_path E ps \<Longrightarrow> ps \<noteq> [] \<Longrightarrow> (hd ps, last ps) \<in> E\<^sup>*"
  using is_path_reaches [of E "hd ps" "tl ps"] by simp

lemma is_path_above:
  assumes inc: "increasing E f"
  shows "is_path E (u # ps) \<Longrightarrow> v \<in> set ps \<Longrightarrow> f u < f v"
proof (induction ps arbitrary: u)
  case (Cons w ps)
  have "f u < f w" "is_path E (w # ps)" using Cons.prems(1) inc by (auto simp: is_path_def increasing_def)
  then show ?case using Cons.IH [of w] Cons.prems(2) by fastforce
qed simp

lemma is_path_distinct: "increasing E f \<Longrightarrow> is_path E ps \<Longrightarrow> distinct ps"
proof (induction ps)
  case (Cons u ps)
  have "is_path E ps" using Cons.prems(2) by (cases ps) (auto simp: is_path_def)
  then show ?case using Cons is_path_above [OF Cons.prems(1,2)] by fastforce
qed simp

section \<open>The stack\<close>

text \<open>
  The stack in terms of the path to the current node, last node first: for each node on the path the successors
  still to be visited, above the marker that stands for leaving the node.
\<close>

primrec frames :: "(int \<times> int) set \<Rightarrow> int \<Rightarrow> int list \<Rightarrow> int list \<Rightarrow> bool" where
  "frames E x [] stack \<longleftrightarrow> set stack \<subseteq> {x}"
| "frames E x (p # ps) stack \<longleftrightarrow>
    (\<exists>ws rest. stack = ws @ - 1 # rest \<and> (\<forall>w \<in> set ws. w \<ge> 0 \<and> (p, w) \<in> E) \<and> frames E x ps rest)"

lemma frames_leave:
  assumes "frames E x ps (n # stack)" "n < 0" "x \<ge> 0"
  obtains p qs where "ps = p # qs" "frames E x qs stack"
proof (cases ps)
  case Nil
  then show ?thesis using assms by auto
next
  case (Cons p qs)
  obtain ws rest where "n # stack = ws @ - 1 # rest" "\<forall>w \<in> set ws. w \<ge> 0" "frames E x qs rest" using assms(1) Cons by auto
  then show ?thesis using that [OF Cons] assms(2) by (cases ws) auto
qed

lemma frames_enter:
  assumes "frames E x ps (n # stack)" "n \<ge> 0"
  shows "frames E x ps stack" "if ps = [] then n = x else (hd ps, n) \<in> E"
proof -
  have "frames E x ps stack \<and> (if ps = [] then n = x else (hd ps, n) \<in> E)"
  proof (cases ps)
    case (Cons p qs)
    obtain ws rest where w: "n # stack = ws @ - 1 # rest" "\<forall>w \<in> set ws. w \<ge> 0 \<and> (p, w) \<in> E" "frames E x qs rest" using assms(1) Cons by auto
    then show ?thesis using assms(2) Cons by (cases ws) auto
  qed (use assms in auto)
  then show "frames E x ps stack" "if ps = [] then n = x else (hd ps, n) \<in> E" by auto
qed

text \<open>
  The invariant of the search: the nodes left behind, the nodes seen, the stack and the path.
\<close>

definition path_inv :: "(int \<times> int) set \<Rightarrow> int \<Rightarrow> int set \<Rightarrow> int set \<Rightarrow> int list \<Rightarrow> int list \<Rightarrow> bool" where
  "path_inv E x D S stack ps \<longleftrightarrow>
    x \<ge> 0 \<and> frames E x ps stack \<and> is_path E (rev ps) \<and> (ps \<noteq> [] \<longrightarrow> last ps = x) \<and>
    {w \<in> set stack. w \<ge> 0} \<union> D = insert x S \<and> (\<forall>d \<in> D. \<forall>w. (d, w) \<in> E \<longrightarrow> w \<in> S)"

lemma path_inv_start: "x \<ge> 0 \<Longrightarrow> path_inv E x {} {} [x] []"
  by (auto simp: path_inv_def is_path_def)

lemma path_inv_top: "path_inv E x D S (n # stack) ps \<Longrightarrow> n \<ge> 0 \<Longrightarrow> n \<in> insert x S"
  unfolding path_inv_def by (metis (mono_tags, lifting) UnI1 list.set_intros(1) mem_Collect_eq)

lemma path_inv_leave:
  assumes "path_inv E x D S (n # stack) ps" "n < 0"
  obtains p qs where "ps = p # qs" "path_inv E x D S stack qs"
proof -
  have inv: "x \<ge> 0" "frames E x ps (n # stack)" "is_path E (rev ps)" "ps \<noteq> [] \<longrightarrow> last ps = x" "{w \<in> set (n # stack). w \<ge> 0} \<union> D = insert x S"
      "\<forall>d \<in> D. \<forall>w. (d, w) \<in> E \<longrightarrow> w \<in> S" using assms by (auto simp: path_inv_def)
  obtain p qs where q: "ps = p # qs" "frames E x qs stack" using frames_leave [OF inv(2) assms(2) inv(1)] .
  moreover have "{w \<in> set stack. w \<ge> 0} = {w \<in> set (n # stack). w \<ge> 0}" using assms(2) by auto
  ultimately have "path_inv E x D S stack qs" using inv by (auto simp: path_inv_def is_path_snoc split: if_splits)
  then show ?thesis using that q(1) by blast
qed

lemma path_inv_path:
  assumes "path_inv E x D S (n # stack) ps" "n \<ge> 0"
  shows "is_path E (rev ps @ [n])" "hd (rev ps @ [n]) = x"
proof -
  have inv: "frames E x ps (n # stack)" "is_path E (rev ps)" "ps \<noteq> [] \<longrightarrow> last ps = x" using assms by (auto simp: path_inv_def)
  note n = frames_enter(2) [OF inv(1) assms(2)]
  show "is_path E (rev ps @ [n])" using inv(2) n unfolding is_path_snoc last_rev by (auto split: if_splits)
  show "hd (rev ps @ [n]) = x" using inv(3) n unfolding hd_append hd_rev by (auto split: if_splits)
qed

lemma path_inv_enter:
  assumes inv: "path_inv E x D S (n # stack) ps" and n: "n \<ge> 0"
    and new: "set new = {w. (n, w) \<in> E} - S" "\<forall>w \<in> set new. w \<ge> 0"
  shows "path_inv E x (insert n D) (S \<union> {w. (n, w) \<in> E}) (new @ - 1 # stack) (n # ps)"
proof -
  have i: "x \<ge> 0" "frames E x ps (n # stack)" "ps \<noteq> [] \<longrightarrow> last ps = x" "{w \<in> set (n # stack). w \<ge> 0} \<union> D = insert x S"
      "\<forall>d \<in> D. \<forall>w. (d, w) \<in> E \<longrightarrow> w \<in> S" using inv by (auto simp: path_inv_def)
  have "frames E x (n # ps) (new @ - 1 # stack)" using frames_enter(1) [OF i(2) n] new by auto
  moreover have "is_path E (rev (n # ps))" using path_inv_path(1) [OF inv n] by simp
  moreover have "last (n # ps) = x" using path_inv_path(2) [OF inv n] unfolding hd_append hd_rev by (auto split: if_splits)
  moreover have "{w \<in> set (new @ - 1 # stack). w \<ge> 0} \<union> insert n D = insert x (S \<union> {w. (n, w) \<in> E})"
  proof -
    have "{w \<in> set (new @ - 1 # stack). w \<ge> 0} \<union> insert n D = set new \<union> ({w \<in> set (n # stack). w \<ge> 0} \<union> D)" using new(2) n by auto
    then show ?thesis using i(4) new(1) by auto
  qed
  ultimately show ?thesis using i(1,5) by (auto simp: path_inv_def)
qed

lemma path_inv_done:
  assumes "path_inv E x D S [] ps" "y \<notin> D"
  shows "(x, y) \<notin> E\<^sup>*"
proof -
  have c: "D = insert x S" "\<forall>d \<in> D. \<forall>w. (d, w) \<in> E \<longrightarrow> w \<in> S" using assms(1) by (auto simp: path_inv_def)
  have "v \<in> D" if "(x, v) \<in> E\<^sup>*" for v using that c by (induction rule: rtrancl_induct) auto
  then show ?thesis using assms(2) by blast
qed

section \<open>The loop\<close>

text \<open>Each step sees a node, or turns an entry of the stack into a marker, or takes a marker away.\<close>

definition work :: "int list \<Rightarrow> nat" where
  "work stack = sum_list (map (\<lambda>n. if n < 0 then 1 else 2) stack)"

lemma work_simps [simp]:
  "work [] = 0" "work (n # stack) = (if n < 0 then 1 else 2) + work stack"
  by (simp_all add: work_def)

definition node_id :: "node list \<Rightarrow> int \<Rightarrow> int" where
  "node_id ns i = MakeId i (version (nd ns i))"

definition holds_path :: "node list \<Rightarrow> int \<Rightarrow> int list \<Rightarrow> int list \<Rightarrow> bool" where
  "holds_path ns max_path_len ps path \<longleftrightarrow> (\<forall>j < length ps. int j < max_path_len \<longrightarrow> path ! j = node_id ns (ps ! j))"

definition found :: "node list \<Rightarrow> int \<Rightarrow> int \<Rightarrow> int \<Rightarrow> int \<Rightarrow> int list \<Rightarrow> bool" where
  "found ns x y max_path_len len path \<longleftrightarrow>
    (\<exists>ps. ps \<noteq> [] \<and> is_path (edges ns) ps \<and> distinct ps \<and> hd ps = x \<and> last ps = y \<and> len = int (length ps) \<and> holds_path ns max_path_len ps path)"

lemma holds_path_snoc:
  assumes "holds_path ns m ps path" "m \<le> int (length path)"
  shows "holds_path ns m (ps @ [n]) (if int (length ps) < m then path[length ps := node_id ns n] else path)"
  using assms by (auto simp: holds_path_def nth_append nth_list_update less_Suc_eq)

text \<open>The loop unfolded.\<close>

lemma path_loop_steps:
  "path_loop ns y m seen [] path k = Some (0, path)"
  "n < 0 \<Longrightarrow> path_loop ns y m seen (n # stack) path k = path_loop ns y m seen stack path (k - 1)"
  by (subst path_loop.simps; simp)+

lemma path_loop_enter:
  assumes "in_range ns n" "m \<le> int (length path)" "path' = (if int k < m then path[k := node_id ns n] else path)"
  shows "path_loop ns y m seen (n # stack) path (int k) =
    (if n = y then Some (int k + 1, path')
     else do {
       (seen, stack) \<leftarrow> push_unseen (hash_for_each (out_set (nd ns n)) 0) seen (- 1 # stack);
       path_loop ns y m seen stack path' (int k + 1)
     })"
proof -
  have "\<not> n < 0" using assms(1) by (simp add: in_range_def)
  then show ?thesis using assms by (subst path_loop.simps) (simp add: get_nd node_id_def)
qed

lemma push_unseen_spec:
  assumes "adj_ok ns" "in_range ns n" "NodeSet_ok seen"
  shows "\<exists>seen' new. push_unseen (hash_for_each (out_set (nd ns n)) 0) seen stack = Some (seen', new @ stack) \<and> NodeSet_ok seen' \<and>
    members seen' = members seen \<union> {w. (n, w) \<in> edges ns} \<and> set new = {w. (n, w) \<in> edges ns} - members seen \<and> distinct new \<and>
    (\<forall>w \<in> set new. in_range ns w)"
proof -
  have e: "set (hash_for_each (out_set (nd ns n)) 0) = {w. (n, w) \<in> edges ns}" using assms(2) by (simp add: elements_out edges_def)
  have r: "\<forall>w \<in> {w. (n, w) \<in> edges ns}. in_range ns w" using edge_range [OF assms(1)] by (auto simp: edges_def)
  then have "\<forall>w \<in> set (hash_for_each (out_set (nd ns n)) 0). w \<ge> 0" unfolding e by (auto simp: in_range_def)
  from node_set.push_new [OF assms(3) this, of stack] show ?thesis unfolding e push_unseen_def using r by blast
qed

lemma unseen_less:
  assumes "set new \<subseteq> Collect (in_range ns)" "set new \<inter> S = {}" "distinct new"
  shows "3 * card (Collect (in_range ns) - (S \<union> set new)) + work (new @ - 1 # stack) < 3 * card (Collect (in_range ns) - S) + (2 + work stack)"
proof -
  have fin: "finite (Collect (in_range ns))" by (rule finite_subset [of _ "{0..<int (length ns)}"]) (auto simp: in_range_def)
  have "Collect (in_range ns) - S = (Collect (in_range ns) - (S \<union> set new)) \<union> set new" using assms(1,2) by blast
  then have "card (Collect (in_range ns) - S) = card (Collect (in_range ns) - (S \<union> set new)) + card (set new)"
    using card_Un_disjoint [of "Collect (in_range ns) - (S \<union> set new)" "set new"] fin by auto
  moreover have "work (new @ - 1 # stack) \<le> 2 * length new + 1 + work stack" by (induction new) auto
  ultimately show ?thesis using distinct_card [OF assms(3)] by simp
qed

lemma path_loop_spec:
  assumes adj: "adj_ok ns" and m: "m \<le> int (length path)" and seen: "NodeSet_ok seen" "members seen = S"
    and inv: "path_inv (edges ns) x D S stack ps" and x: "in_range ns x" and y: "y \<notin> D"
    and holds: "holds_path ns m (rev ps) path" and range: "S \<subseteq> Collect (in_range ns)" and inc: "increasing (edges ns) (rk ns)"
  shows "\<exists>len path'. path_loop ns y m seen stack path (int (length ps)) = Some (len, path') \<and> length path' = length path \<and>
    (if (x, y) \<in> (edges ns)\<^sup>* then found ns x y m len path' else len = 0)"
  using assms
proof (induction "3 * card (Collect (in_range ns) - S) + work stack" arbitrary: seen S stack ps D path rule: less_induct)
  case less
  note adj = less.prems(1) and m = less.prems(2) and inv = less.prems(5)
  show ?case
  proof (cases stack)
    case Nil
    then show ?thesis using path_inv_done inv less.prems(7) by (auto simp: path_loop_steps)
  next
    case (Cons n rest)
    show ?thesis
    proof (cases "n < 0")
      case True
      obtain p qs where q: "ps = p # qs" "path_inv (edges ns) x D S rest qs" using path_inv_leave inv True Cons by blast
      have "holds_path ns m (rev qs) path" using less.prems(8) q(1) by (auto simp: holds_path_def nth_append)
      then show ?thesis using less.hyps [OF _ less.prems(1-4) q(2) less.prems(6,7) _ less.prems(9,10)] Cons True q(1) by (simp add: path_loop_steps)
    next
      case False
      then have inv': "path_inv (edges ns) x D S (n # rest) ps" "n \<ge> 0" using inv Cons by auto
      have n: "in_range ns n" using less.prems(6,9) path_inv_top [OF inv'] by auto
      define path1 where "path1 = (if int (length ps) < m then path[length ps := node_id ns n] else path)"
      note loop = path_loop_enter [OF n m path1_def [unfolded length_rev], of y seen rest]
      have l1: "length path1 = length path" by (simp add: path1_def)
      have h1: "holds_path ns m (rev ps @ [n]) path1" using holds_path_snoc [OF less.prems(8) m, of n] unfolding path1_def length_rev .
      note p = path_inv_path [OF inv']
      show ?thesis
      proof (cases "n = y")
        case True
        then have "found ns x y m (int (length ps) + 1) path1"
          using p h1 is_path_distinct [OF less.prems(10) p(1)] by (auto simp: found_def intro!: exI [of _ "rev ps @ [n]"])
        moreover have "(x, y) \<in> (edges ns)\<^sup>*" using is_path_ends [OF p(1)] p(2) True by simp
        ultimately show ?thesis using loop True Cons l1 by simp
      next
        case False
        obtain seen' new where u: "push_unseen (hash_for_each (out_set (nd ns n)) 0) seen (- 1 # rest) = Some (seen', new @ - 1 # rest)"
            "NodeSet_ok seen'" "members seen' = S \<union> {w. (n, w) \<in> edges ns}" "set new = {w. (n, w) \<in> edges ns} - S" "distinct new" "\<forall>w \<in> set new. in_range ns w"
          using push_unseen_spec [OF adj n less.prems(3), of "- 1 # rest"] less.prems(4) by blast
        have inv1: "path_inv (edges ns) x (insert n D) (S \<union> {w. (n, w) \<in> edges ns}) (new @ - 1 # rest) (n # ps)"
          using path_inv_enter [OF inv' u(4)] u(6) by (auto simp: in_range_def)
        have S': "S \<union> {w. (n, w) \<in> edges ns} = S \<union> set new" using u(4) by auto
        have "3 * card (Collect (in_range ns) - (S \<union> {w. (n, w) \<in> edges ns})) + work (new @ - 1 # rest) < 3 * card (Collect (in_range ns) - S) + work stack"
          unfolding S' using unseen_less [of new ns S rest] u(4,5,6) Cons inv'(2) by auto
        moreover have "S \<union> {w. (n, w) \<in> edges ns} \<subseteq> Collect (in_range ns)" unfolding S' using less.prems(9) u(6) by auto
        ultimately show ?thesis using less.hyps [of _ "new @ - 1 # rest" path1 seen' "insert n D" "n # ps"] adj u(2,3) inv1 less.prems(6,7,10)
            loop False Cons u(1) l1 m h1 by (simp add: add.commute)
      qed
    qed
  qed
qed

lemma FindPath_spec:
  assumes ok: "graph_ok (nodes r)" and ids: "FindNode r g = Some True" "FindNode r h = Some True" and m: "m \<le> int (length path)"
  shows "\<exists>len path'. FindPath r g h m path = Some (len, path') \<and> length path' = length path \<and>
    (if (NodeIndex g, NodeIndex h) \<in> (edges (nodes r))\<^sup>* then found (nodes r) (NodeIndex g) (NodeIndex h) m len path' else len = 0)"
proof -
  have x: "in_range (nodes r) (NodeIndex g)" using FindNode_True ids by blast
  have adj: "adj_ok (nodes r)" "increasing (edges (nodes r)) (rk (nodes r))" using ok by (auto simp: graph_ok_def)
  have "holds_path (nodes r) m (rev []) path" by (simp add: holds_path_def)
  then show ?thesis
    using path_loop_spec [OF adj(1) m node_set.init path_inv_start x, of "NodeIndex h"] adj(2) x ids by (simp add: FindPath_def in_range_def)
qed

lemma found_bounds:
  assumes "graph_ok ns" "in_range ns x" "found ns x y m len path"
  shows "1 \<le> len" "len \<le> int (length ns)"
proof -
  obtain ps where ps: "ps \<noteq> []" "is_path (edges ns) ps" "hd ps = x" "len = int (length ps)" "distinct ps" using assms(3) by (auto simp: found_def)
  then show "1 \<le> len" by (cases ps) auto
  have adj: "adj_ok ns" using assms(1) by (simp add: graph_ok_def)
  have "is_path (edges ns) (u # qs) \<Longrightarrow> in_range ns u \<Longrightarrow> set (u # qs) \<subseteq> Collect (in_range ns)" for u qs
    by (induction qs arbitrary: u) (use edge_range [OF adj] in \<open>auto simp: is_path_def edges_def\<close>)
  then have "set ps \<subseteq> Collect (in_range ns)" using ps(1-3) assms(2) by (cases ps) auto
  moreover have "Collect (in_range ns) = {0..<int (length ns)}" by (auto simp: in_range_def)
  ultimately have "card (set ps) \<le> length ns" using card_mono [of "{0..<int (length ns)}" "set ps"] by simp
  then show "len \<le> int (length ns)" using distinct_card [OF ps(5)] ps(4) by simp
qed

end
