(* ===== verification/Graph_Run.thy ===== *)
theory Graph_Run
  imports Graph_State Graph_Path
begin

text \<open>
  What the deadlock detector promises its caller, in every state that its operations reach: the graph has no
  cycle, an edge is refused exactly when it would close one, ids name their pointers until the node is removed,
  paths are found when they exist, and every operation returns.
\<close>

section \<open>A small graph\<close>

text \<open>The nodes of two pointers, for the examples below.\<close>

definition fresh_node :: "int \<Rightarrow> pointer \<Rightarrow> node" where
  "fresh_node i p = \<lparr>rank = i, version = 1, next_hash = - 1, visited = False, masked_ptr = HidePtr p, in_set = NodeSet_Init,
    out_set = NodeSet_Init, priority = 0, trace = []\<rparr>"

definition two_nodes :: Rep where
  "two_nodes = \<lparr>nodes = [fresh_node 0 8, fresh_node 1 16], free_nodes = [], ptrmap = (\<lambda>_. - 1)(8 := 0, 16 := 1)\<rparr>"

lemma two_nodes_reachable: "graph_reachable two_nodes"
proof -
  define one where "one = \<lparr>nodes = [fresh_node 0 8], free_nodes = [], ptrmap = (\<lambda>_. - 1)(8 := 0)\<rparr>"
  have h: "ptr_hash 8 = 8" "ptr_hash 16 = 16" by (simp_all add: ptr_hash_def kHashTableSize_def)
  have 1: "GetId 8 GraphCycles_init = Some (MakeId 0 1, one)"
    by (simp add: GetId_def PointerMap_Find_def find_chain.simps GraphCycles_init_def h PointerMap_Add_def get_def in_range_def upd_def one_def fresh_node_def Let_def)
  have 2: "GetId 16 one = Some (MakeId 1 1, two_nodes)"
    by (simp add: GetId_def PointerMap_Find_def find_chain.simps h PointerMap_Add_def get_def in_range_def upd_def one_def two_nodes_def fresh_node_def Let_def signed_take_bit_int_eq_self)
  have "graph_reachable one"
    by (rule graph_reachable.step [OF graph_reachable.start graph_step.get_id [OF _ 1]]) (simp add: GraphCycles_init_def)
  then show ?thesis by (rule graph_reachable.step [OF _ graph_step.get_id [OF _ 2]]) (simp add: one_def)
qed

lemma two_nodes_ids:
  "NodeIndex 0x100000000 = 0" "NodeIndex 0x100000001 = 1" "NodeVersion 0x100000000 = 1" "NodeVersion 0x100000001 = 1"
  "HasNode two_nodes 0x100000000 = Some True" "HasNode two_nodes 0x100000001 = Some True" "length (nodes two_nodes) = 2"
proof -
  show i: "NodeIndex 0x100000000 = 0" "NodeIndex 0x100000001 = 1" "NodeVersion 0x100000000 = 1" "NodeVersion 0x100000001 = 1"
    by (simp_all add: NodeIndex_def NodeVersion_def signed_take_bit_eq_if_positive take_bit_eq_mod drop_bit_eq_div bit_iff_odd)
  show "HasNode two_nodes 0x100000000 = Some True" "HasNode two_nodes 0x100000001 = Some True" "length (nodes two_nodes) = 2"
    by (simp_all add: HasNode_def FindNode_def i two_nodes_def get_def in_range_def fresh_node_def)
qed

lemma two_nodes_edges: "edges (nodes two_nodes) = {}"
proof -
  have "members NodeSet_Init = {}" by (rule node_set.init(2))
  then show ?thesis by (auto simp: edges_def outs_def two_nodes_def nd_def in_range_def fresh_node_def nth_Cons split: if_splits nat.splits)
qed

section \<open>The properties\<close>

lemma same_ids: "map core (nodes r') = map core (nodes r) \<Longrightarrow> HasNode r' = HasNode r \<and> Ptr r' = Ptr r"
  using core_views [of "nodes r'" "nodes r"] same_range [of "nodes r'" "nodes r"] by (simp add: HasNode_def FindNode_iff Ptr_iff fun_eq_iff)

text \<open>
  C2: in every state that calls of the operations reach, the edges form no cycle, the ranks of the nodes are a
  permutation of the numbers below their count that increases along every edge, and the run-time check passes.
\<close>

theorem graph_stays_acyclic:
  assumes "graph_reachable r"
  shows "acyclic (edges (nodes r)) \<and> CheckInvariants r = Some True \<and>
    bij_betw (\<lambda>i. rank (nodes r ! i)) {0..<length (nodes r)} {0..<int (length (nodes r))} \<and>
    (\<forall>u v. (u, v) \<in> edges (nodes r) \<longrightarrow> rank (nodes r ! nat u) < rank (nodes r ! nat v))"
proof -
  have ok: "rep_ok r" "graph_ok (nodes r)" using reachable_ok [OF assms] by (auto simp: rep_ok_def)
  have V: "Collect (in_range (nodes r)) = int ` {0..<length (nodes r)}" 
    by (auto simp: in_range_def image_int_atLeastLessThan)
  have "bij_betw (rk (nodes r)) (int ` {0..<length (nodes r)}) {0..<int (length (nodes r))}"
    using ok(2) V by (simp add: graph_ok_def bij_betw_def)
  moreover have "bij_betw int {0..<length (nodes r)} (int ` {0..<length (nodes r)})" by (simp add: bij_betw_def)
  ultimately have "bij_betw (rk (nodes r) \<circ> int) {0..<length (nodes r)} {0..<int (length (nodes r))}"
    using bij_betw_trans by blast
  then have "bij_betw (\<lambda>i. rank (nodes r ! i)) {0..<length (nodes r)} {0..<int (length (nodes r))}"
    using bij_betw_cong [of "{0..<length (nodes r)}" "\<lambda>i. rank (nodes r ! i)" "rk (nodes r) \<circ> int"] by (simp add: rk_def nd_def in_range_def)
  moreover have "rank (nodes r ! nat u) < rank (nodes r ! nat v)" if e: "(u, v) \<in> edges (nodes r)" for u v
  proof -
    have "in_range (nodes r) u" "in_range (nodes r) v" using e ok(2) edge_range by (auto simp: graph_ok_def edges_def)
    then show ?thesis using ok(2) e by (auto simp: graph_ok_def increasing_def rk_def nd_def)
  qed
  ultimately show ?thesis using CheckInvariants_ok [OF ok(1)] graph_ok_acyclic [OF ok(2)] by blast
qed

theorem graph_stays_acyclic_witness: "graph_reachable two_nodes \<and> CheckInvariants two_nodes = Some True"
  using graph_stays_acyclic [OF two_nodes_reachable] two_nodes_reachable by blast

text \<open>
  C1: InsertEdge between two nodes of the graph returns; it answers false exactly when the first node is already
  reachable from the second, and then leaves the edges as they were; otherwise exactly the edge is added, and
  HasEdge reports it. No id changes its meaning.
\<close>

theorem insert_edge_refuses_cycles:
  assumes "graph_reachable r" "HasNode r g = Some True" "HasNode r h = Some True"
  shows "\<exists>r'. InsertEdge g h r = Some ((NodeIndex h, NodeIndex g) \<notin> (edges (nodes r))\<^sup>*, r') \<and> graph_reachable r' \<and>
    edges (nodes r') = (if (NodeIndex h, NodeIndex g) \<in> (edges (nodes r))\<^sup>* then edges (nodes r)
      else insert (NodeIndex g, NodeIndex h) (edges (nodes r))) \<and>
    HasEdge r' g h = Some ((NodeIndex h, NodeIndex g) \<notin> (edges (nodes r))\<^sup>*) \<and> HasNode r' = HasNode r \<and> Ptr r' = Ptr r"
proof -
  have ok: "rep_ok r" and ids: "FindNode r g = Some True" "FindNode r h = Some True" using reachable_ok assms by (auto simp: HasNode_def)
  obtain r' where r': "InsertEdge g h r = Some ((NodeIndex h, NodeIndex g) \<notin> (edges (nodes r))\<^sup>*, r')" "rep_ok r'" "map core (nodes r') = map core (nodes r)"
      "edges (nodes r') = (if (NodeIndex h, NodeIndex g) \<in> (edges (nodes r))\<^sup>* then edges (nodes r) else insert (NodeIndex g, NodeIndex h) (edges (nodes r)))"
    using InsertEdge_rep_ok [OF ok ids] by blast
  have same: "HasNode r' = HasNode r" "Ptr r' = Ptr r" using same_ids [OF r'(3)] by auto
  then have ids': "FindNode r' g = Some True" "FindNode r' h = Some True" using assms by (auto simp: HasNode_def fun_eq_iff)
  have "acyclic (edges (nodes r))" using ok graph_ok_acyclic by (simp add: rep_ok_def)
  then have "(NodeIndex g, NodeIndex h) \<in> edges (nodes r) \<Longrightarrow> (NodeIndex h, NodeIndex g) \<notin> (edges (nodes r))\<^sup>*"
    unfolding acyclic_def by (metis rtrancl_into_trancl2)
  then have "HasEdge r' g h = Some ((NodeIndex h, NodeIndex g) \<notin> (edges (nodes r))\<^sup>*)"
    using HasEdge_spec [OF r'(2) FindNode_True FindNode_True, OF ids'] ids' r'(4) by auto
  then show ?thesis using r' same graph_reachable.step [OF assms(1) graph_step.insert_edge] by blast
qed

theorem insert_edge_refuses_cycles_witness:
  "HasNode two_nodes 0x100000000 = Some True \<and> HasNode two_nodes 0x100000001 = Some True \<and>
   (\<exists>r'. InsertEdge 0x100000000 0x100000001 two_nodes = Some (True, r') \<and> HasEdge r' 0x100000000 0x100000001 = Some True)"
  using insert_edge_refuses_cycles [OF two_nodes_reachable two_nodes_ids(5,6)] two_nodes_ids two_nodes_edges by auto

text \<open>
  C33: the id that GetId gives for a pointer is never the invalid id and names a node of the graph, Ptr gives the pointer back, the next GetId
  gives the same id and changes nothing; edges stay, and no other id that had a pointer loses it.
\<close>

theorem get_id_names_pointer:
  assumes "graph_reachable r" "length (nodes r) < 2 ^ 31"
  shows "\<exists>g r'. GetId p r = Some (g, r') \<and> graph_reachable r' \<and> g \<noteq> InvalidGraphId \<and> HasNode r' g = Some True \<and> Ptr r' g = Some p \<and>
    GetId p r' = Some (g, r') \<and> edges (nodes r') = edges (nodes r) \<and>
    (\<forall>k. HasNode r k = Some True \<and> Ptr r k \<noteq> Some 0 \<longrightarrow> HasNode r' k = Some True \<and> Ptr r' k = Ptr r k)"
proof -
  have ok: "rep_ok r" using reachable_ok assms by blast
  obtain i r' where r': "GetId p r = Some (MakeId i (ver (nodes r') i), r')" and e: "enters p i r r'" using GetId_spec [OF ok assms(2)] by blast
  have ok': "rep_ok r'" "in_range (nodes r') i" "msk (nodes r') i = HidePtr p" "PointerMap_Find r' p = Some i" using e by (auto simp: enters_def)
  note m = MakeId_current [OF ok'(1,2)]
  have "NodeVersion (MakeId i (ver (nodes r') i)) \<noteq> 0" using m(2) ok'(1,2) by (auto simp: rep_ok_def)
  then have "MakeId i (ver (nodes r') i) \<noteq> InvalidGraphId" by (auto simp: InvalidGraphId_def NodeVersion_def)
  moreover have "i \<noteq> - 1" using ok'(2) by (auto simp: in_range_def)
  then have "GetId p r' = Some (MakeId i (ver (nodes r') i), r')" using ok'(2,4) by (simp add: GetId_def get_nd ver_def)
  moreover have "HasNode r' (MakeId i (ver (nodes r') i)) = Some True \<and> Ptr r' (MakeId i (ver (nodes r') i)) = Some p"
    using m ok'(2,3) by (simp add: HasNode_def FindNode_iff Ptr_iff)
  moreover have "HasNode r' k = Some True \<and> Ptr r' k = Ptr r k" if k: "HasNode r k = Some True" "Ptr r k \<noteq> Some 0" for k
  proof -
    have "in_range (nodes r) (NodeIndex k)" "ver (nodes r) (NodeIndex k) = NodeVersion k" "msk (nodes r) (NodeIndex k) \<noteq> HidePtr 0"
      using k by (auto simp: HasNode_def FindNode_iff Ptr_iff split: if_splits)
    moreover from this have "in_range (nodes r') (NodeIndex k)" "ver (nodes r') (NodeIndex k) = NodeVersion k" "msk (nodes r') (NodeIndex k) = msk (nodes r) (NodeIndex k)"
      using e by (auto simp: enters_def)
    ultimately show ?thesis by (simp add: HasNode_def FindNode_iff Ptr_iff)
  qed
  ultimately show ?thesis using r' e graph_reachable.step [OF assms(1) graph_step.get_id [OF assms(2) r']] by (auto simp: enters_def)
qed

theorem get_id_names_pointer_witness:
  "\<exists>g r'. GetId 24 two_nodes = Some (g, r') \<and> HasNode r' g = Some True \<and> Ptr r' g = Some 24"
  using get_id_names_pointer [OF two_nodes_reachable, of 24] two_nodes_ids(7) by auto

text \<open>
  C34: RemoveNode of a pointer in the graph removes its node with every edge at it and nothing else; its id has no
  pointer any more and names no node, unless the version counter of the node is used up, when HasNode still
  answers true. Other ids keep their meaning.
\<close>

theorem remove_node_expires_id:
  assumes "graph_reachable r" "HasNode r g = Some True" "Ptr r g = Some p" "p \<noteq> 0"
  shows "\<exists>r'. RemoveNode p r = Some r' \<and> graph_reachable r' \<and>
    edges (nodes r') = {(u, v) \<in> edges (nodes r). u \<noteq> NodeIndex g \<and> v \<noteq> NodeIndex g} \<and>
    HasNode r' g = Some (NodeVersion g = 2 ^ 32 - 1) \<and> Ptr r' g = Some 0 \<and>
    (\<forall>k. NodeIndex k \<noteq> NodeIndex g \<longrightarrow> HasNode r' k = HasNode r k \<and> Ptr r' k = Ptr r k)"
proof -
  have ok: "rep_ok r" using reachable_ok assms by blast
  have g: "in_range (nodes r) (NodeIndex g)" "ver (nodes r) (NodeIndex g) = NodeVersion g" using assms(2) by (auto simp: HasNode_def FindNode_iff split: if_splits)
  have "PointerMap_Find r p = Some (NodeIndex g)" using Find_Ptr [OF ok assms(3) _ assms(4)] assms(2) by (simp add: HasNode_def)
  then obtain r' where r': "RemoveNode p r = Some r'" and l: "leaves p (NodeIndex g) r r'"
    using RemoveNode_spec [OF ok, of p] g(1) by (auto simp: in_range_def)
  have v: "in_range (nodes r') = in_range (nodes r)" "msk (nodes r') = (msk (nodes r))(NodeIndex g := HidePtr 0)"
      "ver (nodes r') = (ver (nodes r))(NodeIndex g := (if NodeVersion g = 2 ^ 32 - 1 then NodeVersion g else NodeVersion g + 1))"
    using l g(2) by (auto simp: leaves_def)
  have "HasNode r' g = Some (NodeVersion g = 2 ^ 32 - 1)" "Ptr r' g = Some 0"
    using v g(1) by (auto simp: HasNode_def FindNode_iff Ptr_iff)
  moreover have "HasNode r' k = HasNode r k \<and> Ptr r' k = Ptr r k" if "NodeIndex k \<noteq> NodeIndex g" for k
    using v that by (simp add: HasNode_def FindNode_iff Ptr_iff)
  ultimately show ?thesis using r' l graph_reachable.step [OF assms(1) graph_step.remove_node [OF r']] by (auto simp: leaves_def)
qed

theorem remove_node_expires_id_witness:
  "\<exists>r'. RemoveNode 8 two_nodes = Some r' \<and> HasNode r' 0x100000000 = Some False \<and> HasNode r' 0x100000001 = Some True"
proof -
  have "Ptr two_nodes 0x100000000 = Some 8" by (simp add: Ptr_def FindNode_def two_nodes_ids two_nodes_def get_def in_range_def fresh_node_def)
  from remove_node_expires_id [OF two_nodes_reachable two_nodes_ids(5) this] show ?thesis using two_nodes_ids by auto
qed

text \<open>
  C4: FindPath between two nodes of the graph returns; when the second is reachable from the first it gives the
  number of nodes of a path between them without repetition, at most the number of nodes of the graph, and the array holds the ids of
  its nodes as far as the bound allows; otherwise it gives zero. IsReachable decides reachability.
\<close>

theorem find_path_correct:
  assumes "graph_reachable r" "HasNode r g = Some True" "HasNode r h = Some True" "max_path_len \<le> int (length path)"
  shows "\<exists>len path'. FindPath r g h max_path_len path = Some (len, path') \<and> length path' = length path \<and>
    (if (NodeIndex g, NodeIndex h) \<in> (edges (nodes r))\<^sup>*
     then 1 \<le> len \<and> len \<le> int (length (nodes r)) \<and> found (nodes r) (NodeIndex g) (NodeIndex h) max_path_len len path'
     else len = 0) \<and>
    IsReachable r g h = Some ((NodeIndex g, NodeIndex h) \<in> (edges (nodes r))\<^sup>*)"
proof -
  have ok: "graph_ok (nodes r)" using reachable_ok assms(1) by (auto simp: rep_ok_def)
  have ids: "FindNode r g = Some True" "FindNode r h = Some True" using assms by (auto simp: HasNode_def)
  note bounds = found_bounds [OF ok FindNode_True [OF ids(1)]]
  obtain len path' where "FindPath r g h max_path_len path = Some (len, path')" "length path' = length path"
      "if (NodeIndex g, NodeIndex h) \<in> (edges (nodes r))\<^sup>* then found (nodes r) (NodeIndex g) (NodeIndex h) max_path_len len path' else len = 0"
    using FindPath_spec [OF ok ids assms(4)] by blast
  moreover have "IsReachable r g h = Some ((NodeIndex g, NodeIndex h) \<in> (edges (nodes r))\<^sup>*)"
    using FindPath_spec [OF ok ids, of 0 "[]"] bounds(1) by (fastforce simp: IsReachable_def split: if_splits)
  ultimately show ?thesis using bounds by (auto split: if_splits)
qed

theorem find_path_correct_witness: "FindPath two_nodes 0x100000000 0x100000001 2 [0, 0] \<noteq> None \<and> IsReachable two_nodes 0x100000000 0x100000001 = Some False"
  using find_path_correct [OF two_nodes_reachable two_nodes_ids(5,6), of 2 "[0, 0]"] two_nodes_ids two_nodes_edges by auto

section \<open>Every call returns\<close>

datatype graph_call =
    CallGetId pointer
  | CallRemoveNode pointer
  | CallInsertEdge int int
  | CallRemoveEdge int int
  | CallUpdateStackTrace int int "int \<Rightarrow> int list"

fun do_call :: "graph_call \<Rightarrow> Rep \<Rightarrow> Rep option" where
  "do_call (CallGetId p) r = map_option snd (GetId p r)"
| "do_call (CallRemoveNode p) r = RemoveNode p r"
| "do_call (CallInsertEdge g h) r = map_option snd (InsertEdge g h r)"
| "do_call (CallRemoveEdge g h) r = RemoveEdge g h r"
| "do_call (CallUpdateStackTrace g prio f) r = UpdateStackTrace g prio f r"

text \<open>Ids have the index of a node, expired or not, and there is an index for one more node.\<close>

fun callable :: "graph_call \<Rightarrow> Rep \<Rightarrow> bool" where
  "callable (CallGetId p) r \<longleftrightarrow> length (nodes r) < 2 ^ 31"
| "callable (CallRemoveNode p) r \<longleftrightarrow> True"
| "callable (CallInsertEdge g h) r \<longleftrightarrow> in_range (nodes r) (NodeIndex g) \<and> in_range (nodes r) (NodeIndex h)"
| "callable (CallRemoveEdge g h) r \<longleftrightarrow> in_range (nodes r) (NodeIndex g) \<and> in_range (nodes r) (NodeIndex h)"
| "callable (CallUpdateStackTrace g prio f) r \<longleftrightarrow> in_range (nodes r) (NodeIndex g)"

lemma do_call_returns:
  assumes ok: "rep_ok r" and c: "callable c r"
  shows "\<exists>r'. do_call c r = Some r' \<and> graph_step r r'"
proof (cases c)
  case (CallGetId p)
  then show ?thesis using GetId_spec [OF ok, of p] c graph_step.get_id by fastforce
next
  case (CallRemoveNode p)
  then show ?thesis using RemoveNode_spec [OF ok, of p] graph_step.remove_node by fastforce
next
  case (CallInsertEdge g h)
  then have "\<exists>b r'. InsertEdge g h r = Some (b, r')"
    using InsertEdge_rep_ok [OF ok, of g h] InsertEdge_expired [of r g h] c by (cases "FindNode r g = Some True \<and> FindNode r h = Some True") auto
  then show ?thesis using CallInsertEdge graph_step.insert_edge by fastforce
next
  case (CallRemoveEdge g h)
  then show ?thesis using RemoveEdge_spec [OF ok, of g h] c graph_step.remove_edge by fastforce
next
  case (CallUpdateStackTrace g prio f)
  then show ?thesis using UpdateStackTrace_spec [OF ok, of g prio f] c graph_step.update_trace by fastforce
qed

text \<open>
  C32: in every reachable state every call with ids of nodes, current or expired, returns and reaches the next
  state, and so do the queries: no search and no scan of a chain or a table runs forever, and no access is outside
  the vector of nodes.
\<close>

theorem graph_calls_return:
  assumes "graph_reachable r"
  shows "(callable c r \<longrightarrow> (\<exists>r'. do_call c r = Some r' \<and> graph_step r r')) \<and>
    (in_range (nodes r) (NodeIndex g) \<and> in_range (nodes r) (NodeIndex h) \<longrightarrow>
      HasNode r g \<noteq> None \<and> Ptr r g \<noteq> None \<and> GetStackTrace r g \<noteq> None \<and> HasEdge r g h \<noteq> None \<and> IsReachable r g h \<noteq> None)"
proof -
  have ok: "rep_ok r" "graph_ok (nodes r)" using reachable_ok [OF assms] by (auto simp: rep_ok_def)
  have "IsReachable r g h \<noteq> None" if range: "in_range (nodes r) (NodeIndex g)" "in_range (nodes r) (NodeIndex h)"
  proof (cases "FindNode r g = Some True \<and> FindNode r h = Some True")
    case True
    then show ?thesis using FindPath_spec [OF ok(2), of g h 0 "[]"] by (auto simp: IsReachable_def)
  next
    case False
    then show ?thesis using range by (auto simp: IsReachable_def FindPath_def FindNode_iff)
  qed
  then show ?thesis using do_call_returns [OF ok(1)] HasEdge_spec [OF ok(1), of g h]
    by (auto simp: HasNode_def FindNode_iff Ptr_iff GetStackTrace_def get_nd)
qed

theorem graph_calls_return_witness:
  "(\<exists>r'. do_call (CallInsertEdge 0x100000000 0x100000001) two_nodes = Some r') \<and> IsReachable two_nodes 0x100000000 0x100000001 \<noteq> None"
proof -
  have "callable (CallInsertEdge 0x100000000 0x100000001) two_nodes" using two_nodes_ids by (simp add: in_range_def)
  then show ?thesis using graph_calls_return [OF two_nodes_reachable, of "CallInsertEdge 0x100000000 0x100000001" "0x100000000" "0x100000001"] by auto
qed

end
