(* ===== verification/Spec2Isabelle.thy ===== *)
theory Spec2Isabelle
  imports Civil_Time Duration_Text Time_Zone_Fixed Char_Set Match Base64 C_Escape Graph_Run
begin

text \<open>
  Verification of parts of the Abseil C++ library (\<^verbatim>\<open>src/absl\<close>).

  \<^bold>\<open>Parts and how they interact.\<close> The modelled parts are the calendar and duration arithmetic of
  \<^verbatim>\<open>time/\<close>, the 128-bit integers and bit functions of \<^verbatim>\<open>numeric/\<close> it computes with, the byte-level text
  components of \<^verbatim>\<open>strings/\<close>, and the deadlock detector of \<^verbatim>\<open>synchronization/\<close> with the hash set it keeps its
  edges in. Durations multiply and divide through \<^verbatim>\<open>uint128\<close>, whose division locates
  the highest bit with the bit scans; the escaping functions classify bytes with the tables of
  \<^verbatim>\<open>ascii.cc\<close>, use the character sets of \<^verbatim>\<open>charset.h\<close> and encode code points with \<^verbatim>\<open>utf8.cc\<close>. The theory
  imports follow these calls.

  \<^bold>\<open>Conventions.\<close> A C++ \<^verbatim>\<open>char\<close> is a HOL character, read as an unsigned byte by \<^const>\<open>uc\<close>; a string or buffer is
  a list of characters; tables are lists with the source's entries. Unsigned integers are machine words, or
  integers with the reduction written out; signed integers are words where the code relies on their width
  and unbounded integers elsewhere, which each theory says. Failing checks, exceptions and undefined
  behaviour are values (\<^const>\<open>None\<close>, \<^const>\<open>Inl\<close>, or a constructor of an outcome type), so that a theorem that
  an operation returns a proper value includes that it does not read or write out of bounds. Loops are
  recursive functions with a termination proof, or partial functions whose value \<^const>\<open>None\<close> is not
  returning and which are proved to return.

  \<^bold>\<open>Theories.\<close>
  \<^item> \<^verbatim>\<open>Abseil_Prelude\<close>: truncating division, integer ranges, shared rewrite rules.
  \<^item> \<^verbatim>\<open>Civil_Time\<close> (\<^verbatim>\<open>time/internal/cctz/include/cctz/civil_time_detail.h\<close>): the fields record, the normalisation
    steps \<^verbatim>\<open>n_day\<close>, \<^verbatim>\<open>n_mon\<close>, \<^verbatim>\<open>n_hour\<close>, \<^verbatim>\<open>n_min\<close>, \<^verbatim>\<open>n_sec\<close>, \<^verbatim>\<open>step\<close>, \<^verbatim>\<open>difference\<close>, \<^verbatim>\<open>align\<close>, comparison,
    weekdays. Reference: the day number of a date by counting leap years. Shown: any six integers
    normalise to the existing date that denotes the same instant; arithmetic at each alignment is
    inverse; field order is time order; differences count days; weekday functions agree with the calendar.
    The two loops over blocks of years share the locale \<^verbatim>\<open>year_window_loop\<close>, the six alignments \<^verbatim>\<open>unit_arith\<close>.
    Integers are unbounded: the results are about the code where no intermediate value leaves 64 bits.
  \<^item> \<^verbatim>\<open>Bits\<close> (\<^verbatim>\<open>numeric/bits.h\<close>, \<^verbatim>\<open>numeric/internal/bits.h\<close>): portable bit scans, rotations, powers of two.
  \<^item> \<^verbatim>\<open>Int128\<close>, \<^verbatim>\<open>Int128_Format\<close> (\<^verbatim>\<open>numeric/int128.h\<close>, \<^verbatim>\<open>numeric/int128.cc\<close>): 128-bit integers as two halves,
    shown to be the machine operations on a 128-bit word; division of both types; printing, through
    the locale \<^verbatim>\<open>divmod_contract\<close>, which the shift-subtract division interprets.
  \<^item> \<^verbatim>\<open>Duration\<close>, \<^verbatim>\<open>Duration_Div\<close>, \<^verbatim>\<open>Duration_Convert\<close>, \<^verbatim>\<open>Duration_Text\<close> (\<^verbatim>\<open>time/time.h\<close>, \<^verbatim>\<open>time/duration.cc\<close>): the
    representation, shown to refine integer ticks with saturation to two infinities; division and rounding;
    conversion from and to integer counts of a unit, \<^verbatim>\<open>timespec\<close> and \<^verbatim>\<open>timeval\<close> (locale
    \<^verbatim>\<open>subsecond_unit\<close>); parsing. A long fraction of an hour parses to infinity, which a theorem records.
  \<^item> \<^verbatim>\<open>Time_Zone_Fixed\<close> (\<^verbatim>\<open>time/internal/cctz/src/time_zone_fixed.cc\<close>): names of fixed offsets.
  \<^item> \<^verbatim>\<open>Ascii\<close>, \<^verbatim>\<open>Char_Set\<close>, \<^verbatim>\<open>Match\<close> (\<^verbatim>\<open>strings/ascii\<close>, \<^verbatim>\<open>strings/charset.h\<close>, \<^verbatim>\<open>strings/match\<close>,
    \<^verbatim>\<open>strings/internal/memutil.cc\<close>): classes and case of bytes, 256-bit sets, searching with and without
    case by Boyer-Moore-Horspool, common prefixes by eight-byte blocks.
  \<^item> \<^verbatim>\<open>Base64\<close>, \<^verbatim>\<open>Hex_Url\<close>, \<^verbatim>\<open>C_Escape\<close>, \<^verbatim>\<open>Utf8\<close> (\<^verbatim>\<open>strings/escaping.cc\<close>, \<^verbatim>\<open>strings/internal/escaping.cc\<close>,
    \<^verbatim>\<open>strings/internal/utf8.cc\<close>): the escaping functions, their inverses and their buffers. Both base64
    alphabets interpret the locale \<^verbatim>\<open>base64_code\<close>, in which the decoder is proved equal to a digit-wise
    reference.
  \<^item> \<^verbatim>\<open>Node_Set\<close> (class \<^verbatim>\<open>NodeSet\<close> of \<^verbatim>\<open>synchronization/internal/graphcycles.cc\<close>): the hash set with linear probing,
    tombstones and doubling, shown to refine sets of integers and to return however full the table is. The
    depth two of \<^verbatim>\<open>insert_depth\<close> is enough, since re-inserting into the doubled table never fills it again. The
    contract the detector relies on is the locale \<^verbatim>\<open>int_set\<close>, interpreted on the hash set.
  \<^item> \<^verbatim>\<open>Rank_Order\<close>: what reassigning ranks does to an order that increases along the edges of a graph, apart
    from any data structure; the invariant of a search with a stack.
  \<^item> \<^verbatim>\<open>Graph_Cycles\<close> (the rest of \<^verbatim>\<open>graphcycles.cc\<close>, \<^verbatim>\<open>base/internal/hide_ptr.h\<close>): the deadlock detector, one definition per
    function on the record \<^verbatim>\<open>Rep\<close>, and the views of the vector of nodes that the proofs use.
    \<^verbatim>\<open>Graph_Insert\<close> proves insertion of an edge, \<^verbatim>\<open>Graph_Path\<close> the search for a path, \<^verbatim>\<open>Graph_State\<close> ids, the
    table of pointers with its chains, removal, the run-time check and the invariant of the states that the step
    relation \<^verbatim>\<open>graph_step\<close> reaches; \<^verbatim>\<open>Graph_Run\<close> states what callers get: no cycle ever, refusal exactly of the edges
    that would close one, ids that name their pointers until removal, and that every call returns. Sizes and
    counters are unbounded except where the code casts; there are at most 2 to the 31 nodes, the indices an
    \<^verbatim>\<open>int32_t\<close> has. Allocation is taken to succeed; the storage of \<^verbatim>\<open>Vec\<close>, the destructor and the test-only
    \<^verbatim>\<open>TestOnlyAddNodes\<close> are left out. An id whose version counter is used up survives the removal of its node,
    which a theorem records.

  \<^bold>\<open>Not modelled.\<close> Floating-point conversions (durations, 128-bit integers, \<^verbatim>\<open>charconv\<close>, number formatting), because
  the development has no model of IEEE arithmetic; the branches that use compiler intrinsics, inline assembly
  or vector instructions, in favour of the portable ones; components that are threads, system calls, clocks,
  signals or I/O (\<^verbatim>\<open>synchronization\<close> apart from the part above, \<^verbatim>\<open>debugging\<close>, \<^verbatim>\<open>log\<close>, \<^verbatim>\<open>profiling\<close>, \<^verbatim>\<open>flags\<close>, clocks
  and the zone database of \<^verbatim>\<open>time\<close>); components whose content is C++ templates and object lifetimes
  (\<^verbatim>\<open>container\<close>, \<^verbatim>\<open>algorithm\<close>, \<^verbatim>\<open>functional\<close>, \<^verbatim>\<open>meta\<close>, \<^verbatim>\<open>memory\<close>, \<^verbatim>\<open>types\<close>, \<^verbatim>\<open>utility\<close>, \<^verbatim>\<open>cleanup\<close>); and, for want
  of extent rather than of principle, \<^verbatim>\<open>crc\<close>, \<^verbatim>\<open>hash\<close>, \<^verbatim>\<open>random\<close>, \<^verbatim>\<open>status\<close> and the rest of \<^verbatim>\<open>strings\<close> (cords,
  formatting, splitting, joining, replacing).
\<close>

end
